(* ===== verification/Amc_Prelude.thy ===== *)
theory Amc_Prelude
  imports Main "HOL-Library.Word"
begin

text \<open>
  Shared vocabulary of the development: the fixed-width integer types of the driver, its
  error codes and result type (\<^verbatim>\<open>error.h\<close>), the bit, alignment and byte-order operations
  the driver takes from the C language and the kernel headers, and the lemmas on words and
  lists that the component theories use.
\<close>

unbundle bit_operations_syntax

named_theorems align_simps \<open>alignment arithmetic moved from words to natural numbers\<close>
named_theorems bitmap_simps \<open>single bits of an allocation bitmap\<close>
named_theorems ledger_simps \<open>acquisition and release of kernel resources\<close>

section \<open>Machine integers\<close>

type_synonym u8 = "8 word"
type_synonym u16 = "16 word"
type_synonym u32 = "32 word"
type_synonym u64 = "64 word"

section \<open>Error codes and results\<close>

text \<open>
  The negative errno values the driver itself returns, and \<open>KErr\<close> for a code that a kernel
  call returned and the driver passes on. A function that returns a negative code or a
  value has the result type \<open>errno + 'a\<close>, with \<open>Inl\<close> for the error.
\<close>

datatype errno = EIO | ENOMEM | EINVAL | EACCES | ENXIO | EFAULT | EBUSY | EAGAIN | E2BIG
  | ERESTARTSYS | KErr nat

type_synonym 'a res = "errno + 'a"

text \<open>
  What a pointer-returning kernel call hands back: a null pointer, an error pointer or a
  usable pointer. \<open>test_ptr\<close> is \<^verbatim>\<open>TEST_PTR\<close>: the code of an error pointer is passed on and
  a null pointer becomes \<^verbatim>\<open>-ENOMEM\<close>.
\<close>

datatype 'a kptr = Null | ErrPtr errno | Ptr 'a

fun test_ptr :: "'a kptr \<Rightarrow> 'a res" where
  "test_ptr Null = Inl ENOMEM"
| "test_ptr (ErrPtr e) = Inl e"
| "test_ptr (Ptr p) = Inr p"

section \<open>Bits of a bitmap word\<close>

text \<open>
  The atomic bit operations of the kernel on one word: \<open>test_and_set_bit\<close> returns the old
  value of the bit together with the word in which it is set.
\<close>

definition test_and_set_bit :: "nat \<Rightarrow> u64 \<Rightarrow> bool \<times> u64" where
  "test_and_set_bit n w = (bit w n, Bit_Operations.set_bit n w)"

definition clear_bit :: "nat \<Rightarrow> u64 \<Rightarrow> u64" where
  "clear_bit n w = Bit_Operations.unset_bit n w"

section \<open>Alignment\<close>

text \<open>The kernel's alignment macros, for an alignment \<open>a\<close> that is a power of two.\<close>

definition IS_ALIGNED :: "u64 \<Rightarrow> u64 \<Rightarrow> bool" where
  "IS_ALIGNED x a \<longleftrightarrow> x AND (a - 1) = 0"

definition ALIGN_DOWN :: "u64 \<Rightarrow> u64 \<Rightarrow> u64" where
  "ALIGN_DOWN x a = x AND NOT (a - 1)"

definition ALIGN :: "u64 \<Rightarrow> u64 \<Rightarrow> u64" where
  "ALIGN x a = (x + (a - 1)) AND NOT (a - 1)"

section \<open>Byte order\<close>

text \<open>Little-endian loads and stores: the driver runs on x86-64.\<close>

definition le16 :: "u8 \<Rightarrow> u8 \<Rightarrow> u16" where
  "le16 a b = ucast a OR push_bit 8 (ucast b)"

fun le_bytes :: "nat \<Rightarrow> nat \<Rightarrow> u8 list" where
  "le_bytes 0 v = []"
| "le_bytes (Suc n) v = of_nat v # le_bytes n (v div 256)"

fun le_val :: "u8 list \<Rightarrow> nat" where
  "le_val [] = 0"
| "le_val (b # bs) = unat b + 256 * le_val bs"

text \<open>\<^verbatim>\<open>memcpy(dst + i, src, n)\<close> on a buffer held as a list of bytes.\<close>

definition memcpy_at :: "u8 list \<Rightarrow> nat \<Rightarrow> u8 list \<Rightarrow> u8 list" where
  "memcpy_at dst i src = take i dst @ src @ drop (i + length src) dst"

section \<open>Ranges of the integer types\<close>

lemma unat_u8_less: "unat (b :: u8) < 256"
  using unsigned_less [of b] by simp

lemma unat_u32_less: "unat (w :: u32) < 2 ^ 32"
  using unsigned_less [of w] by simp

lemma unat_u64_less: "unat (x :: u64) < 2 ^ 64"
  using unsigned_less [of x] by simp

section \<open>Lemmas on sets\<close>

lemma card_le_one_sole: "finite A \<Longrightarrow> a \<in> A \<Longrightarrow> card A \<le> 1 \<Longrightarrow> A = {a}"
  using card_le_Suc0_iff_eq [of A] by auto

section \<open>Lemmas on pointers\<close>

lemma test_ptr_Inr [simp]: "test_ptr p = Inr a \<longleftrightarrow> p = Ptr a"
  by (cases p) auto

section \<open>Lemmas on bitmaps\<close>

lemma bit_test_and_set_bit [bitmap_simps]:
  "fst (test_and_set_bit n w) = bit w n"
  "bit (snd (test_and_set_bit n w)) m \<longleftrightarrow> bit w m \<or> (m = n \<and> n < 64)"
  by (auto simp: test_and_set_bit_def bit_simps)

lemma bit_clear_bit [bitmap_simps]: "bit (clear_bit n w) m \<longleftrightarrow> bit w m \<and> m \<noteq> n"
  by (auto simp: clear_bit_def bit_simps)

section \<open>Lemmas on alignment\<close>

lemma unat_and_mask:
  "unat ((x :: u64) AND (2 ^ s - 1)) = unat x mod 2 ^ s"
proof -
  have "x AND (2 ^ s - 1) = take_bit s x"
    by (simp only: take_bit_eq_mask mask_eq_exp_minus_1)
  then have "unat (x AND (2 ^ s - 1)) = take_bit s (unat x)"
    by (simp only: unsigned_take_bit_eq)
  then show ?thesis
    by (simp only: take_bit_eq_mod)
qed

lemma unat_pow2 [align_simps]: "s < 64 \<Longrightarrow> unat (2 ^ s :: u64) = 2 ^ s"
proof -
  assume "s < 64"
  then have "(2::nat) ^ s < 2 ^ 64" by (rule power_strict_increasing) simp
  moreover have "(2 :: u64) ^ s = of_nat (2 ^ s)" by simp
  ultimately show ?thesis by (simp only: unat_of_nat) simp
qed

lemma unat_and_not_mask:
  "unat ((x :: u64) AND NOT (2 ^ s - 1)) = unat x - unat x mod 2 ^ s"
proof -
  have "x AND NOT (2 ^ s - 1) = push_bit s (drop_bit s x)"
    unfolding mask_eq_exp_minus_1 [symmetric]
    by (rule bit_word_eqI) (auto simp: bit_simps)
  then have "unat (x AND NOT (2 ^ s - 1)) = unat x div 2 ^ s * 2 ^ s mod 2 ^ 64"
    by (simp only: unsigned_push_bit_eq unsigned_drop_bit_eq)
      (use unat_u64_less [of x] in \<open>simp add: take_bit_eq_mod push_bit_eq_mult drop_bit_eq_div\<close>)
  moreover have "unat x div 2 ^ s * 2 ^ s < 2 ^ 64"
    by (rule le_less_trans [OF div_times_less_eq_dividend]) (use unat_u64_less [of x] in simp)
  ultimately show ?thesis by (simp add: minus_mod_eq_div_mult)
qed

lemma IS_ALIGNED_unat [align_simps]: "IS_ALIGNED x (2 ^ s) \<longleftrightarrow> 2 ^ s dvd unat x"
  unfolding IS_ALIGNED_def
  by (simp only: unat_and_mask dvd_eq_mod_eq_0 flip: unat_eq_0)

lemma ALIGN_DOWN_unat [align_simps]:
  "unat (ALIGN_DOWN x (2 ^ s)) = unat x div 2 ^ s * 2 ^ s"
  by (simp add: ALIGN_DOWN_def unat_and_not_mask minus_mod_eq_div_mult)

lemma ALIGN_unat [align_simps]:
  assumes "s < 64" and "unat x + 2 ^ s \<le> 2 ^ 64"
  shows "unat (ALIGN x (2 ^ s)) = (unat x + (2 ^ s - 1)) div 2 ^ s * 2 ^ s"
proof -
  have one: "unat ((2 :: u64) ^ s - 1) = 2 ^ s - 1"
    using assms(1) unat_pow2 [of s]
    by (metis One_nat_def unat_1 unat_sub zero_less_numeral zero_less_power word_le_nat_alt Suc_leI)
  have "unat (x + (2 ^ s - 1)) = unat x + (2 ^ s - 1)"
    using assms(2) one by (subst unat_add_lem [THEN iffD1]) auto
  then show ?thesis
    by (simp add: ALIGN_def unat_and_not_mask minus_mod_eq_div_mult)
qed

section \<open>Lemmas on byte order\<close>

lemma length_le_bytes [simp]: "length (le_bytes n v) = n"
  by (induction n arbitrary: v) auto

lemma le_val_le_bytes: "le_val (le_bytes n v) = v mod 256 ^ n"
proof (induction n arbitrary: v)
  case 0
  then show ?case by simp
next
  case (Suc n)
  then show ?case by (simp add: unat_of_nat mod_mult2_eq)
qed

lemma le_val_bound: "le_val bs < 256 ^ length bs"
proof (induction bs)
  case (Cons b bs)
  with unat_u8_less [of b] show ?case by simp
qed simp

lemma unat_le16: "unat (le16 a b) = unat a + 256 * unat b"
proof -
  have "le16 a b = ucast a + push_bit 8 (ucast b)"
    unfolding le16_def
    by (rule disjunctive_add [symmetric]) (auto simp: bit_simps dest: bit_imp_le_length)
  with unat_u8_less [of a] unat_u8_less [of b] show ?thesis
    by (simp add: unat_word_ariths unsigned_push_bit_eq push_bit_eq_mult unsigned_ucast_eq
        take_bit_eq_mod)
qed

end
