(* ===== verification/Platform.thy ===== *)
theory Platform
  imports Amc_Prelude "HOL-Library.Monad_Syntax"
begin

text \<open>
  What surrounds the driver: the registers of the two Xilinx controllers in BAR2, the trace of
  bus operations by which the driver is observed, the part of the hardware and the kernel
  that is a parameter of the model, and the ledger of kernel resources. The theory also has
  the two interfaces that several components share, as locales: a bitmap of slots
  (\<open>bit_slots\<close>) and a stage of set-up with its tear-down (\<open>resource_stage\<close>).
\<close>

section \<open>Registers and the bus trace\<close>

text \<open>The members of \<^verbatim>\<open>struct axi_dma_controller\<close>, with their byte offsets.\<close>

datatype cdma_reg = CDMACR | CDMASR | CURDESC_PNTR | CURDESC_PNTR_MSB | TAILDESC_PNTR
  | TAILDESC_PNTR_MSB | SA | SA_MSB | DA | DA_MSB | BTT

fun cdma_offset :: "cdma_reg \<Rightarrow> nat" where
  "cdma_offset CDMACR = 0x00"
| "cdma_offset CDMASR = 0x04"
| "cdma_offset CURDESC_PNTR = 0x08"
| "cdma_offset CURDESC_PNTR_MSB = 0x0C"
| "cdma_offset TAILDESC_PNTR = 0x10"
| "cdma_offset TAILDESC_PNTR_MSB = 0x14"
| "cdma_offset SA = 0x18"
| "cdma_offset SA_MSB = 0x1C"
| "cdma_offset DA = 0x20"
| "cdma_offset DA_MSB = 0x24"
| "cdma_offset BTT = 0x28"

text \<open>The members of \<^verbatim>\<open>struct axi_interrupt_controller\<close>, with their byte offsets.\<close>

datatype intc_reg = ISR | IPR | IER | IAR | SIE | CIE | IVR | MER | IMR | ILR

fun intc_offset :: "intc_reg \<Rightarrow> nat" where
  "intc_offset ISR = 0x00"
| "intc_offset IPR = 0x04"
| "intc_offset IER = 0x08"
| "intc_offset IAR = 0x0C"
| "intc_offset SIE = 0x10"
| "intc_offset CIE = 0x14"
| "intc_offset IVR = 0x18"
| "intc_offset MER = 0x1C"
| "intc_offset IMR = 0x20"
| "intc_offset ILR = 0x24"

datatype bus_reg = Cdma cdma_reg | Intc intc_reg

text \<open>The offset of a register in BAR2: the two controllers are at pages 0 and 1.\<close>

fun bar2_offset :: "bus_reg \<Rightarrow> nat" where
  "bar2_offset (Cdma r) = 0x0000 + cdma_offset r"
| "bar2_offset (Intc r) = 0x1000 + intc_offset r"

datatype dma_dir = DMA_BIDIRECTIONAL | DMA_TO_DEVICE | DMA_FROM_DEVICE | DMA_NONE

text \<open>
  The trace records what the driver does to the hardware, oldest first: register reads with the
  value read, register writes, the hand-over of the DMA buffer with what it holds then, and its
  mapping.
\<close>

datatype bus_event =
    Readl bus_reg u32
  | Writel bus_reg u32
  | SyncForDevice dma_dir "u8 list"
  | SyncForCpu dma_dir
  | MapSingle dma_dir
  | UnmapSingle dma_dir

type_synonym bus = "bus_event list"

text \<open>
  The hardware and the kernel as far as the driver observes them. What a register reads as and
  the value of \<^verbatim>\<open>jiffies\<close> may depend on everything that happened on the bus before.
  \<open>wait_done\<close> is \<^verbatim>\<open>wait_for_completion_killable\<close>: the bus operations that interrupt handlers
  carry out meanwhile, and the outcome, an error if the process is killed; \<open>None\<close> is a wait that
  never ends, because the engine does not complete and nobody kills the process. \<open>buf_after\<close> is the content of the DMA buffer as the
  processor sees it after a trace, given what it held before.
\<close>

record platform =
  hw :: "bus \<Rightarrow> bus_reg \<Rightarrow> u32"
  jiffies :: "bus \<Rightarrow> u64"
  one_ms :: u64
  wait_done :: "bus \<Rightarrow> (bus \<times> unit res) option"
  buf_after :: "bus \<Rightarrow> u8 list \<Rightarrow> u8 list"

definition readl :: "platform \<Rightarrow> bus_reg \<Rightarrow> bus \<Rightarrow> u32 \<times> bus" where
  "readl pf r tr = (hw pf tr r, tr @ [Readl r (hw pf tr r)])"

definition writel :: "u32 \<Rightarrow> bus_reg \<Rightarrow> bus \<Rightarrow> bus" where
  "writel v r tr = tr @ [Writel r v]"

text \<open>\<^verbatim>\<open>time_before\<close> compares two tick counts by their signed difference.\<close>

definition time_before :: "u64 \<Rightarrow> u64 \<Rightarrow> bool" where
  "time_before a b \<longleftrightarrow> sint (a - b) < 0"

section \<open>The resource ledger\<close>

text \<open>The kernel resources the driver takes; \<open>Res_Node m\<close> is the device node of minor \<open>m\<close>.\<close>

datatype resource =
    Res_Chrdev | Res_Class | Res_Driver
  | Res_Board nat | Res_Priv
  | Res_Pci_Device | Res_Regions | Res_Master | Res_Msi
  | Res_Bar2 | Res_Prom
  | Res_Dma_Control | Res_Dma_Pages | Res_Dma_Mapping
  | Res_Intc | Res_Irq
  | Res_Cdev | Res_Node nat
  | Res_Sysfs_Prom_Used | Res_Sysfs_Prom

type_synonym ledger = "resource set"

section \<open>Interface: a bitmap of slots\<close>

text \<open>
  Boards and event readers are numbered by the first free bit of a word. The interface says
  what allocation and release do to the set of taken slots.
\<close>

locale bit_slots =
  fixes taken :: "'s \<Rightarrow> nat set"
    and cap :: nat
    and alloc :: "'s \<Rightarrow> (nat \<times> 's) option"
    and free :: "nat \<Rightarrow> 's \<Rightarrow> 's"
  assumes alloc_None: "alloc s = None \<longleftrightarrow> {..<cap} \<subseteq> taken s"
    and alloc_Some: "alloc s = Some (n, s') \<Longrightarrow>
      n < cap \<and> n \<notin> taken s \<and> {..<n} \<subseteq> taken s \<and> taken s' = insert n (taken s)"
    and taken_free: "taken (free n s) = taken s - {n}"
begin

lemma alloc_total: "\<not> {..<cap} \<subseteq> taken s \<Longrightarrow> \<exists>n s'. alloc s = Some (n, s')"
  using alloc_None [of s] by (metis not_Some_eq surj_pair)

lemma free_alloc: "alloc s = Some (n, s') \<Longrightarrow> taken (free n s') = taken s"
  using alloc_Some [of s n s'] by (auto simp: taken_free)

lemma alloc_after_free:
  assumes "n < cap"
  shows "alloc (free n s) \<noteq> None"
  using assms by (auto simp: alloc_None taken_free)

lemma alloc_fresh: "alloc s = Some (n, s') \<Longrightarrow> m \<in> taken s \<Longrightarrow> m \<noteq> n"
  using alloc_Some [of s n s'] by auto

lemma alloc_first: "alloc s = Some (n, s') \<Longrightarrow> n = (LEAST m. m \<notin> taken s)"
  using alloc_Some [of s n s'] by (intro Least_equality [symmetric]) (auto simp: not_less [symmetric])

end

section \<open>Interface: a stage of set-up\<close>

text \<open>
  A stage takes a set of resources. If it succeeds it holds them all, if it fails it holds none,
  and its tear-down gives them back. \<open>None\<close> is a stage that never returns.
\<close>

locale resource_stage =
  fixes set_up :: "'e \<Rightarrow> 's \<Rightarrow> ('a res \<times> 's) option"
    and tear_down :: "'e \<Rightarrow> 's \<Rightarrow> 's"
    and held :: "'s \<Rightarrow> ledger"
    and needs :: ledger
  assumes set_up_ok: "set_up e s = Some (Inr a, s') \<Longrightarrow> held s \<inter> needs = {} \<Longrightarrow>
      held s' = held s \<union> needs"
    and set_up_fail: "set_up e s = Some (Inl err, s') \<Longrightarrow> held s \<inter> needs = {} \<Longrightarrow> held s' = held s"
    and tear_down_held: "held (tear_down e s) = held s - needs"
begin

lemma set_up_tear_down:
  assumes "set_up e s = Some (Inr a, s')" and "held s \<inter> needs = {}"
  shows "held (tear_down e' s') = held s"
  using set_up_ok [OF assms] assms(2) by (auto simp: tear_down_held)

lemma set_up_balanced:
  assumes "set_up e s = Some (r, s')" and "held s \<inter> needs = {}"
  shows "held s' = (case r of Inl _ \<Rightarrow> held s | Inr _ \<Rightarrow> held s \<union> needs)"
  using assms set_up_ok set_up_fail by (cases r) auto

end

section \<open>Lemmas\<close>

text \<open>No two registers share an address, and all lie in the window the driver maps.\<close>

lemma bar2_offset_inj: "bar2_offset r = bar2_offset r' \<Longrightarrow> r = r'"
proof (cases r; cases r')
  fix a b
  assume "r = Cdma a" "r' = Cdma b" "bar2_offset r = bar2_offset r'"
  then show "r = r'" by (cases a; cases b) simp_all
next
  fix a b
  assume "r = Cdma a" "r' = Intc b" "bar2_offset r = bar2_offset r'"
  then show "r = r'" by (cases a; cases b) simp_all
next
  fix a b
  assume "r = Intc a" "r' = Cdma b" "bar2_offset r = bar2_offset r'"
  then show "r = r'" by (cases a; cases b) simp_all
next
  fix a b
  assume "r = Intc a" "r' = Intc b" "bar2_offset r = bar2_offset r'"
  then show "r = r'" by (cases a; cases b) simp_all
qed

lemma bar2_offset_bound: "bar2_offset r + 4 \<le> 0x2000"
  by (cases r; rename_tac x; case_tac x) simp_all

end
