(* ===== verification/Dma_Control.thy ===== *)
theory Dma_Control
  imports Platform
begin

text \<open>
  \<^verbatim>\<open>dma_control.c\<close>: the driver of the Xilinx CDMA engine. The theory models the reset with its
  polling loop, the status checks, programming the engine, a whole transfer, the interrupt
  half, and set-up and shut-down with their kernel resources. A transfer is observed through
  the requests that reach the engine: the register contents at the moment \<^verbatim>\<open>btt\<close> is written.
\<close>

section \<open>Data\<close>

definition CDMACR_Err_IrqEn :: u32 where "CDMACR_Err_IrqEn = push_bit 14 1"
definition CDMACR_IrqEn :: u32 where "CDMACR_IrqEn = push_bit 12 1"
definition CDMACR_Reset :: u32 where "CDMACR_Reset = push_bit 2 1"
definition CDMASR_DMADecErr :: u32 where "CDMASR_DMADecErr = push_bit 6 1"
definition CDMASR_DMASlvErr :: u32 where "CDMASR_DMASlvErr = push_bit 5 1"
definition CDMASR_DMAIntErr :: u32 where "CDMASR_DMAIntErr = push_bit 4 1"
definition CDMASR_Idle :: u32 where "CDMASR_Idle = push_bit 1 1"

text \<open>The default of the module parameter \<^verbatim>\<open>dma_block_shift\<close>.\<close>

definition DMA_BLOCK_SHIFT :: int where "DMA_BLOCK_SHIFT = 20"

definition MAX_DMA_TRANSFER :: u64 where "MAX_DMA_TRANSFER = push_bit 23 1 - 1"

abbreviation (input) "PAGE_SHIFT \<equiv> (12 :: int)"

text \<open>
  \<^verbatim>\<open>struct dma_control\<close>. The mutex is held or free, and \<open>dc_done\<close> counts the completions that
  have been signalled and not consumed.
\<close>

record dma_control =
  dc_buffer_shift :: int
  dc_buffer_size :: u64
  dc_buffer :: "u8 list"
  dc_buffer_dma :: u64
  dc_mutex :: bool
  dc_done :: nat
  dc_alignment :: u64
  dc_max_transfer :: u64

text \<open>
  What the kernel answers while the controller is set up: the module parameter
  \<^verbatim>\<open>dma_block_shift\<close>, the outcomes of \<^verbatim>\<open>dma_set_mask\<close>, \<^verbatim>\<open>kmalloc\<close>, \<^verbatim>\<open>__get_free_pages\<close> (with
  the memory) and \<^verbatim>\<open>dma_map_single\<close> (with the bus address), and the value of a shift wider
  than its type, which C leaves undefined.
\<close>

record dma_kernel =
  k_block_shift :: int
  k_set_mask :: "u64 \<Rightarrow> unit res"
  k_kmalloc :: "unit kptr"
  k_get_free_pages :: "u8 list kptr"
  k_map_single :: "u64 option"
  k_undef_shl :: "int \<Rightarrow> u64"

section \<open>Reset and status\<close>

partial_function (option) reset_poll :: "platform \<Rightarrow> u64 \<Rightarrow> bus \<Rightarrow> (u32 \<times> bus) option" where
  "reset_poll pf deadline tr =
     (let reset_stat = fst (readl pf (Cdma CDMACR) tr);
          tr' = snd (readl pf (Cdma CDMACR) tr)
      in if reset_stat AND CDMACR_Reset \<noteq> 0 \<and> time_before (jiffies pf tr') deadline
         then reset_poll pf deadline tr'
         else Some (reset_stat, tr'))"

definition reset_dma_controller :: "platform \<Rightarrow> bus \<Rightarrow> (unit res \<times> bus) option" where
  "reset_dma_controller pf tr =
     (let tr = writel CDMACR_Reset (Cdma CDMACR) tr;
          deadline = jiffies pf tr + one_ms pf
      in do {
           (reset_stat, tr) \<leftarrow> reset_poll pf deadline tr;
           if reset_stat AND CDMACR_Reset \<noteq> 0 then Some (Inl EIO, tr)
           else Some (Inr (), writel (CDMACR_IrqEn OR CDMACR_Err_IrqEn) (Cdma CDMACR) tr)
         })"

definition dma_error_bits :: u32 where
  "dma_error_bits = CDMASR_DMADecErr OR CDMASR_DMASlvErr OR CDMASR_DMAIntErr"

definition check_dma_status :: "platform \<Rightarrow> bus \<Rightarrow> unit res \<times> bus" where
  "check_dma_status pf tr =
     (let (status, tr) = readl pf (Cdma CDMASR) tr
      in if status AND dma_error_bits \<noteq> 0 then (Inl EIO, tr) else (Inr (), tr))"

definition maybe_reset_dma :: "platform \<Rightarrow> bus \<Rightarrow> (unit res \<times> bus) option" where
  "maybe_reset_dma pf tr =
     (let (status, tr) = readl pf (Cdma CDMASR) tr;
          error = (status AND dma_error_bits \<noteq> 0);
          idle = (status AND CDMASR_Idle \<noteq> 0)
      in if error \<or> \<not> idle then reset_dma_controller pf tr else Some (Inr (), tr))"

definition dma_interrupt :: "platform \<Rightarrow> dma_control \<Rightarrow> bus \<Rightarrow> dma_control \<times> bus" where
  "dma_interrupt pf dma tr =
     (let (cdmasr, tr) = readl pf (Cdma CDMASR) tr;
          tr = writel cdmasr (Cdma CDMASR) tr
      in (dma\<lparr>dc_done := dc_done dma + 1\<rparr>, tr))"

section \<open>Transfers\<close>

definition dma_get_alignment :: "dma_control \<Rightarrow> u64" where
  "dma_get_alignment dma = dc_alignment dma"

definition configure_dma_engine ::
    "platform \<Rightarrow> dma_control \<Rightarrow> u64 \<Rightarrow> u64 \<Rightarrow> u64 \<Rightarrow> bus \<Rightarrow> (unit res \<times> bus) option" where
  "configure_dma_engine pf dma src dst count tr =
     (let alignment = dma_get_alignment dma
      in if \<not> (IS_ALIGNED src alignment \<and> IS_ALIGNED dst alignment \<and> IS_ALIGNED count alignment)
         then Some (Inl EINVAL, tr)
         else do {
           (rc, tr) \<leftarrow> maybe_reset_dma pf tr;
           (case rc of
              Inl e \<Rightarrow> Some (Inl e, tr)
            | Inr _ \<Rightarrow>
                let tr = writel (ucast (drop_bit 32 src)) (Cdma SA_MSB) tr;
                    tr = writel (ucast src) (Cdma SA) tr;
                    tr = writel (ucast dst) (Cdma DA) tr;
                    tr = writel (ucast (drop_bit 32 dst)) (Cdma DA_MSB) tr;
                    tr = writel (ucast count) (Cdma BTT) tr
                in Some (Inr (), tr))
         })"

text \<open>
  \<^verbatim>\<open>dma_operation_unlocked\<close>: the byte count moved or an error, the controller afterwards and
  the trace. \<open>None\<close> is a transfer that does not return: its wait, or the clock of a reset, does not
  end. From the moment the engine is programmed the buffer belongs to the device, so
  every later exit leaves in it what \<open>buf_after\<close> says.
\<close>

definition dma_operation_unlocked ::
    "platform \<Rightarrow> dma_control \<Rightarrow> u64 \<Rightarrow> u64 \<Rightarrow> dma_dir \<Rightarrow> bus \<Rightarrow> (u64 res \<times> dma_control \<times> bus) option"
where
  "dma_operation_unlocked pf dma start count dir tr =
     (let count = (if count > dc_max_transfer dma then dc_max_transfer dma else count);
          tr = tr @ [SyncForDevice dir (dc_buffer dma)];
          dma = dma\<lparr>dc_done := 0\<rparr>
      in do {
           (rc, tr) \<leftarrow>
             (if dir = DMA_TO_DEVICE then configure_dma_engine pf dma (dc_buffer_dma dma) start count tr
              else if dir = DMA_FROM_DEVICE then
                configure_dma_engine pf dma start (dc_buffer_dma dma) count tr
              else Some (Inl EINVAL, tr));
           (case rc of
              Inl e \<Rightarrow> Some (Inl e, dma, tr)
            | Inr _ \<Rightarrow>
                do {
                  (traffic, rc) \<leftarrow> wait_done pf tr;
                  let tr = tr @ traffic;
                  (case rc of
                     Inl e \<Rightarrow> Some (Inl e, dma\<lparr>dc_buffer := buf_after pf tr (dc_buffer dma)\<rparr>, tr)
                   | Inr _ \<Rightarrow>
                       let tr = tr @ [SyncForCpu dir];
                           dma = dma\<lparr>dc_buffer := buf_after pf tr (dc_buffer dma)\<rparr>
                       in (case check_dma_status pf tr of
                             (Inl e, tr) \<Rightarrow> Some (Inl e, dma, tr)
                           | (Inr _, tr) \<Rightarrow> Some (Inr count, dma, tr)))
                })
         })"

definition dma_memory_lock :: "dma_control \<Rightarrow> dma_control" where
  "dma_memory_lock dma = dma\<lparr>dc_mutex := True\<rparr>"

definition dma_memory_unlock :: "dma_control \<Rightarrow> dma_control" where
  "dma_memory_unlock dma = dma\<lparr>dc_mutex := False\<rparr>"

definition dma_get_buffer :: "dma_control \<Rightarrow> u8 list" where
  "dma_get_buffer dma = dc_buffer dma"

definition dma_buffer_size :: "dma_control \<Rightarrow> u64" where
  "dma_buffer_size dma = dc_buffer_size dma"

section \<open>Set-up and shut-down\<close>

text \<open>\<^verbatim>\<open>1ull << n\<close> and \<^verbatim>\<open>1 << n\<close> at the types the code has, and \<^verbatim>\<open>DMA_BIT_MASK\<close>.\<close>

definition shl_ull :: "dma_kernel \<Rightarrow> int \<Rightarrow> u64" where
  "shl_ull k n = (if 0 \<le> n \<and> n < 64 then push_bit (nat n) 1 else k_undef_shl k n)"

definition shl_int :: "dma_kernel \<Rightarrow> int \<Rightarrow> u64" where
  "shl_int k n = (if 0 \<le> n \<and> n < 31 then push_bit (nat n) 1 else k_undef_shl k n)"

definition DMA_BIT_MASK :: "dma_kernel \<Rightarrow> int \<Rightarrow> u64" where
  "DMA_BIT_MASK k n = (if n = 64 then - 1 else shl_ull k n - 1)"

definition dma_fields :: "dma_kernel \<Rightarrow> u8 \<Rightarrow> u8 list \<Rightarrow> u64 \<Rightarrow> dma_control" where
  "dma_fields k dma_alignment_shift mem addr =
     (let buffer_size = shl_int k (k_block_shift k);
          alignment = shl_ull k (uint dma_alignment_shift)
      in \<lparr>dc_buffer_shift = k_block_shift k, dc_buffer_size = buffer_size, dc_buffer = mem,
          dc_buffer_dma = addr, dc_mutex = False, dc_done = 0, dc_alignment = alignment,
          dc_max_transfer = ALIGN_DOWN (min MAX_DMA_TRANSFER buffer_size) alignment\<rparr>)"

fun initialise_dma_control ::
    "platform \<Rightarrow> dma_kernel \<Rightarrow> u8 \<Rightarrow> u8 \<Rightarrow> bus \<times> ledger \<Rightarrow> (dma_control res \<times> bus \<times> ledger) option"
where
  "initialise_dma_control pf k dma_mask dma_alignment_shift (tr, held) =
     (if k_block_shift k < PAGE_SHIFT then Some (Inl EINVAL, tr, held)
      else case k_set_mask k (DMA_BIT_MASK k (uint dma_mask)) of
        Inl e \<Rightarrow> Some (Inl e, tr, held)
      | Inr _ \<Rightarrow>
      (case test_ptr (k_kmalloc k) of
        Inl e \<Rightarrow> Some (Inl e, tr, held)
      | Inr _ \<Rightarrow>
      let held = insert Res_Dma_Control held in
      (case test_ptr (k_get_free_pages k) of
        Inl e \<Rightarrow> Some (Inl e, tr, held - {Res_Dma_Control})
      | Inr mem \<Rightarrow>
      let held = insert Res_Dma_Pages held; tr = tr @ [MapSingle DMA_BIDIRECTIONAL] in
      (case k_map_single k of
        None \<Rightarrow> Some (Inl EIO, tr, held - {Res_Dma_Pages} - {Res_Dma_Control})
      | Some addr \<Rightarrow>
      let held = insert Res_Dma_Mapping held in
      do {
        (rc, tr) \<leftarrow> reset_dma_controller pf tr;
        (case rc of
           Inl e \<Rightarrow> Some (Inl e, tr @ [UnmapSingle DMA_BIDIRECTIONAL],
                      held - {Res_Dma_Mapping} - {Res_Dma_Pages} - {Res_Dma_Control})
         | Inr _ \<Rightarrow> Some (Inr (dma_fields k dma_alignment_shift mem addr), tr, held))
      }))))"

fun terminate_dma_control :: "bus \<times> ledger \<Rightarrow> bus \<times> ledger" where
  "terminate_dma_control (tr, held) =
     (tr @ [UnmapSingle DMA_FROM_DEVICE],
      held - {Res_Dma_Mapping} - {Res_Dma_Pages} - {Res_Dma_Control})"

section \<open>Requests to the engine\<close>

text \<open>
  The transfers a trace starts: source, destination and byte count in the registers each time
  \<^verbatim>\<open>btt\<close> is written, which is what triggers the engine.
\<close>

definition join64 :: "u32 \<Rightarrow> u32 \<Rightarrow> u64" where
  "join64 msb lsb = push_bit 32 (ucast msb) OR ucast lsb"

fun requests_from :: "(cdma_reg \<Rightarrow> u32) \<Rightarrow> bus \<Rightarrow> (u64 \<times> u64 \<times> u32) list" where
  "requests_from regs [] = []"
| "requests_from regs (Writel (Cdma r) v # tr) =
     (if r = BTT then [(join64 (regs SA_MSB) (regs SA), join64 (regs DA_MSB) (regs DA), v)] else []) @
     requests_from (regs(r := v)) tr"
| "requests_from regs (_ # tr) = requests_from regs tr"

fun regs_after :: "(cdma_reg \<Rightarrow> u32) \<Rightarrow> bus \<Rightarrow> cdma_reg \<Rightarrow> u32" where
  "regs_after regs [] = regs"
| "regs_after regs (Writel (Cdma r) v # tr) = regs_after (regs(r := v)) tr"
| "regs_after regs (_ # tr) = regs_after regs tr"

definition dma_requests :: "bus \<Rightarrow> (u64 \<times> u64 \<times> u32) list" where
  "dma_requests tr = requests_from (\<lambda>_. 0) tr"

text \<open>
  The same with the bytes that the buffer held when it was last handed over to the device: what
  the engine finds there.
\<close>

fun sent_from :: "(cdma_reg \<Rightarrow> u32) \<Rightarrow> u8 list \<Rightarrow> bus \<Rightarrow> ((u64 \<times> u64 \<times> u32) \<times> u8 list) list" where
  "sent_from regs buffer [] = []"
| "sent_from regs buffer (Writel (Cdma r) v # tr) =
     (if r = BTT then [((join64 (regs SA_MSB) (regs SA), join64 (regs DA_MSB) (regs DA), v), buffer)] else []) @
     sent_from (regs(r := v)) buffer tr"
| "sent_from regs buffer (SyncForDevice dir handed # tr) = sent_from regs handed tr"
| "sent_from regs buffer (_ # tr) = sent_from regs buffer tr"

fun handed_over :: "u8 list \<Rightarrow> bus \<Rightarrow> u8 list" where
  "handed_over buffer [] = buffer"
| "handed_over buffer (SyncForDevice dir handed # tr) = handed_over handed tr"
| "handed_over buffer (_ # tr) = handed_over buffer tr"

definition dma_sent :: "bus \<Rightarrow> ((u64 \<times> u64 \<times> u32) \<times> u8 list) list" where
  "dma_sent tr = sent_from (\<lambda>_. 0) [] tr"

text \<open>The source and destination of a transfer in the given direction.\<close>

definition dma_ends :: "dma_control \<Rightarrow> u64 \<Rightarrow> dma_dir \<Rightarrow> u64 \<times> u64" where
  "dma_ends dma start dir =
     (if dir = DMA_TO_DEVICE then (dc_buffer_dma dma, start) else (start, dc_buffer_dma dma))"

definition no_btt :: "bus \<Rightarrow> bool" where
  "no_btt tr \<longleftrightarrow> list_all (\<lambda>e. case e of Writel r _ \<Rightarrow> r \<noteq> Cdma BTT | _ \<Rightarrow> True) tr"

text \<open>
  What the driver relies on. The clock passes a deadline of one millisecond after finitely many
  polls; handlers that run during a wait start no transfer; the buffer keeps its length.
\<close>

definition clock_advances :: "platform \<Rightarrow> bool" where
  "clock_advances pf \<longleftrightarrow>
     (\<forall>tr. \<exists>n. \<forall>ext. length ext = Suc n \<longrightarrow>
        \<not> time_before (jiffies pf (tr @ ext)) (jiffies pf tr + one_ms pf))"

definition handlers_quiet :: "platform \<Rightarrow> bool" where
  "handlers_quiet pf \<longleftrightarrow> (\<forall>tr traffic rc. wait_done pf tr = Some (traffic, rc) \<longrightarrow> no_btt traffic)"

text \<open>
  Every wait for the engine ends: the engine completes, or the process is killed. A transfer that
  does not return, on a platform where this fails, waits for a request that it has started.
\<close>

definition waits_end :: "platform \<Rightarrow> bool" where
  "waits_end pf \<longleftrightarrow> (\<forall>tr. wait_done pf tr \<noteq> None)"

definition wait_stuck :: "platform \<Rightarrow> bus \<Rightarrow> bool" where
  "wait_stuck pf tr \<longleftrightarrow>
     (\<exists>ext request. wait_done pf (tr @ ext) = None \<and> dma_requests (tr @ ext) = dma_requests tr @ [request])"

text \<open>
  The engine moves data: when the wait for the last request (into the buffer) has returned and
  the status register shows no error, the buffer starts with the bytes of device memory
  \<open>mem\<close> from the source address on.
\<close>

definition engine_copies :: "platform \<Rightarrow> (u64 \<Rightarrow> u8) \<Rightarrow> u64 \<Rightarrow> bool" where
  "engine_copies pf mem buffer_dma \<longleftrightarrow>
     (\<forall>tr traffic src n b.
        wait_done pf tr = Some (traffic, Inr ()) \<and> dma_requests tr \<noteq> [] \<and>
        last (dma_requests tr) = (src, buffer_dma, n) \<and> unat n \<le> length b \<and>
        hw pf (tr @ traffic @ [SyncForCpu DMA_FROM_DEVICE]) (Cdma CDMASR) AND dma_error_bits = 0 \<longrightarrow>
        take (unat n) (buf_after pf (tr @ traffic @ [SyncForCpu DMA_FROM_DEVICE]) b) =
          map (\<lambda>i. mem (src + of_nat i)) [0..<unat n])"

definition buffer_stable :: "platform \<Rightarrow> bool" where
  "buffer_stable pf \<longleftrightarrow> (\<forall>tr b. length (buf_after pf tr b) = length b)"

text \<open>The invariant of a controller that has been set up.\<close>

definition dma_valid :: "dma_control \<Rightarrow> bool" where
  "dma_valid dma \<longleftrightarrow>
     (\<exists>s < 64. dc_alignment dma = 2 ^ s) \<and>
     IS_ALIGNED (dc_max_transfer dma) (dc_alignment dma) \<and>
     unat (dc_max_transfer dma) \<le> unat (dc_buffer_size dma) \<and>
     unat (dc_max_transfer dma) < 2 ^ 23 \<and>
     length (dc_buffer dma) = unat (dc_buffer_size dma)"

section \<open>Lemmas on traces\<close>

lemma no_btt_simps [simp]:
  "no_btt []" "no_btt (xs @ ys) \<longleftrightarrow> no_btt xs \<and> no_btt ys"
  "no_btt (Readl r v # tr) = no_btt tr" "no_btt (Writel r v # tr) \<longleftrightarrow> r \<noteq> Cdma BTT \<and> no_btt tr"
  "no_btt (SyncForDevice d b # tr) = no_btt tr" "no_btt (SyncForCpu d # tr) = no_btt tr"
  by (simp_all add: no_btt_def)

lemma requests_from_append:
  "requests_from regs (tr @ tr') = requests_from regs tr @ requests_from (regs_after regs tr) tr'"
  by (induction regs tr rule: requests_from.induct) (simp_all del: fun_upd_apply)

lemma requests_from_no_btt: "no_btt tr \<Longrightarrow> requests_from regs tr = []"
  by (induction regs tr rule: requests_from.induct) (auto simp: no_btt_def)

lemma dma_requests_quiet: "no_btt ext \<Longrightarrow> dma_requests (tr @ ext) = dma_requests tr"
  by (simp add: dma_requests_def requests_from_append requests_from_no_btt)

lemma sent_from_append:
  "sent_from regs b (tr @ tr') = sent_from regs b tr @ sent_from (regs_after regs tr) (handed_over b tr) tr'"
  by (induction regs b tr rule: sent_from.induct) (simp_all del: fun_upd_apply)

lemma handed_over_append [simp]: "handed_over b (tr @ tr') = handed_over (handed_over b tr) tr'"
  by (induction b tr rule: handed_over.induct) simp_all

lemma sent_from_no_btt: "no_btt tr \<Longrightarrow> sent_from regs b tr = []"
  by (induction regs b tr rule: sent_from.induct) (auto simp: no_btt_def)

lemma dma_sent_quiet: "no_btt ext \<Longrightarrow> dma_sent (tr @ ext) = dma_sent tr"
  by (simp add: dma_sent_def sent_from_append sent_from_no_btt)

lemma sent_from_requests: "map fst (sent_from regs b tr) = requests_from regs tr"
  by (induction regs b tr rule: sent_from.induct) (simp_all del: fun_upd_apply)

lemma dma_sent_requests: "map fst (dma_sent tr) = dma_requests tr"
  by (simp add: dma_sent_def dma_requests_def sent_from_requests)

lemma join64_split: "join64 (ucast (drop_bit 32 x)) (ucast (x :: u64)) = x"
  unfolding join64_def
  by (rule bit_word_eqI) (auto simp: bit_simps not_less)

text \<open>Writing the four address registers and then \<^verbatim>\<open>btt\<close> starts exactly that transfer.\<close>

lemma dma_requests_program:
  "dma_requests (tr @ [Writel (Cdma SA_MSB) (ucast (drop_bit 32 src)), Writel (Cdma SA) (ucast src),
      Writel (Cdma DA) (ucast dst), Writel (Cdma DA_MSB) (ucast (drop_bit 32 dst)),
      Writel (Cdma BTT) n]) = dma_requests tr @ [(src, dst, n)]"
  "dma_sent (tr @ [Writel (Cdma SA_MSB) (ucast (drop_bit 32 src)), Writel (Cdma SA) (ucast src),
      Writel (Cdma DA) (ucast dst), Writel (Cdma DA_MSB) (ucast (drop_bit 32 dst)),
      Writel (Cdma BTT) n]) = dma_sent tr @ [((src, dst, n), handed_over [] tr)]"
  by (simp_all add: dma_requests_def dma_sent_def requests_from_append sent_from_append join64_split)

section \<open>Lemmas on the reset\<close>

text \<open>If the polling loop returns, it only read the control register, and the last read is its result.\<close>

lemma reset_poll_trace:
  assumes "reset_poll pf d tr = Some (stat, tr')"
  shows "\<exists>ext. tr' = tr @ ext @ [Readl (Cdma CDMACR) stat] \<and>
    list_all (\<lambda>e. \<exists>v. e = Readl (Cdma CDMACR) v) ext \<and>
    (stat AND CDMACR_Reset = 0 \<or> \<not> time_before (jiffies pf tr') d)"
proof -
  define Q where "Q pf d tr r \<longleftrightarrow> (\<exists>ext. snd r = tr @ ext @ [Readl (Cdma CDMACR) (fst r)] \<and>
      list_all (\<lambda>e. \<exists>v. e = Readl (Cdma CDMACR) v) ext \<and>
      (fst r AND CDMACR_Reset = 0 \<or> \<not> time_before (jiffies pf (snd r)) d))"
    for pf :: platform and d tr and r :: "u32 \<times> bus"
  have "Q pf d tr (stat, tr')"
  proof (rule reset_poll.raw_induct [where P = Q, OF _ assms])
    fix poll pf d tr r
    assume IH: "\<And>pf d tr r. poll pf d tr = Some r \<Longrightarrow> Q pf d tr r"
    let ?stat = "fst (readl pf (Cdma CDMACR) tr)" and ?tr = "snd (readl pf (Cdma CDMACR) tr)"
    assume eq: "(let reset_stat = ?stat; tr' = ?tr
      in if reset_stat AND CDMACR_Reset \<noteq> 0 \<and> time_before (jiffies pf tr') d then poll pf d tr'
         else Some (reset_stat, tr')) = Some r"
    have tr: "?tr = tr @ [Readl (Cdma CDMACR) ?stat]" by (simp add: readl_def)
    show "Q pf d tr r"
    proof (cases "?stat AND CDMACR_Reset \<noteq> 0 \<and> time_before (jiffies pf ?tr) d")
      case True
      with eq have "poll pf d ?tr = Some r" by (simp add: Let_def)
      from IH [OF this] tr obtain ext where
        "snd r = tr @ (Readl (Cdma CDMACR) ?stat # ext) @ [Readl (Cdma CDMACR) (fst r)]"
        "list_all (\<lambda>e. \<exists>v. e = Readl (Cdma CDMACR) v) (Readl (Cdma CDMACR) ?stat # ext)"
        "fst r AND CDMACR_Reset = 0 \<or> \<not> time_before (jiffies pf (snd r)) d"
        by (auto simp: Q_def)
      then show ?thesis unfolding Q_def by blast
    next
      case False
      with eq have "r = (?stat, ?tr)" by (auto simp: Let_def)
      with False tr show ?thesis unfolding Q_def by (intro exI [of _ "[]"]) auto
    qed
  qed
  then show ?thesis by (auto simp: Q_def)
qed

text \<open>The loop returns once the clock has passed the deadline.\<close>

lemma reset_poll_returns:
  "\<forall>ext. length ext = Suc n \<longrightarrow> \<not> time_before (jiffies pf (tr @ ext)) d \<Longrightarrow>
     \<exists>r. reset_poll pf d tr = Some r"
proof (induction n arbitrary: tr)
  case 0
  then have "\<not> time_before (jiffies pf (snd (readl pf (Cdma CDMACR) tr))) d"
    by (simp add: readl_def)
  then show ?case by (subst reset_poll.simps) (simp add: Let_def)
next
  case (Suc n)
  let ?tr = "snd (readl pf (Cdma CDMACR) tr)"
  have "\<forall>ext. length ext = Suc n \<longrightarrow> \<not> time_before (jiffies pf (?tr @ ext)) d"
    using Suc.prems by (simp add: readl_def)
  from Suc.IH [OF this] show ?case by (subst reset_poll.simps) (simp add: Let_def)
qed

text \<open>A reset starts no transfer and hands over no buffer.\<close>

definition no_dma :: "bus \<Rightarrow> bool" where
  "no_dma tr \<longleftrightarrow> no_btt tr \<and> (\<forall>b. handed_over b tr = b)"

lemma no_dma_simps [simp]:
  "no_dma []" "no_dma (Readl r v # tr) = no_dma tr" "no_dma (Writel r v # tr) \<longleftrightarrow> r \<noteq> Cdma BTT \<and> no_dma tr"
  "no_dma xs \<Longrightarrow> no_dma ys \<Longrightarrow> no_dma (xs @ ys)"
  by (auto simp: no_dma_def)

lemma list_all_readl_no_dma:
  "list_all (\<lambda>e. \<exists>v. e = Readl (Cdma CDMACR) v) ext \<Longrightarrow> no_dma ext"
  by (induction ext) auto

lemma reset_dma_controller_trace:
  assumes "reset_dma_controller pf tr = Some (rc, tr')"
  shows "\<exists>ext. tr' = tr @ ext \<and> no_dma ext"
  using assms
  by (fastforce simp: reset_dma_controller_def Let_def writel_def
      dest!: reset_poll_trace dest: list_all_readl_no_dma split: bind_splits if_splits)

lemma reset_dma_controller_returns:
  assumes "clock_advances pf"
  shows "\<exists>rc tr'. reset_dma_controller pf tr = Some (rc, tr')"
proof -
  let ?tr = "writel CDMACR_Reset (Cdma CDMACR) tr"
  from assms obtain n where "\<forall>ext. length ext = Suc n \<longrightarrow>
      \<not> time_before (jiffies pf (?tr @ ext)) (jiffies pf ?tr + one_ms pf)"
    unfolding clock_advances_def by blast
  from reset_poll_returns [OF this] show ?thesis
    by (auto simp: reset_dma_controller_def Let_def)
qed

lemma maybe_reset_dma_trace:
  assumes "maybe_reset_dma pf tr = Some (rc, tr')"
  shows "\<exists>ext. tr' = tr @ ext \<and> no_dma ext"
  using assms
  by (fastforce simp: maybe_reset_dma_def readl_def Let_def dest!: reset_dma_controller_trace
      split: if_splits)

lemma maybe_reset_dma_returns:
  "clock_advances pf \<Longrightarrow> \<exists>rc tr'. maybe_reset_dma pf tr = Some (rc, tr')"
  using reset_dma_controller_returns by (auto simp: maybe_reset_dma_def readl_def Let_def)

section \<open>Lemmas on transfers\<close>

lemma configure_dma_engine_ok:
  assumes "configure_dma_engine pf dma src dst count tr = Some (Inr u, tr')"
  shows "IS_ALIGNED src (dc_alignment dma) \<and> IS_ALIGNED dst (dc_alignment dma) \<and>
    IS_ALIGNED count (dc_alignment dma) \<and>
    dma_requests tr' = dma_requests tr @ [(src, dst, ucast count)] \<and>
    dma_sent tr' = dma_sent tr @ [((src, dst, ucast count), handed_over [] tr)]"
proof -
  from assms obtain tr1 where al: "IS_ALIGNED src (dc_alignment dma)" "IS_ALIGNED dst (dc_alignment dma)"
      "IS_ALIGNED count (dc_alignment dma)"
    and reset: "maybe_reset_dma pf tr = Some (Inr (), tr1)"
    and tr': "tr' = tr1 @ [Writel (Cdma SA_MSB) (ucast (drop_bit 32 src)), Writel (Cdma SA) (ucast src),
      Writel (Cdma DA) (ucast dst), Writel (Cdma DA_MSB) (ucast (drop_bit 32 dst)),
      Writel (Cdma BTT) (ucast count)]"
    by (auto simp: configure_dma_engine_def dma_get_alignment_def Let_def writel_def
        split: if_splits bind_splits sum.splits)
  from maybe_reset_dma_trace [OF reset] have
    "dma_requests tr1 = dma_requests tr" "dma_sent tr1 = dma_sent tr" "handed_over [] tr1 = handed_over [] tr"
    by (auto simp: no_dma_def dma_requests_quiet dma_sent_quiet)
  then show ?thesis using al tr' by (simp add: dma_requests_program)
qed

lemma configure_dma_engine_fail:
  assumes "configure_dma_engine pf dma src dst count tr = Some (Inl e, tr')"
  shows "dma_requests tr' = dma_requests tr \<and> dma_sent tr' = dma_sent tr"
  using assms maybe_reset_dma_trace [of pf tr]
  by (auto simp: configure_dma_engine_def Let_def no_dma_def dma_requests_quiet dma_sent_quiet
      split: if_splits bind_splits sum.splits)

lemma configure_dma_engine_trace:
  assumes "configure_dma_engine pf dma src dst count tr = Some (Inr u, tr')"
  shows "\<exists>ext. tr' = tr @ ext"
  using assms maybe_reset_dma_trace [of pf tr]
  by (fastforce simp: configure_dma_engine_def Let_def writel_def split: if_splits bind_splits sum.splits)

lemma configure_dma_engine_unaligned:
  "\<not> (IS_ALIGNED src (dc_alignment dma) \<and> IS_ALIGNED dst (dc_alignment dma) \<and>
      IS_ALIGNED count (dc_alignment dma)) \<Longrightarrow>
     configure_dma_engine pf dma src dst count tr = Some (Inl EINVAL, tr)"
  by (simp add: configure_dma_engine_def dma_get_alignment_def Let_def)

lemma configure_dma_engine_returns:
  "clock_advances pf \<Longrightarrow> \<exists>rc tr'. configure_dma_engine pf dma src dst count tr = Some (rc, tr')"
  using maybe_reset_dma_returns [of pf tr]
  by (force simp: configure_dma_engine_def Let_def split: sum.split)

text \<open>The engine is programmed the same way whatever has been signalled before.\<close>

lemma configure_dma_engine_done [simp]:
  "configure_dma_engine pf (dma\<lparr>dc_done := n\<rparr>) = configure_dma_engine pf dma"
  by (simp add: fun_eq_iff configure_dma_engine_def dma_get_alignment_def)

text \<open>
  One equation for both directions: programming the engine, the wait, the status check.
\<close>

lemma dma_operation_step:
  assumes "dir \<in> {DMA_TO_DEVICE, DMA_FROM_DEVICE}"
  shows "dma_operation_unlocked pf dma start count dir tr =
      do { (rc, tr) \<leftarrow> configure_dma_engine pf dma (fst (dma_ends dma start dir))
             (snd (dma_ends dma start dir)) (min count (dc_max_transfer dma)) (tr @ [SyncForDevice dir (dc_buffer dma)]);
           (case rc of Inl e \<Rightarrow> Some (Inl e, dma\<lparr>dc_done := 0\<rparr>, tr)
            | Inr _ \<Rightarrow>
                do { (traffic, rc) \<leftarrow> wait_done pf tr;
                     let tr = tr @ traffic;
                     (case rc of
                        Inl e \<Rightarrow> Some (Inl e, dma\<lparr>dc_done := 0, dc_buffer := buf_after pf tr (dc_buffer dma)\<rparr>, tr)
                      | Inr _ \<Rightarrow>
                          let tr = tr @ [SyncForCpu dir];
                              dma' = dma\<lparr>dc_done := 0, dc_buffer := buf_after pf tr (dc_buffer dma)\<rparr>
                          in (case check_dma_status pf tr of
                                (Inl e, tr) \<Rightarrow> Some (Inl e, dma', tr)
                              | (Inr _, tr) \<Rightarrow> Some (Inr (min count (dc_max_transfer dma)), dma', tr))) }) }"
proof -
  have min: "(if count > dc_max_transfer dma then dc_max_transfer dma else count) =
      min count (dc_max_transfer dma)" by (auto simp: min_def)
  show ?thesis
    using assms unfolding dma_operation_unlocked_def Let_def min dma_ends_def
    by (auto simp: split_beta intro!: Option.bind_cong split: sum.split)
qed

lemma dma_operation_ok:
  assumes "dma_operation_unlocked pf dma start count dir tr = Some (Inr n, dma', tr')"
    and "handlers_quiet pf"
  shows "n = min count (dc_max_transfer dma) \<and> dir \<in> {DMA_TO_DEVICE, DMA_FROM_DEVICE} \<and>
    IS_ALIGNED start (dc_alignment dma) \<and> IS_ALIGNED n (dc_alignment dma) \<and>
    (let request = (fst (dma_ends dma start dir), snd (dma_ends dma start dir), ucast n)
     in dma_requests tr' = dma_requests tr @ [request] \<and>
       dma_sent tr' = dma_sent tr @ [(request, dc_buffer dma)] \<and>
       (\<exists>tr0 traffic. wait_done pf tr0 = Some (traffic, Inr ()) \<and>
          dma_requests tr0 = dma_requests tr @ [request] \<and>
          hw pf (tr0 @ traffic @ [SyncForCpu dir]) (Cdma CDMASR) AND dma_error_bits = 0 \<and>
          dma' = dma\<lparr>dc_done := 0,
            dc_buffer := buf_after pf (tr0 @ traffic @ [SyncForCpu dir]) (dc_buffer dma)\<rparr>))"
proof -
  have dir: "dir \<in> {DMA_TO_DEVICE, DMA_FROM_DEVICE}"
    using assms(1) by (auto simp: dma_operation_unlocked_def Let_def split: if_splits)
  from assms(1) [unfolded dma_operation_step [OF dir]] obtain tr0 traffic where
    cfg: "configure_dma_engine pf dma (fst (dma_ends dma start dir)) (snd (dma_ends dma start dir))
        (min count (dc_max_transfer dma)) (tr @ [SyncForDevice dir (dc_buffer dma)]) = Some (Inr (), tr0)"
    and wait: "wait_done pf tr0 = Some (traffic, Inr ())"
    and st: "check_dma_status pf (tr0 @ traffic @ [SyncForCpu dir]) = (Inr (), tr')"
    and n: "n = min count (dc_max_transfer dma)"
    and dma': "dma' = dma\<lparr>dc_done := 0, dc_buffer := buf_after pf (tr0 @ traffic @ [SyncForCpu dir]) (dc_buffer dma)\<rparr>"
    by (auto simp: Let_def split: bind_splits sum.splits prod.splits)
  note ok = configure_dma_engine_ok [OF cfg]
  from st have status: "hw pf (tr0 @ traffic @ [SyncForCpu dir]) (Cdma CDMASR) AND dma_error_bits = 0"
    and tr': "\<exists>v. tr' = tr0 @ traffic @ [SyncForCpu dir, Readl (Cdma CDMASR) v]"
    by (auto simp: check_dma_status_def readl_def split: if_splits)
  have "no_btt traffic" using wait assms(2) by (auto simp: handlers_quiet_def)
  then have "dma_requests tr' = dma_requests tr0" "dma_sent tr' = dma_sent tr0"
    using tr' by (auto simp: dma_requests_quiet dma_sent_quiet)
  moreover have "IS_ALIGNED start (dc_alignment dma)"
    using ok dir by (auto simp: dma_ends_def)
  ultimately show ?thesis using n dir ok wait status dma' by (auto simp: dma_requests_quiet dma_sent_quiet)
qed

lemma dma_operation_buffer_aligned:
  assumes "dma_operation_unlocked pf dma start count dir tr = Some (Inr n, dma', tr')"
  shows "IS_ALIGNED (dc_buffer_dma dma) (dc_alignment dma)"
  using assms
  by (auto simp: dma_operation_unlocked_def Let_def split: if_splits bind_splits sum.splits prod.splits
      dest!: configure_dma_engine_ok)

lemma dma_operation_rejects:
  assumes "dir \<notin> {DMA_TO_DEVICE, DMA_FROM_DEVICE} \<or>
      \<not> list_all (\<lambda>x. IS_ALIGNED x (dc_alignment dma)) [start, dc_buffer_dma dma, min count (dc_max_transfer dma)]"
  shows "\<exists>dma' tr'. dma_operation_unlocked pf dma start count dir tr = Some (Inl EINVAL, dma', tr') \<and>
    dma_requests tr' = dma_requests tr"
proof (cases "dir \<in> {DMA_TO_DEVICE, DMA_FROM_DEVICE}")
  case True
  with assms have "configure_dma_engine pf dma (fst (dma_ends dma start dir)) (snd (dma_ends dma start dir))
      (min count (dc_max_transfer dma)) (tr @ [SyncForDevice dir (dc_buffer dma)]) =
      Some (Inl EINVAL, tr @ [SyncForDevice dir (dc_buffer dma)])"
    by (intro configure_dma_engine_unaligned) (auto simp: dma_ends_def)
  then show ?thesis unfolding dma_operation_step [OF True] by (simp add: dma_requests_quiet)
next
  case False
  then show ?thesis by (auto simp: dma_operation_unlocked_def Let_def dma_requests_quiet)
qed

text \<open>A failed transfer started at most one request, of the size of a whole one.\<close>

lemma dma_operation_fail:
  assumes "dma_operation_unlocked pf dma start count dir tr = Some (Inl e, dma', tr')"
    and "handlers_quiet pf"
  shows "dma_requests tr' = dma_requests tr \<or>
    dma_requests tr' = dma_requests tr @ [(fst (dma_ends dma start dir), snd (dma_ends dma start dir),
      ucast (min count (dc_max_transfer dma)))]"
proof (cases "dir \<in> {DMA_TO_DEVICE, DMA_FROM_DEVICE}")
  case True
  have quiet: "no_btt traffic" if "wait_done pf t = Some (traffic, r)" for t traffic r
    using that assms(2) by (auto simp: handlers_quiet_def)
  from assms(1) [unfolded dma_operation_step [OF True]] show ?thesis
    by (auto simp: Let_def check_dma_status_def readl_def dma_requests_quiet
        split: bind_splits sum.splits prod.splits if_splits
        dest!: configure_dma_engine_ok configure_dma_engine_fail dest: quiet)
next
  case False
  with assms(1) show ?thesis
    by (auto simp: dma_operation_unlocked_def Let_def dma_requests_quiet)
qed

text \<open>Whatever a transfer sends, the engine finds in the buffer what the driver had put there.\<close>

lemma dma_operation_sent:
  assumes "dma_operation_unlocked pf dma start count dir tr = Some (r, dma', tr')"
    and "handlers_quiet pf"
  shows "dma_sent tr' = dma_sent tr \<or>
    dma_sent tr' = dma_sent tr @ [((fst (dma_ends dma start dir), snd (dma_ends dma start dir),
      ucast (min count (dc_max_transfer dma))), dc_buffer dma)]"
proof (cases r)
  case (Inr n)
  from dma_operation_ok [OF assms(1) [unfolded Inr] assms(2)] show ?thesis by (auto simp: Let_def)
next
  case (Inl e)
  show ?thesis
  proof (cases "dir \<in> {DMA_TO_DEVICE, DMA_FROM_DEVICE}")
    case True
    have quiet: "no_btt traffic" if "wait_done pf t = Some (traffic, r)" for t traffic r
      using that assms(2) by (auto simp: handlers_quiet_def)
    from assms(1) [unfolded dma_operation_step [OF True] Inl] show ?thesis
      by (auto simp: Let_def check_dma_status_def readl_def dma_sent_quiet
          split: bind_splits sum.splits prod.splits if_splits
          dest!: configure_dma_engine_ok configure_dma_engine_fail dest: quiet)
  next
    case False
    with assms(1) show ?thesis by (auto simp: dma_operation_unlocked_def Let_def dma_sent_quiet)
  qed
qed

lemma dma_operation_frame:
  assumes "dma_operation_unlocked pf dma start count dir tr = Some (r, dma', tr')"
  shows "\<exists>b. dma' = dma\<lparr>dc_done := 0, dc_buffer := b\<rparr> \<and>
    (buffer_stable pf \<longrightarrow> length b = length (dc_buffer dma))"
proof (cases "dir \<in> {DMA_TO_DEVICE, DMA_FROM_DEVICE}")
  case True
  have same: "\<exists>b. dma\<lparr>dc_done := 0\<rparr> = dma\<lparr>dc_done := 0, dc_buffer := b\<rparr> \<and>
      (buffer_stable pf \<longrightarrow> length b = length (dc_buffer dma))"
    by (rule exI [of _ "dc_buffer dma"]) simp
  from assms [unfolded dma_operation_step [OF True]] same show ?thesis
    by (auto simp: Let_def buffer_stable_def
        split: bind_splits sum.splits prod.splits if_splits)
next
  case False
  with assms show ?thesis
    by (intro exI [of _ "dc_buffer dma"]) (auto simp: dma_operation_unlocked_def Let_def)
qed

text \<open>A transfer that does not return has started its request and waits for it.\<close>

lemma dma_operation_stuck:
  assumes "clock_advances pf" and "dma_operation_unlocked pf dma start count dir tr = None"
  shows "wait_stuck pf tr"
proof -
  have dir: "dir \<in> {DMA_TO_DEVICE, DMA_FROM_DEVICE}"
    using assms(2) by (auto simp: dma_operation_unlocked_def Let_def split: if_splits)
  obtain rc tr0 where cfg: "configure_dma_engine pf dma (fst (dma_ends dma start dir)) (snd (dma_ends dma start dir))
      (min count (dc_max_transfer dma)) (tr @ [SyncForDevice dir (dc_buffer dma)]) = Some (rc, tr0)"
    using configure_dma_engine_returns [OF assms(1)] by blast
  with assms(2) [unfolded dma_operation_step [OF dir]] obtain u where "rc = Inr u" "wait_done pf tr0 = None"
    by (auto simp: Let_def split: bind_splits sum.splits prod.splits)
  moreover from this cfg obtain ext where "tr0 = tr @ SyncForDevice dir (dc_buffer dma) # ext"
    using configure_dma_engine_trace [of pf dma _ _ _ _ u tr0] by fastforce
  ultimately show ?thesis
    using configure_dma_engine_ok [of pf dma _ _ _ _ u tr0] cfg
    unfolding wait_stuck_def by (fastforce simp: dma_requests_quiet)
qed

lemma waits_end_not_stuck: "waits_end pf \<Longrightarrow> \<not> wait_stuck pf tr"
  by (simp add: waits_end_def wait_stuck_def)

lemma dma_operation_valid:
  assumes "dma_valid dma" and "buffer_stable pf"
    and "dma_operation_unlocked pf dma start count dir tr = Some (r, dma', tr')"
  shows "dma_valid dma'"
  using dma_operation_frame [OF assms(3)] assms(1,2) by (auto simp: dma_valid_def)

section \<open>Lemmas on set-up\<close>

lemma unat_MAX_DMA_TRANSFER: "unat MAX_DMA_TRANSFER = 2 ^ 23 - 1"
  by (simp add: MAX_DMA_TRANSFER_def push_bit_eq_mult)

lemma shl_ull_pow2: "n < 64 \<Longrightarrow> shl_ull k (int n) = 2 ^ n"
  by (simp add: shl_ull_def push_bit_eq_mult)

lemma shl_int_pow2: "n < 31 \<Longrightarrow> shl_int k (int n) = 2 ^ n"
  by (simp add: shl_int_def push_bit_eq_mult)

lemma dma_fields_valid:
  assumes "unat shift < 64" and "k_block_shift k = int b" and "b < 31" and "length mem = 2 ^ b"
  shows "dma_valid (dma_fields k shift mem addr)"
proof -
  let ?m = "min MAX_DMA_TRANSFER (2 ^ b :: u64)"
  have size: "unat (2 ^ b :: u64) = 2 ^ b" using assms(3) by (simp add: unat_pow2)
  have "unat ?m \<le> 2 ^ b" "unat ?m < 2 ^ 23"
    using size by (auto simp: min_def word_le_nat_alt unat_MAX_DMA_TRANSFER)
  then have "unat ?m div 2 ^ unat shift * 2 ^ unat shift \<le> 2 ^ b"
    "unat ?m div 2 ^ unat shift * 2 ^ unat shift < 2 ^ 23"
    using div_times_less_eq_dividend [of "unat ?m" "2 ^ unat shift"] by (linarith, linarith)
  moreover have "shl_ull k (uint shift) = 2 ^ unat shift"
    using shl_ull_pow2 [OF assms(1)] by (simp only: uint_nat)
  ultimately show ?thesis
    using assms size
    by (auto simp: dma_valid_def dma_fields_def Let_def shl_int_pow2 align_simps)
qed

text \<open>With the default block size a transfer can fill the whole buffer of one megabyte.\<close>

lemma default_block_size:
  assumes "k_block_shift k = DMA_BLOCK_SHIFT" and "unat shift \<le> 20"
  shows "PAGE_SHIFT \<le> k_block_shift k \<and> unat (dc_buffer_size (dma_fields k shift mem addr)) = 2 ^ 20 \<and>
    unat (dc_max_transfer (dma_fields k shift mem addr)) = 2 ^ 20"
proof -
  have shift: "shl_ull k (uint shift) = 2 ^ unat shift"
    using shl_ull_pow2 [of "unat shift" k] assms(2) by (simp only: uint_nat)
  have size: "shl_int k 20 = 2 ^ 20" using shl_int_pow2 [of 20 k] by simp
  have "(2 ^ unat shift :: nat) dvd 2 ^ 20" using assms(2) by (rule le_imp_power_dvd)
  then have "2 ^ 20 div 2 ^ unat shift * 2 ^ unat shift = (2 ^ 20 :: nat)" by (rule dvd_div_mult_self)
  moreover have "min MAX_DMA_TRANSFER (2 ^ 20) = (2 ^ 20 :: u64)"
    by (simp add: min_def word_le_nat_alt unat_MAX_DMA_TRANSFER)
  ultimately show ?thesis
    using assms(1) shift size ALIGN_DOWN_unat [of "2 ^ 20 :: u64" "unat shift"]
    by (simp add: dma_fields_def Let_def DMA_BLOCK_SHIFT_def)
qed

lemma initialise_dma_control_ok:
  assumes "initialise_dma_control pf k m shift (tr, held) = Some (Inr dma, tr', held')"
  shows "\<exists>mem addr. k_get_free_pages k = Ptr mem \<and> dma = dma_fields k shift mem addr \<and>
    PAGE_SHIFT \<le> k_block_shift k \<and>
    held' = held \<union> {Res_Dma_Control, Res_Dma_Pages, Res_Dma_Mapping}"
  using assms
  by (auto simp: Let_def split: if_splits sum.splits option.splits bind_splits)

lemma initialise_dma_control_fail:
  assumes "initialise_dma_control pf k m shift (tr, held) = Some (Inl e, tr', held')"
    and "held \<inter> {Res_Dma_Control, Res_Dma_Pages, Res_Dma_Mapping} = {}"
  shows "held' = held"
  using assms
  by (auto simp: Let_def split: if_splits sum.splits option.splits bind_splits)

lemma initialise_dma_control_returns:
  assumes "clock_advances pf"
  shows "\<exists>r. initialise_dma_control pf k m shift (tr, held) = Some r"
  using reset_dma_controller_returns [OF assms, of "tr @ [MapSingle DMA_BIDIRECTIONAL]"]
  by (auto simp: Let_def split: sum.splits option.splits)

text \<open>Set-up and shut-down of the controller are a stage: they take and give back three resources.\<close>

interpretation dma_stage: resource_stage
  "\<lambda>(pf, k, m, shift). initialise_dma_control pf k m shift" "\<lambda>_. terminate_dma_control" snd
  "{Res_Dma_Control, Res_Dma_Pages, Res_Dma_Mapping}"
proof (unfold_locales, goal_cases)
  case (1 e s a s')
  then show ?case
    by (cases e; cases s; cases s')
      (auto dest!: initialise_dma_control_ok simp del: initialise_dma_control.simps)
next
  case (2 e s err s')
  obtain pf k m shift where e: "e = (pf, k, m, shift)" by (cases e)
  obtain tr held where s: "s = (tr, held)" by (cases s)
  obtain tr' held' where s': "s' = (tr', held')" by (cases s')
  from 2 show ?case
    unfolding e s s' by (simp add: initialise_dma_control_fail del: initialise_dma_control.simps)
next
  case (3 e s)
  then show ?case by (cases s) auto
qed

section \<open>A concrete platform\<close>

text \<open>
  A platform on which transfers work: an idle engine without errors, a clock that ticks with
  every bus operation, completions that arrive at once, and a buffer that holds what the last
  request into it copies from the device memory \<open>mem\<close>.
\<close>

definition copying_platform :: "(u64 \<Rightarrow> u8) \<Rightarrow> u64 \<Rightarrow> platform" where
  "copying_platform mem buffer_dma =
     \<lparr>hw = \<lambda>tr r. if r = Cdma CDMASR then CDMASR_Idle else 0,
      jiffies = \<lambda>tr. of_nat (length tr),
      one_ms = 1,
      wait_done = \<lambda>tr. Some ([], Inr ()),
      buf_after = \<lambda>tr b.
        (if dma_requests tr = [] then b
         else case last (dma_requests tr) of (src, dst, n) \<Rightarrow>
           if dst = buffer_dma \<and> unat n \<le> length b
           then map (\<lambda>i. mem (src + of_nat i)) [0..<unat n] @ drop (unat n) b else b)\<rparr>"

definition demo_control :: dma_control where
  "demo_control =
     \<lparr>dc_buffer_shift = 12, dc_buffer_size = 4096, dc_buffer = replicate 4096 0,
      dc_buffer_dma = 0x10000, dc_mutex = False, dc_done = 0, dc_alignment = 8,
      dc_max_transfer = 4096\<rparr>"

lemma copying_platform_facts:
  "clock_advances (copying_platform mem a)" "handlers_quiet (copying_platform mem a)"
  "buffer_stable (copying_platform mem a)" "engine_copies (copying_platform mem a) mem a"
  "waits_end (copying_platform mem a)"
proof -
  show "waits_end (copying_platform mem a)" by (simp add: waits_end_def copying_platform_def)
  show "clock_advances (copying_platform mem a)"
    unfolding clock_advances_def copying_platform_def
    by (intro allI exI [of _ 0]) (simp add: time_before_def)
  show "handlers_quiet (copying_platform mem a)"
    by (simp add: handlers_quiet_def copying_platform_def)
  show "buffer_stable (copying_platform mem a)"
    by (auto simp: buffer_stable_def copying_platform_def split: prod.split)
  show "engine_copies (copying_platform mem a) mem a"
    unfolding engine_copies_def copying_platform_def
    by (auto simp: dma_requests_quiet)
qed

lemma demo_control_valid: "dma_valid demo_control"
proof -
  have "(8 :: u64) = 2 ^ 3" by simp
  moreover have "IS_ALIGNED 4096 8" by (simp add: IS_ALIGNED_def)
  ultimately show ?thesis
    unfolding dma_valid_def demo_control_def by (auto intro!: exI [of _ "3::nat"])
qed

lemma demo_control_simps [simp]:
  "dc_alignment demo_control = 8" "dc_max_transfer demo_control = 4096"
  "dc_buffer_dma demo_control = 0x10000" "dc_buffer_size demo_control = 4096"
  "length (dc_buffer demo_control) = 4096"
  by (simp_all add: demo_control_def)

lemma copying_platform_idle:
  "maybe_reset_dma (copying_platform mem a) tr = Some (Inr (), tr @ [Readl (Cdma CDMASR) CDMASR_Idle])"
  "check_dma_status (copying_platform mem a) tr = (Inr (), tr @ [Readl (Cdma CDMASR) CDMASR_Idle])"
  "wait_done (copying_platform mem a) tr = Some ([], Inr ())"
  by (simp_all add: maybe_reset_dma_def check_dma_status_def readl_def copying_platform_def Let_def
      CDMASR_Idle_def dma_error_bits_def CDMASR_DMADecErr_def CDMASR_DMASlvErr_def CDMASR_DMAIntErr_def)

lemma copying_platform_transfer:
  assumes "dir \<in> {DMA_TO_DEVICE, DMA_FROM_DEVICE}"
    and "IS_ALIGNED start (dc_alignment dma)" "IS_ALIGNED (dc_buffer_dma dma) (dc_alignment dma)"
    "IS_ALIGNED (min count (dc_max_transfer dma)) (dc_alignment dma)"
  shows "\<exists>dma' tr'. dma_operation_unlocked (copying_platform mem a) dma start count dir tr =
    Some (Inr (min count (dc_max_transfer dma)), dma', tr')"
  using assms unfolding dma_operation_step [OF assms(1)]
  by (auto simp: configure_dma_engine_def dma_get_alignment_def Let_def copying_platform_idle dma_ends_def)

section \<open>Properties\<close>

text \<open>
  C24: Exactness and bounds of a transfer. A transfer on a valid controller that reports success
  has started exactly one request: between the buffer and the start address in the right
  direction, with the requested count cut to the largest transfer. Both addresses and the
  count are aligned, the count fits the buffer and the 23 bits of the count register, and it
  is not changed by the narrowing to that register.
\<close>

theorem dma_transfer_exact:
  assumes "dma_valid dma" and "handlers_quiet pf"
    and "dma_operation_unlocked pf dma start count dir tr = Some (Inr n, dma', tr')"
  shows "n = min count (dc_max_transfer dma) \<and> dir \<in> {DMA_TO_DEVICE, DMA_FROM_DEVICE} \<and>
    dma_requests tr' = dma_requests tr @
      [if dir = DMA_TO_DEVICE then (dc_buffer_dma dma, start, ucast n)
       else (start, dc_buffer_dma dma, ucast n)] \<and>
    list_all (\<lambda>x. IS_ALIGNED x (dc_alignment dma)) [start, dc_buffer_dma dma, n] \<and>
    unat n \<le> length (dc_buffer dma) \<and> unat n < 2 ^ 23 \<and> unat (ucast n :: u32) = unat n"
proof -
  note ok = dma_operation_ok [OF assms(3,2)]
  have n: "n = min count (dc_max_transfer dma)" using ok by simp
  have "dma_requests tr' = dma_requests tr @
      [if dir = DMA_TO_DEVICE then (dc_buffer_dma dma, start, ucast n) else (start, dc_buffer_dma dma, ucast n)]"
    using ok by (auto simp: Let_def dma_ends_def)
  moreover have "list_all (\<lambda>x. IS_ALIGNED x (dc_alignment dma)) [start, dc_buffer_dma dma, n]"
    using ok dma_operation_buffer_aligned [OF assms(3)] by (simp only: list.pred_inject) blast
  moreover have "unat n \<le> unat (dc_max_transfer dma)"
    unfolding n by (simp add: min_def word_le_nat_alt)
  then have len: "unat n \<le> length (dc_buffer dma)" and n23: "unat n < 2 ^ 23"
    using assms(1) by (auto simp: dma_valid_def)
  moreover from n23 have "unat (ucast n :: u32) = unat n"
    by (simp add: unsigned_ucast_eq take_bit_eq_mod)
  ultimately show ?thesis using n ok by blast
qed

theorem dma_transfer_exact_witness:
  "\<exists>dma' tr'. dma_operation_unlocked (copying_platform (\<lambda>_. 0) 0x10000) demo_control 0x80 0x2000
      DMA_FROM_DEVICE [] = Some (Inr 4096, dma', tr') \<and>
    dma_requests tr' = [(0x80, 0x10000, 4096)]"
proof -
  have "min 0x2000 (dc_max_transfer demo_control) = 4096" by (simp add: min_def)
  with copying_platform_transfer [of DMA_FROM_DEVICE "0x80" demo_control "0x2000" "\<lambda>_. 0" "0x10000" "[]"]
  obtain dma' tr' where op: "dma_operation_unlocked (copying_platform (\<lambda>_. 0) 0x10000) demo_control 0x80
      0x2000 DMA_FROM_DEVICE [] = Some (Inr 4096, dma', tr')"
    by (auto simp: IS_ALIGNED_def)
  from dma_transfer_exact [OF demo_control_valid copying_platform_facts(2) op] op show ?thesis
    by (auto simp: dma_requests_def)
qed

text \<open>
  C28: The reset ends, and its outcome is that of the last poll. If the clock advances, resetting
  the engine returns: it writes the reset bit, reads the control register at least once and
  nothing else, and fails exactly when the last value read still has the reset bit set, which
  is only accepted after the deadline. On success the interrupt enables are written back last.
\<close>

theorem dma_reset_outcome:
  assumes "clock_advances pf"
  shows "\<exists>polls stat rc.
    reset_dma_controller pf tr =
      Some (rc, tr @ [Writel (Cdma CDMACR) CDMACR_Reset] @ polls @ [Readl (Cdma CDMACR) stat] @
        (if rc = Inr () then [Writel (Cdma CDMACR) (CDMACR_IrqEn OR CDMACR_Err_IrqEn)] else [])) \<and>
    list_all (\<lambda>e. \<exists>v. e = Readl (Cdma CDMACR) v) polls \<and>
    rc = (if stat AND CDMACR_Reset \<noteq> 0 then Inl EIO else Inr ()) \<and>
    (rc = Inl EIO \<longrightarrow>
      \<not> time_before (jiffies pf (tr @ [Writel (Cdma CDMACR) CDMACR_Reset] @ polls @ [Readl (Cdma CDMACR) stat]))
         (jiffies pf (tr @ [Writel (Cdma CDMACR) CDMACR_Reset]) + one_ms pf))"
proof -
  let ?tr = "tr @ [Writel (Cdma CDMACR) CDMACR_Reset]"
  let ?d = "jiffies pf ?tr + one_ms pf"
  from reset_dma_controller_returns [OF assms, of tr] obtain stat tr1 where
    poll: "reset_poll pf ?d ?tr = Some (stat, tr1)"
    by (auto simp: reset_dma_controller_def writel_def Let_def split: bind_splits)
  from reset_poll_trace [OF poll] obtain polls where
    "tr1 = ?tr @ polls @ [Readl (Cdma CDMACR) stat]"
    "list_all (\<lambda>e. \<exists>v. e = Readl (Cdma CDMACR) v) polls"
    "stat AND CDMACR_Reset = 0 \<or> \<not> time_before (jiffies pf tr1) ?d" by blast
  then show ?thesis
    using poll
    by (intro exI [of _ polls] exI [of _ stat] exI [of _ "if stat AND CDMACR_Reset \<noteq> 0 then Inl EIO else Inr ()"])
      (auto simp: reset_dma_controller_def writel_def Let_def)
qed

theorem dma_reset_outcome_witness:
  "\<exists>rc tr'. clock_advances (copying_platform (\<lambda>_. 0) 0) \<and>
     reset_dma_controller (copying_platform (\<lambda>_. 0) 0) [] = Some (rc, tr')"
  using dma_reset_outcome [OF copying_platform_facts(1), of "\<lambda>_. 0" 0 "[]"] copying_platform_facts(1)
  by blast

text \<open>
  C29: Totality and error cases of a transfer. A direction other than to or from the device, or an
  unaligned address or count, gives \<^verbatim>\<open>EINVAL\<close> without a request, on any engine. If the clock
  advances, a transfer that does not return has started its request and waits for an engine that
  never completes it; so if the waits end every transfer returns. One that returns keeps the
  invariant of the controller, of which only the buffer and the completion count change; unless
  it reports the whole count, it has started no request or the one of the whole transfer.
\<close>

theorem dma_transfer_total:
  assumes "dma_valid dma" and "clock_advances pf" and "handlers_quiet pf" and "buffer_stable pf"
  shows "(dma_operation_unlocked pf dma start count dir tr = None \<longrightarrow> wait_stuck pf tr) \<and>
    (waits_end pf \<longrightarrow> dma_operation_unlocked pf dma start count dir tr \<noteq> None) \<and>
    (dir \<notin> {DMA_TO_DEVICE, DMA_FROM_DEVICE} \<or>
     \<not> list_all (\<lambda>x. IS_ALIGNED x (dc_alignment dma))
          [start, dc_buffer_dma dma, min count (dc_max_transfer dma)] \<longrightarrow>
       (\<exists>dma' tr'. dma_operation_unlocked pf dma start count dir tr = Some (Inl EINVAL, dma', tr') \<and>
          dma_requests tr' = dma_requests tr)) \<and>
    (\<forall>r dma' tr'. dma_operation_unlocked pf dma start count dir tr = Some (r, dma', tr') \<longrightarrow>
       dma_valid dma' \<and> (\<exists>b. dma' = dma\<lparr>dc_done := 0, dc_buffer := b\<rparr>) \<and>
       (r \<noteq> Inr (min count (dc_max_transfer dma)) \<longrightarrow>
          dma_requests tr' = dma_requests tr \<or>
          dma_requests tr' = dma_requests tr @ [(fst (dma_ends dma start dir), snd (dma_ends dma start dir),
            ucast (min count (dc_max_transfer dma)))]))"
proof -
  let ?op = "dma_operation_unlocked pf dma start count dir tr"
  have "dma_valid dma' \<and> (\<exists>b. dma' = dma\<lparr>dc_done := 0, dc_buffer := b\<rparr>) \<and>
      (dma_requests tr' = dma_requests tr \<or>
       dma_requests tr' = dma_requests tr @ [(fst (dma_ends dma start dir), snd (dma_ends dma start dir),
         ucast (min count (dc_max_transfer dma)))])" if op: "?op = Some (r, dma', tr')" for r dma' tr'
  proof (cases r)
    case (Inl e)
    with dma_operation_fail op assms(3) dma_operation_valid [OF assms(1,4) op] dma_operation_frame [OF op]
    show ?thesis by blast
  next
    case (Inr n)
    with dma_operation_ok op assms(3) dma_operation_valid [OF assms(1,4) op] dma_operation_frame [OF op]
    show ?thesis by (fastforce simp: Let_def)
  qed
  moreover have "\<exists>dma' tr'. ?op = Some (Inl EINVAL, dma', tr') \<and> dma_requests tr' = dma_requests tr"
    if "dir \<notin> {DMA_TO_DEVICE, DMA_FROM_DEVICE} \<or>
      \<not> list_all (\<lambda>x. IS_ALIGNED x (dc_alignment dma)) [start, dc_buffer_dma dma, min count (dc_max_transfer dma)]"
    by (rule dma_operation_rejects [OF that])
  moreover have "?op = None \<Longrightarrow> wait_stuck pf tr" by (rule dma_operation_stuck [OF assms(2)])
  ultimately show ?thesis using waits_end_not_stuck [of pf tr] by blast
qed

theorem dma_transfer_total_witness:
  "dma_operation_unlocked (copying_platform (\<lambda>_. 0) 0x10000) demo_control 0x80 0x100 DMA_FROM_DEVICE [] \<noteq> None \<and>
   (\<exists>dma' tr'. dma_operation_unlocked (copying_platform (\<lambda>_. 0) 0x10000) demo_control 0x81 0x100
      DMA_FROM_DEVICE [] = Some (Inl EINVAL, dma', tr') \<and> dma_requests tr' = [])"
  using dma_transfer_total [OF demo_control_valid copying_platform_facts(1-3),
      of "\<lambda>_. 0" "0x10000" "0x80" "0x100" DMA_FROM_DEVICE "[]"]
    dma_transfer_total [OF demo_control_valid copying_platform_facts(1-3),
      of "\<lambda>_. 0" "0x10000" "0x81" "0x100" DMA_FROM_DEVICE "[]"]
    copying_platform_facts(5) [of "\<lambda>_. 0" "0x10000"]
  by (auto simp: dma_requests_def IS_ALIGNED_def)

text \<open>
  On an engine that never completes, an aligned transfer does not return: the wait is killable, but
  nothing else ends it.
\<close>

lemma dead_engine_blocks:
  "dma_operation_unlocked (copying_platform mem 0x10000\<lparr>wait_done := \<lambda>_. None\<rparr>) demo_control 0x80 0x100
     DMA_FROM_DEVICE [] = None"
proof -
  let ?pf = "copying_platform mem 0x10000\<lparr>wait_done := \<lambda>_. None\<rparr>"
  have idle: "maybe_reset_dma ?pf tr = Some (Inr (), tr @ [Readl (Cdma CDMASR) CDMASR_Idle])" for tr
    by (simp add: maybe_reset_dma_def readl_def copying_platform_def Let_def
        CDMASR_Idle_def dma_error_bits_def CDMASR_DMADecErr_def CDMASR_DMASlvErr_def CDMASR_DMAIntErr_def)
  show ?thesis
    by (simp add: dma_operation_unlocked_def configure_dma_engine_def dma_get_alignment_def Let_def idle IS_ALIGNED_def)
qed

text \<open>
  C34: Set-up of the controller. If the clock advances, set-up returns. If it succeeds the
  controller satisfies its invariant (for an alignment shift below 64, a block shift below
  31 and as many bytes of memory as asked for) and all three resources are held, and
  shut-down gives them back; if it fails the ledger is as it was.
\<close>

theorem dma_control_set_up:
  assumes "clock_advances pf" and "unat shift < 64" and "k_block_shift k < 31"
    and "case k_get_free_pages k of Ptr mem \<Rightarrow> length mem = 2 ^ nat (k_block_shift k) | _ \<Rightarrow> True"
    and "held \<inter> {Res_Dma_Control, Res_Dma_Pages, Res_Dma_Mapping} = {}"
  shows "\<exists>r tr' held'. initialise_dma_control pf k dma_mask shift (tr, held) = Some (r, tr', held') \<and>
    (case r of
       Inl _ \<Rightarrow> held' = held
     | Inr dma \<Rightarrow> dma_valid dma \<and> held' = held \<union> {Res_Dma_Control, Res_Dma_Pages, Res_Dma_Mapping} \<and>
         snd (terminate_dma_control (tr', held')) = held)"
proof -
  from initialise_dma_control_returns [OF assms(1)] obtain r tr' held' where
    r: "initialise_dma_control pf k dma_mask shift (tr, held) = Some (r, tr', held')" by (metis prod_cases3)
  show ?thesis
  proof (cases r)
    case (Inl e)
    with r initialise_dma_control_fail [OF _ assms(5)] show ?thesis by auto
  next
    case (Inr dma)
    from initialise_dma_control_ok [OF r [unfolded Inr]] obtain mem addr where
      mem: "k_get_free_pages k = Ptr mem" and dma: "dma = dma_fields k shift mem addr"
      and b: "12 \<le> k_block_shift k" by blast
    from b assms(3) have "dma_valid dma" unfolding dma
      by (intro dma_fields_valid [where b = "nat (k_block_shift k)"])
        (use assms(2,4) mem in auto)
    moreover have "held' = held \<union> {Res_Dma_Control, Res_Dma_Pages, Res_Dma_Mapping}"
      using dma_stage.set_up_ok [of "(pf, k, dma_mask, shift)" "(tr, held)" dma "(tr', held')"] r Inr assms(5)
      by (simp del: initialise_dma_control.simps)
    moreover have "snd (terminate_dma_control (tr', held')) = held"
      using dma_stage.set_up_tear_down [of "(pf, k, dma_mask, shift)" "(tr, held)" dma "(tr', held')"] r Inr assms(5)
      by (simp del: initialise_dma_control.simps terminate_dma_control.simps)
    ultimately show ?thesis using r Inr by simp
  qed
qed

text \<open>The default module parameter with a kernel that grants everything.\<close>

definition granting_kernel :: dma_kernel where
  "granting_kernel = \<lparr>k_block_shift = 12, k_set_mask = \<lambda>_. Inr (), k_kmalloc = Ptr (),
     k_get_free_pages = Ptr (replicate 4096 0), k_map_single = Some 0x10000, k_undef_shl = \<lambda>_. 0\<rparr>"

theorem dma_control_set_up_witness:
  "\<exists>dma tr' held'. initialise_dma_control (copying_platform (\<lambda>_. 0) 0) granting_kernel 48 3 ([], {}) =
     Some (Inr dma, tr', held') \<and> dma_valid dma \<and>
     held' = {Res_Dma_Control, Res_Dma_Pages, Res_Dma_Mapping} \<and>
     snd (terminate_dma_control (tr', held')) = {}"
proof -
  have poll: "reset_poll (copying_platform (\<lambda>_. 0) 0) d tr = Some (0, tr @ [Readl (Cdma CDMACR) 0])" for d tr
    by (subst reset_poll.simps) (simp add: readl_def copying_platform_def)
  then have "\<exists>dma s. initialise_dma_control (copying_platform (\<lambda>_. 0) 0) granting_kernel 48 3 ([], {}) =
      Some (Inr dma, s)"
    by (simp add: granting_kernel_def reset_dma_controller_def Let_def poll)
  then show ?thesis
    using dma_control_set_up [OF copying_platform_facts(1), of 3 granting_kernel "{}" "\<lambda>_. 0" 0 48 "[]"]
    by (auto simp: granting_kernel_def simp del: initialise_dma_control.simps terminate_dma_control.simps)
qed

text \<open>
  The buffer is mapped for both directions and unmapped, at shut-down, for one: the kernel
  documents that the direction has to be the same.
\<close>

lemma dma_unmap_direction_differs:
  "fst (terminate_dma_control (tr, held)) = tr @ [UnmapSingle DMA_FROM_DEVICE] \<and>
   (\<exists>dma tr' held'. initialise_dma_control (copying_platform (\<lambda>_. 0) 0) granting_kernel 48 3 ([], {}) =
      Some (Inr dma, tr', held') \<and> MapSingle DMA_BIDIRECTIONAL \<in> set tr')"
proof -
  have poll: "reset_poll (copying_platform (\<lambda>_. 0) 0) d tr = Some (0, tr @ [Readl (Cdma CDMACR) 0])" for d tr
    by (subst reset_poll.simps) (simp add: readl_def copying_platform_def)
  then show ?thesis
    by (simp add: granting_kernel_def reset_dma_controller_def Let_def poll writel_def)
qed

end
