(* ===== verification/Interrupts.thy ===== *)
theory Interrupts
  imports Dma_Control
begin

text \<open>
  \<^verbatim>\<open>interrupts.c\<close>: the reader slots, the event words of the readers, blocking and non-blocking
  reads, the interrupt handler, and set-up and shut-down of the interrupt controller. The
  interface \<open>event_mailbox\<close> says what posting and taking events do; that no event is lost
  or seen twice is proved from it.
\<close>

section \<open>Data\<close>

definition N_EVENT_READERS :: nat where [simp]: "N_EVENT_READERS = 8"

text \<open>
  \<^verbatim>\<open>struct interrupt_control\<close>, with the structure its \<^verbatim>\<open>dma\<close> pointer refers to. \<open>ic_wakeups\<close> counts
  the calls of \<^verbatim>\<open>wake_up_all\<close> on the wait queue.
\<close>

record interrupt_control =
  ic_dma :: "dma_control option"
  ic_events :: "u32 list"
  ic_active_readers :: u64
  ic_wakeups :: nat

section \<open>Reader slots\<close>

function assign_from :: "nat \<Rightarrow> interrupt_control \<Rightarrow> nat option \<times> interrupt_control" where
  "assign_from n interrupts =
     (if n < N_EVENT_READERS then
        (let (was_set, readers) = test_and_set_bit n (ic_active_readers interrupts);
             interrupts = interrupts\<lparr>ic_active_readers := readers\<rparr>
         in if \<not> was_set then (Some n, interrupts\<lparr>ic_events := (ic_events interrupts)[n := 0]\<rparr>)
            else assign_from (Suc n) interrupts)
      else (None, interrupts))"
  by auto
termination by (relation "measure (\<lambda>(n, _). N_EVENT_READERS - n)") auto

definition assign_reader_number :: "interrupt_control \<Rightarrow> nat option \<times> interrupt_control" where
  "assign_reader_number interrupts = assign_from 0 interrupts"

definition unassign_reader_number :: "nat \<Rightarrow> interrupt_control \<Rightarrow> interrupt_control" where
  "unassign_reader_number reader_number interrupts =
     interrupts\<lparr>ic_active_readers := clear_bit reader_number (ic_active_readers interrupts)\<rparr>"

section \<open>Events\<close>

definition interrupt_events_ready :: "interrupt_control \<Rightarrow> nat \<Rightarrow> bool" where
  "interrupt_events_ready control reader \<longleftrightarrow> ic_events control ! reader \<noteq> 0"

text \<open>\<^verbatim>\<open>atomic_xchg(&control->events[reader], 0)\<close>.\<close>

definition xchg_events :: "nat \<Rightarrow> interrupt_control \<Rightarrow> u32 \<times> interrupt_control" where
  "xchg_events reader control =
     (ic_events control ! reader, control\<lparr>ic_events := (ic_events control)[reader := 0]\<rparr>)"

definition event_interrupt :: "u32 \<Rightarrow> interrupt_control \<Rightarrow> interrupt_control" where
  "event_interrupt events control =
     control\<lparr>ic_events := map (\<lambda>old. old OR events) (ic_events control),
             ic_wakeups := ic_wakeups control + 1\<rparr>"

text \<open>
  \<^verbatim>\<open>wait_event_interruptible\<close> evaluates the condition, then looks for a signal, then sleeps until
  it is woken, and starts again. What happens between two evaluations of the condition is a
  list of wake-ups: an interrupt posts events, a signal arrives, or another thread takes the
  events of some reader. The schedule is the list of these rounds. The result \<open>None\<close> means that
  the caller is still asleep when the schedule ends; otherwise the rest of the schedule is
  returned.
\<close>

datatype wake = Wake_Interrupt u32 | Wake_Signal | Wake_Read nat

fun wake_effect :: "wake \<Rightarrow> interrupt_control \<Rightarrow> interrupt_control" where
  "wake_effect (Wake_Interrupt events) control = event_interrupt events control"
| "wake_effect Wake_Signal control = control"
| "wake_effect (Wake_Read r) control = snd (xchg_events r control)"

fun wait_for_events ::
    "bool \<Rightarrow> nat \<Rightarrow> interrupt_control \<Rightarrow> wake list list \<Rightarrow>
       (u32 res \<times> interrupt_control \<times> wake list list) option"
where
  "wait_for_events signalled reader control sched =
     (let (events, control) = xchg_events reader control
      in if events \<noteq> 0 then Some (Inr events, control, sched)
         else if signalled then Some (Inl ERESTARTSYS, control, sched)
         else case sched of
                [] \<Rightarrow> None
              | wakes # sched \<Rightarrow>
                  wait_for_events (Wake_Signal \<in> set wakes) reader (fold wake_effect wakes control) sched)"

definition read_interrupt_events ::
    "interrupt_control \<Rightarrow> bool \<Rightarrow> nat \<Rightarrow> wake list list \<Rightarrow>
       (u32 res \<times> interrupt_control \<times> wake list list) option"
where
  "read_interrupt_events control no_wait reader sched =
     (if no_wait then
        (let (events, control) = xchg_events reader control in Some (Inr events, control, sched))
      else wait_for_events False reader control sched)"

section \<open>The interrupt handler\<close>

definition amc_pci_isr :: "platform \<Rightarrow> interrupt_control \<Rightarrow> bus \<Rightarrow> interrupt_control \<times> bus" where
  "amc_pci_isr pf control tr =
     (let (isr, tr) = readl pf (Intc ISR) tr;
          (control, tr) =
            (case ic_dma control of
               Some dma \<Rightarrow>
                 if isr AND 1 \<noteq> 0
                 then let (dma, tr) = dma_interrupt pf dma tr in (control\<lparr>ic_dma := Some dma\<rparr>, tr)
                 else (control, tr)
             | None \<Rightarrow> (control, tr));
          user_isr = drop_bit 1 isr;
          control = (if user_isr \<noteq> 0 then event_interrupt user_isr control else control);
          tr = writel isr (Intc IAR) tr
      in (control, tr))"

section \<open>Set-up and shut-down\<close>

definition new_interrupt_control :: "dma_control option \<Rightarrow> interrupt_control" where
  "new_interrupt_control dma =
     \<lparr>ic_dma = dma, ic_events = replicate N_EVENT_READERS 0, ic_active_readers = 0, ic_wakeups = 0\<rparr>"

fun initialise_interrupt_control ::
    "unit kptr \<Rightarrow> unit res \<Rightarrow> dma_control option \<Rightarrow> bus \<times> ledger \<Rightarrow> interrupt_control res \<times> bus \<times> ledger"
where
  "initialise_interrupt_control kzalloc request_irq dma (tr, held) =
     (case test_ptr kzalloc of
        Inl e \<Rightarrow> (Inl e, tr, held)
      | Inr _ \<Rightarrow>
          let held = insert Res_Intc held;
              control = new_interrupt_control dma;
              tr = writel 0 (Intc MER) tr;
              tr = writel 0xFFFFFFFF (Intc IAR) tr;
              tr = writel 0xFFFFFFFF (Intc IER) tr
          in (case request_irq of
                Inl e \<Rightarrow> (Inl e, tr, held - {Res_Intc})
              | Inr _ \<Rightarrow> (Inr control, writel 3 (Intc MER) tr, insert Res_Irq held)))"

fun terminate_interrupt_control :: "bus \<times> ledger \<Rightarrow> bus \<times> ledger" where
  "terminate_interrupt_control (tr, held) =
     (writel 0 (Intc MER) tr, held - {Res_Irq} - {Res_Intc})"

section \<open>Histories\<close>

text \<open>What can happen to the event words: interrupts, reads, and readers that come and go.\<close>

datatype irq_op = Irq u32 | Take nat | Join | Leave nat

definition or_all :: "u32 list \<Rightarrow> u32" where
  "or_all xs = foldr (OR) xs 0"

fun irq_step :: "irq_op \<Rightarrow> interrupt_control \<Rightarrow> interrupt_control" where
  "irq_step (Irq events) c = event_interrupt events c"
| "irq_step (Take r) c = snd (xchg_events r c)"
| "irq_step Join c = snd (assign_reader_number c)"
| "irq_step (Leave r) c = unassign_reader_number r c"

text \<open>The words a reader was given in a history, and the words that were posted.\<close>

fun taken_by :: "nat \<Rightarrow> irq_op list \<Rightarrow> interrupt_control \<Rightarrow> u32 list" where
  "taken_by r [] c = []"
| "taken_by r (p # ps) c =
     (if p = Take r then [fst (xchg_events r c)] else []) @ taken_by r ps (irq_step p c)"

fun posted :: "irq_op list \<Rightarrow> u32 list" where
  "posted [] = []"
| "posted (Irq events # ps) = events # posted ps"
| "posted (_ # ps) = posted ps"

definition intc_ok :: "interrupt_control \<Rightarrow> bool" where
  "intc_ok c \<longleftrightarrow> length (ic_events c) = N_EVENT_READERS \<and> (\<forall>n. bit (ic_active_readers c) n \<longrightarrow> n < N_EVENT_READERS)"

definition reader_active :: "nat \<Rightarrow> interrupt_control \<Rightarrow> bool" where
  "reader_active r c \<longleftrightarrow> intc_ok c \<and> r < N_EVENT_READERS \<and> bit (ic_active_readers c) r"

text \<open>A controller with one reader, for examples.\<close>

definition demo_intc :: interrupt_control where
  "demo_intc = \<lparr>ic_dma = None, ic_events = replicate 8 0, ic_active_readers = 1, ic_wakeups = 0\<rparr>"

section \<open>Interface: a mailbox of events\<close>

text \<open>
  A mailbox holds a word of pending events for a live reader. Posting adds to it, taking
  returns and clears it, and whatever else happens to the mailbox keeps it. From these laws:
  what a reader has been given together with what is still pending is what was posted.
\<close>

locale event_mailbox =
  fixes live :: "'s \<Rightarrow> bool"
    and pending :: "'s \<Rightarrow> u32"
    and step :: "'p \<Rightarrow> 's \<Rightarrow> 's"
    and leaves :: "'p \<Rightarrow> bool"
    and given :: "'p \<Rightarrow> 's \<Rightarrow> u32 list"
    and posts :: "'p \<Rightarrow> u32 list"
  assumes live_step: "live s \<Longrightarrow> \<not> leaves p \<Longrightarrow> live (step p s)"
    and conserve: "live s \<Longrightarrow> \<not> leaves p \<Longrightarrow>
      or_all (given p s) OR pending (step p s) = pending s OR or_all (posts p)"
begin

fun run :: "'p list \<Rightarrow> 's \<Rightarrow> 's" where
  "run [] s = s"
| "run (p # ps) s = run ps (step p s)"

fun given_in :: "'p list \<Rightarrow> 's \<Rightarrow> u32 list" where
  "given_in [] s = []"
| "given_in (p # ps) s = given p s @ given_in ps (step p s)"

lemma or_all_append: "or_all (xs @ ys) = or_all xs OR or_all ys"
  by (induction xs) (simp_all add: or_all_def or.assoc)

lemma live_run: "live s \<Longrightarrow> \<forall>p \<in> set ps. \<not> leaves p \<Longrightarrow> live (run ps s)"
  by (induction ps arbitrary: s) (auto simp: live_step)

lemma conservation:
  "live s \<Longrightarrow> \<forall>p \<in> set ps. \<not> leaves p \<Longrightarrow>
     or_all (given_in ps s) OR pending (run ps s) = pending s OR or_all (concat (map posts ps))"
proof (induction ps arbitrary: s)
  case Nil
  then show ?case by (simp add: or_all_def)
next
  case (Cons p ps)
  then have "or_all (given_in (p # ps) s) OR pending (run (p # ps) s) =
      or_all (given p s) OR (pending (step p s) OR or_all (concat (map posts ps)))"
    by (simp add: or_all_append or.assoc live_step)
  also have "\<dots> = (pending s OR or_all (posts p)) OR or_all (concat (map posts ps))"
    using Cons.prems conserve [of s p] by (simp flip: or.assoc)
  finally show ?case by (simp add: or_all_append or.assoc)
qed

end

section \<open>Lemmas on reader slots\<close>

definition active_set :: "interrupt_control \<Rightarrow> nat set" where
  "active_set c = {n. bit (ic_active_readers c) n}"

lemma test_and_set_again: "bit w n \<Longrightarrow> test_and_set_bit n w = (True, w)"
  unfolding test_and_set_bit_def by (auto intro!: bit_word_eqI simp: bit_simps)

text \<open>
  The search stops at the first free slot at or after \<open>n\<close>, marks it and clears its events; it
  changes nothing if there is none.
\<close>

lemma assign_from_cases:
  "(\<forall>i. n \<le> i \<and> i < N_EVENT_READERS \<longrightarrow> bit (ic_active_readers c) i) \<and> assign_from n c = (None, c) \<or>
   (\<exists>m. n \<le> m \<and> m < N_EVENT_READERS \<and> \<not> bit (ic_active_readers c) m \<and>
      (\<forall>i. n \<le> i \<and> i < m \<longrightarrow> bit (ic_active_readers c) i) \<and>
      assign_from n c = (Some m, c\<lparr>ic_active_readers := snd (test_and_set_bit m (ic_active_readers c)),
        ic_events := (ic_events c)[m := 0]\<rparr>))"
proof (induction n c rule: assign_from.induct)
  case (1 n c)
  show ?case
  proof (cases "n < N_EVENT_READERS")
    case False
    then show ?thesis by (intro disjI1) auto
  next
    case n: True
    show ?thesis
    proof (cases "bit (ic_active_readers c) n")
      case False
      then have "fst (test_and_set_bit n (ic_active_readers c)) = False" by (simp add: bitmap_simps)
      with n have "assign_from n c = (Some n, c\<lparr>ic_active_readers := snd (test_and_set_bit n (ic_active_readers c)),
          ic_events := (ic_events c)[n := 0]\<rparr>)"
        by (subst assign_from.simps) (simp add: split_beta)
      with n False show ?thesis by auto
    next
      case True
      with n have eq: "assign_from n c = assign_from (Suc n) c"
        by (subst assign_from.simps) (simp add: test_and_set_again)
      have skip: "n \<le> i \<longleftrightarrow> i = n \<or> Suc n \<le> i" for i by auto
      from "1.IH" [OF n refl test_and_set_again [OF True, symmetric] refl] True show ?thesis
        unfolding eq skip by (simp del: assign_from.simps) blast
    qed
  qed
qed

lemmas assign_reader_number_cases = assign_from_cases [of 0, folded assign_reader_number_def]

lemma assign_reader_number_Some:
  assumes "assign_reader_number c = (Some m, c')"
  shows "m < N_EVENT_READERS \<and> \<not> bit (ic_active_readers c) m \<and> (\<forall>i < m. bit (ic_active_readers c) i) \<and>
    active_set c' = insert m (active_set c) \<and> ic_events c' = (ic_events c)[m := 0] \<and>
    ic_dma c' = ic_dma c \<and> ic_wakeups c' = ic_wakeups c"
  using assign_reader_number_cases [of c] assms by (auto simp: active_set_def bitmap_simps)

lemma assign_reader_number_None:
  "assign_reader_number c = (None, c') \<Longrightarrow> c' = c \<and> {..<N_EVENT_READERS} \<subseteq> active_set c"
  using assign_reader_number_cases [of c] by (auto simp: active_set_def)

lemma active_set_unassign: "active_set (unassign_reader_number n c) = active_set c - {n}"
  by (auto simp: active_set_def unassign_reader_number_def bitmap_simps)

text \<open>The reader numbers are a bitmap of eight slots.\<close>

interpretation readers: bit_slots active_set N_EVENT_READERS
  "\<lambda>c. case assign_reader_number c of (Some n, c') \<Rightarrow> Some (n, c') | (None, _) \<Rightarrow> None"
  unassign_reader_number
proof (unfold_locales, goal_cases)
  case (1 c)
  show ?case
  proof (cases "fst (assign_reader_number c)")
    case None
    with assign_reader_number_None [of c] show ?thesis by (cases "assign_reader_number c") auto
  next
    case (Some m)
    then obtain c' where m: "assign_reader_number c = (Some m, c')" by (cases "assign_reader_number c") auto
    from assign_reader_number_Some [OF m] have "m \<in> {..<N_EVENT_READERS} - active_set c"
      by (simp add: active_set_def)
    with m show ?thesis by auto
  qed
next
  case (2 c n c')
  then have "assign_reader_number c = (Some n, c')" by (auto split: prod.splits option.splits)
  from assign_reader_number_Some [OF this] show ?case by (auto simp: active_set_def)
next
  case (3 n c)
  show ?case by (rule active_set_unassign)
qed

section \<open>Lemmas on events\<close>

lemma xchg_events_simps [simp]:
  "fst (xchg_events r c) = ic_events c ! r"
  "ic_events (snd (xchg_events r c)) = (ic_events c)[r := 0]"
  "ic_active_readers (snd (xchg_events r c)) = ic_active_readers c"
  "ic_dma (snd (xchg_events r c)) = ic_dma c"
  by (simp_all add: xchg_events_def)

lemma event_interrupt_simps [simp]:
  "ic_events (event_interrupt ev c) = map (\<lambda>old. old OR ev) (ic_events c)"
  "ic_active_readers (event_interrupt ev c) = ic_active_readers c"
  "ic_dma (event_interrupt ev c) = ic_dma c"
  by (simp_all add: event_interrupt_def)

lemma irq_step_ok: "intc_ok c \<Longrightarrow> intc_ok (irq_step p c)"
proof (cases p)
  case Join
  assume "intc_ok c"
  with Join show ?thesis
    using assign_reader_number_cases [of c] by (auto simp: intc_ok_def bitmap_simps)
next
  case (Leave r)
  assume "intc_ok c"
  with Leave show ?thesis by (auto simp: intc_ok_def unassign_reader_number_def bitmap_simps)
qed (auto simp: intc_ok_def)

lemma irq_step_active:
  assumes "reader_active r c" and "p \<noteq> Leave r"
  shows "reader_active r (irq_step p c)"
proof -
  have "bit (ic_active_readers (irq_step p c)) r"
  proof (cases p)
    case Join
    with assms show ?thesis
      using assign_reader_number_cases [of c] by (auto simp: reader_active_def bitmap_simps)
  next
    case (Leave s)
    with assms show ?thesis by (auto simp: reader_active_def unassign_reader_number_def bitmap_simps)
  qed (use assms in \<open>auto simp: reader_active_def\<close>)
  with assms irq_step_ok show ?thesis by (auto simp: reader_active_def)
qed

lemma irq_step_pending:
  assumes "reader_active r c" and "p \<noteq> Leave r"
  shows "ic_events (irq_step p c) ! r =
    (case p of Irq ev \<Rightarrow> ic_events c ! r OR ev | Take s \<Rightarrow> if s = r then 0 else ic_events c ! r
     | _ \<Rightarrow> ic_events c ! r)"
proof (cases p)
  case Join
  with assms show ?thesis
    using assign_reader_number_cases [of c] by (auto simp: reader_active_def intc_ok_def nth_list_update)
qed (use assms in \<open>auto simp: reader_active_def intc_ok_def unassign_reader_number_def nth_list_update\<close>)

interpretation mailbox: event_mailbox "reader_active r" "\<lambda>c. ic_events c ! r" irq_step
  "\<lambda>p. p = Leave r" "\<lambda>p c. if p = Take r then [fst (xchg_events r c)] else []"
  "\<lambda>p. posted [p]"
  for r
proof (unfold_locales, goal_cases)
  case (1 c p)
  then show ?case by (rule irq_step_active)
next
  case (2 c p)
  then show ?case
    by (cases p) (auto simp: irq_step_pending or_all_def simp del: irq_step.simps)
qed

lemma posted_concat: "posted ps = concat (map (\<lambda>p. posted [p]) ps)"
  by (induction ps rule: posted.induct) auto

lemma mailbox_given_in: "event_mailbox.given_in irq_step (\<lambda>p c. if p = Take r then [fst (xchg_events r c)] else []) ps c = taken_by r ps c"
  by (induction ps arbitrary: c) (auto simp: mailbox.given_in.simps)

lemma mailbox_run: "event_mailbox.run irq_step ps c = fold irq_step ps c"
  by (induction ps arbitrary: c) (auto simp: mailbox.run.simps)

section \<open>Lemmas on the blocking read\<close>

declare wait_for_events.simps [simp del]

text \<open>Taking the events of a reader that has none changes nothing.\<close>

lemma xchg_events_none: "ic_events c ! r = 0 \<Longrightarrow> snd (xchg_events r c) = c"
  using list_update_id [of "ic_events c" r] by (simp add: xchg_events_def)

lemma wait_for_events_step:
  "wait_for_events sig r c sched =
     (if ic_events c ! r \<noteq> 0 then Some (Inr (ic_events c ! r), snd (xchg_events r c), sched)
      else if sig then Some (Inl ERESTARTSYS, c, sched)
      else case sched of [] \<Rightarrow> None
           | ws # sched \<Rightarrow> wait_for_events (Wake_Signal \<in> set ws) r (fold wake_effect ws c) sched)"
  by (subst wait_for_events.simps)
    (simp add: split_beta xchg_events_none split: list.split)

text \<open>The rounds at which a sleeping reader wakes for good.\<close>

fun wakes_reader :: "nat \<Rightarrow> interrupt_control \<Rightarrow> wake list \<Rightarrow> bool" where
  "wakes_reader r c ws \<longleftrightarrow> Wake_Signal \<in> set ws \<or> ic_events (fold wake_effect ws c) ! r \<noteq> 0"

text \<open>What the read returns after the rounds \<open>past\<close>, if it was entered with \<open>sig\<close>.\<close>

definition wait_outcome ::
    "bool \<Rightarrow> nat \<Rightarrow> interrupt_control \<Rightarrow> wake list list \<Rightarrow> u32 res \<Rightarrow> interrupt_control \<Rightarrow> bool"
where
  "wait_outcome sig r c past res c' \<longleftrightarrow>
     (let c1 = fold wake_effect (concat past) c
      in (case res of
            Inr ev \<Rightarrow> ev = ic_events c1 ! r \<and> ev \<noteq> 0 \<and> c' = snd (xchg_events r c1)
          | Inl e \<Rightarrow> e = ERESTARTSYS \<and> ic_events c1 ! r = 0 \<and> c' = c1 \<and>
              (if past = [] then sig else Wake_Signal \<in> set (last past))))"

lemma wait_outcome_Cons:
  "wait_outcome (Wake_Signal \<in> set ws) r (fold wake_effect ws c) past res c' \<Longrightarrow>
     wait_outcome sig r c (ws # past) res c'"
  by (auto simp: wait_outcome_def Let_def split: sum.splits if_splits)

lemma wait_for_events_sound:
  assumes "wait_for_events sig r c sched = Some (res, c', rest)"
  shows "\<exists>past. sched = past @ rest \<and> wait_outcome sig r c past res c'"
  using assms
proof (induction sched arbitrary: sig c)
  case Nil
  then show ?case
    by (subst (asm) wait_for_events_step) (auto simp: wait_outcome_def split: if_splits)
next
  case (Cons ws sched)
  show ?case
  proof (cases "ic_events c ! r \<noteq> 0 \<or> sig")
    case True
    with Cons.prems show ?thesis
      by (subst (asm) wait_for_events_step, intro exI [of _ "[]"])
        (auto simp: wait_outcome_def split: if_splits)
  next
    case False
    with Cons.prems have "wait_for_events (Wake_Signal \<in> set ws) r (fold wake_effect ws c) sched = Some (res, c', rest)"
      by (subst (asm) wait_for_events_step) auto
    from Cons.IH [OF this] obtain past where
      "sched = past @ rest" "wait_outcome (Wake_Signal \<in> set ws) r (fold wake_effect ws c) past res c'" by blast
    then show ?thesis by (intro exI [of _ "ws # past"]) (auto intro: wait_outcome_Cons)
  qed
qed

lemma wait_for_events_wakes:
  assumes "wakes_reader r (fold wake_effect (concat pre) c) ws"
  shows "\<exists>x. wait_for_events sig r c (pre @ ws # post) = Some x"
  using assms
proof (induction pre arbitrary: sig c)
  case Nil
  then show ?case
    by (subst wait_for_events_step, simp, subst wait_for_events_step) auto
next
  case (Cons w pre)
  then show ?case by (subst wait_for_events_step) auto
qed

section \<open>Properties\<close>

text \<open>
  C22: No event is lost. For a reader whose slot is in use, over any history of interrupts, reads
  by all readers, and other readers that come and go: the words it has been given together
  with the word still pending are exactly what was pending before together with what the
  interrupts posted. The reader also keeps its slot.
\<close>

theorem events_conserved:
  assumes "reader_active r c" and "Leave r \<notin> set ps"
  shows "or_all (taken_by r ps c) OR ic_events (fold irq_step ps c) ! r =
      ic_events c ! r OR or_all (posted ps) \<and>
    reader_active r (fold irq_step ps c)"
  using mailbox.conservation [OF assms(1), of ps] mailbox.live_run [OF assms(1), of ps] assms(2)
  by (auto simp: mailbox_run mailbox_given_in posted_concat [symmetric])

theorem events_conserved_witness:
  "or_all (taken_by 0 [Irq 5, Take 0, Join, Irq 2, Irq 8, Take 1] demo_intc) OR
     ic_events (fold irq_step [Irq 5, Take 0, Join, Irq 2, Irq 8, Take 1] demo_intc) ! 0 = 15"
proof -
  have "reader_active 0 demo_intc"
    by (auto simp: reader_active_def intc_ok_def demo_intc_def bit_1_iff)
  moreover have "ic_events demo_intc ! 0 = 0"
    by (simp add: demo_intc_def)
  ultimately show ?thesis
    using events_conserved [of 0 demo_intc "[Irq 5, Take 0, Join, Irq 2, Irq 8, Take 1]"]
    by (simp add: or_all_def)
qed

text \<open>
  C27: The blocking read. It returns whenever a round of its schedule brings a signal or leaves
  events for the reader. What it returns is either a nonzero word, which is all that was
  pending for this reader at that moment and is cleared by the read, or \<^verbatim>\<open>ERESTARTSYS\<close> after a
  signal when nothing was pending. It never returns an empty word.
\<close>

theorem blocking_read:
  "(\<forall>pre ws post. sched = pre @ ws # post \<and> wakes_reader r (fold wake_effect (concat pre) c) ws \<longrightarrow>
      (\<exists>x. read_interrupt_events c False r sched = Some x)) \<and>
   (\<forall>res c' rest. read_interrupt_events c False r sched = Some (res, c', rest) \<longrightarrow>
      (\<exists>past. sched = past @ rest \<and>
        (let c1 = fold wake_effect (concat past) c
         in (case res of
               Inr ev \<Rightarrow> ev = ic_events c1 ! r \<and> ev \<noteq> 0 \<and> c' = snd (xchg_events r c1)
             | Inl e \<Rightarrow> e = ERESTARTSYS \<and> ic_events c1 ! r = 0 \<and> c' = c1 \<and>
                 past \<noteq> [] \<and> Wake_Signal \<in> set (last past)))))"
proof (intro conjI allI impI)
  fix pre ws post
  assume "sched = pre @ ws # post \<and> wakes_reader r (fold wake_effect (concat pre) c) ws"
  then show "\<exists>x. read_interrupt_events c False r sched = Some x"
    using wait_for_events_wakes by (auto simp: read_interrupt_events_def)
next
  fix res c' rest
  assume "read_interrupt_events c False r sched = Some (res, c', rest)"
  then obtain past where "sched = past @ rest" "wait_outcome False r c past res c'"
    using wait_for_events_sound [of False r c sched res c' rest] by (auto simp: read_interrupt_events_def)
  then show "\<exists>past. sched = past @ rest \<and>
        (let c1 = fold wake_effect (concat past) c
         in (case res of
               Inr ev \<Rightarrow> ev = ic_events c1 ! r \<and> ev \<noteq> 0 \<and> c' = snd (xchg_events r c1)
             | Inl e \<Rightarrow> e = ERESTARTSYS \<and> ic_events c1 ! r = 0 \<and> c' = c1 \<and>
                 past \<noteq> [] \<and> Wake_Signal \<in> set (last past)))"
    by (intro exI [of _ past]) (auto simp: wait_outcome_def Let_def split: sum.splits if_splits)
qed

theorem blocking_read_witness:
  "\<exists>x. read_interrupt_events demo_intc False 0 [[Wake_Interrupt 4, Wake_Read 0], [Wake_Interrupt 6]] = Some x"
proof -
  have "length (ic_events demo_intc) = 8"
    by (simp add: demo_intc_def)
  then have "wakes_reader 0 (fold wake_effect (concat [[Wake_Interrupt 4, Wake_Read 0]]) demo_intc) [Wake_Interrupt 6]"
    by simp
  then show ?thesis
    using blocking_read [of "[[Wake_Interrupt 4, Wake_Read 0], [Wake_Interrupt 6]]" 0 demo_intc]
    by (metis append_Cons append_Nil)
qed

text \<open>
  Reader slots. A new reader gets the lowest free number below eight with an empty event
  word, and no other reader's word or slot changes; there is none exactly when all eight are
  taken, and then nothing changes. A number that is given back is free again, and giving
  back what was just assigned restores the set of readers.
\<close>

theorem reader_slots:
  "(case assign_reader_number c of
      (None, c') \<Rightarrow> c' = c \<and> {..<N_EVENT_READERS} \<subseteq> active_set c
    | (Some n, c') \<Rightarrow>
        n < N_EVENT_READERS \<and> n = (LEAST m. m \<notin> active_set c) \<and> active_set c' = insert n (active_set c) \<and>
        (length (ic_events c) = N_EVENT_READERS \<longrightarrow> ic_events c' ! n = 0) \<and>
        (\<forall>m. m \<noteq> n \<longrightarrow> ic_events c' ! m = ic_events c ! m) \<and>
        active_set (unassign_reader_number n c') = active_set c) \<and>
   (n < N_EVENT_READERS \<longrightarrow> fst (assign_reader_number (unassign_reader_number n c)) \<noteq> None)"
proof (intro conjI impI)
  show "case assign_reader_number c of
      (None, c') \<Rightarrow> c' = c \<and> {..<N_EVENT_READERS} \<subseteq> active_set c
    | (Some n, c') \<Rightarrow>
        n < N_EVENT_READERS \<and> n = (LEAST m. m \<notin> active_set c) \<and> active_set c' = insert n (active_set c) \<and>
        (length (ic_events c) = N_EVENT_READERS \<longrightarrow> ic_events c' ! n = 0) \<and>
        (\<forall>m. m \<noteq> n \<longrightarrow> ic_events c' ! m = ic_events c ! m) \<and>
        active_set (unassign_reader_number n c') = active_set c"
  proof (cases "assign_reader_number c")
    case (Pair a c')
    show ?thesis
    proof (cases a)
      case None
      with Pair assign_reader_number_None [of c c'] show ?thesis by simp
    next
      case (Some n)
      with Pair have eq: "assign_reader_number c = (Some n, c')" by simp
      have alloc: "(case assign_reader_number c of (Some n, c') \<Rightarrow> Some (n, c') | (None, _) \<Rightarrow> None) = Some (n, c')"
        using eq by simp
      show ?thesis
        using eq assign_reader_number_Some [OF eq] readers.alloc_first [OF alloc] readers.free_alloc [OF alloc]
        by simp
    qed
  qed
next
  assume "n < N_EVENT_READERS"
  from readers.alloc_after_free [OF this, of c]
  show "fst (assign_reader_number (unassign_reader_number n c)) \<noteq> None"
    by (auto split: prod.splits option.splits)
qed

theorem reader_slots_witness:
  "fst (assign_reader_number (unassign_reader_number 3 demo_intc)) \<noteq> None"
  using reader_slots [of demo_intc 3] by simp

text \<open>
  C32: The interrupt handler. It reads the interrupt status once, serves the DMA engine if bit 0
  is set (reading its status and writing it back, and signalling one completion), and only
  after that acknowledges to the interrupt controller exactly the bits it has read. Every
  reader's word gains the remaining bits shifted down by one, sleepers are woken once
  exactly if there are any, and no transfer is started.
\<close>

theorem isr_effect:
  assumes "amc_pci_isr pf c tr = (c', tr')"
  defines "v \<equiv> hw pf tr (Intc ISR)"
  defines "serve \<equiv> ic_dma c \<noteq> None \<and> bit v 0"
  shows "(\<exists>s. tr' = tr @ [Readl (Intc ISR) v] @
      (if serve then [Readl (Cdma CDMASR) s, Writel (Cdma CDMASR) s] else []) @ [Writel (Intc IAR) v]) \<and>
    ic_dma c' = map_option (\<lambda>d. if bit v 0 then d\<lparr>dc_done := dc_done d + 1\<rparr> else d) (ic_dma c) \<and>
    ic_events c' = map (\<lambda>old. old OR drop_bit 1 v) (ic_events c) \<and>
    ic_wakeups c' = ic_wakeups c + (if drop_bit 1 v \<noteq> 0 then 1 else 0) \<and>
    ic_active_readers c' = ic_active_readers c \<and>
    dma_requests tr' = dma_requests tr"
proof -
  have bit0: "v AND 1 \<noteq> 0 \<longleftrightarrow> bit v 0" by (simp add: and_one_eq bit_0 odd_iff_mod_2_eq_one)
  have wake: "ic_wakeups (event_interrupt ev d) = ic_wakeups d + 1" for ev d
    by (simp add: event_interrupt_def)
  have none: "map (\<lambda>old. old OR drop_bit 1 v) es = es" if "drop_bit 1 v = 0" for es :: "u32 list"
    using that by simp
  have tr'_ex: "\<exists>s. tr' = tr @ [Readl (Intc ISR) v] @
      (if serve then [Readl (Cdma CDMASR) s, Writel (Cdma CDMASR) s] else []) @ [Writel (Intc IAR) v]"
    using assms(1) bit0
    by (auto simp: amc_pci_isr_def readl_def writel_def dma_interrupt_def Let_def v_def serve_def split: option.splits if_splits)
  then have "dma_requests tr' = dma_requests tr"
    by (auto simp: dma_requests_quiet simp flip: append_assoc)
  moreover have "ic_dma c' = map_option (\<lambda>d. if bit v 0 then d\<lparr>dc_done := dc_done d + 1\<rparr> else d) (ic_dma c) \<and>
    ic_events c' = map (\<lambda>old. old OR drop_bit 1 v) (ic_events c) \<and>
    ic_wakeups c' = ic_wakeups c + (if drop_bit 1 v \<noteq> 0 then 1 else 0) \<and>
    ic_active_readers c' = ic_active_readers c"
    using assms(1) bit0 none
    by (auto simp: amc_pci_isr_def readl_def writel_def dma_interrupt_def Let_def v_def wake split: option.splits if_splits)
  ultimately show ?thesis using tr'_ex by blast
qed

theorem isr_effect_witness:
  "ic_events (fst (amc_pci_isr ((copying_platform (\<lambda>_. 0) 0)\<lparr>hw := \<lambda>_ _. 6\<rparr>) demo_intc [])) = replicate 8 3"
  using isr_effect [OF surjective_pairing, of "(copying_platform (\<lambda>_. 0) 0)\<lparr>hw := \<lambda>_ _. 6\<rparr>" demo_intc "[]"]
  by (simp add: demo_intc_def)

text \<open>
  Set-up of the interrupt controller. The master enable is written as zero first, all
  interrupts are acknowledged and enabled, and the master enable is turned on only after the
  handler has been installed; if installing it fails the controller stays disabled and the
  ledger is as it was. Shut-down disables the controller and gives back what was taken. A
  new controller has no readers and no events.
\<close>

theorem interrupt_set_up:
  assumes "held \<inter> {Res_Intc, Res_Irq} = {}"
  shows "(case initialise_interrupt_control kzalloc request_irq dma (tr, held) of
      (Inl e, tr', held') \<Rightarrow> held' = held \<and> (kzalloc = Ptr () \<longrightarrow> request_irq = Inl e) \<and>
        (tr' = tr \<or> tr' = tr @ [Writel (Intc MER) 0, Writel (Intc IAR) 0xFFFFFFFF, Writel (Intc IER) 0xFFFFFFFF])
    | (Inr c, tr', held') \<Rightarrow> kzalloc = Ptr () \<and> request_irq = Inr () \<and>
        tr' = tr @ [Writel (Intc MER) 0, Writel (Intc IAR) 0xFFFFFFFF, Writel (Intc IER) 0xFFFFFFFF,
          Writel (Intc MER) 3] \<and>
        held' = held \<union> {Res_Intc, Res_Irq} \<and> intc_ok c \<and> active_set c = {} \<and>
        (\<forall>r < N_EVENT_READERS. \<not> interrupt_events_ready c r) \<and> ic_dma c = dma \<and>
        snd (terminate_interrupt_control (tr', held')) = held \<and>
        last (fst (terminate_interrupt_control (tr', held'))) = Writel (Intc MER) 0)"
proof -
  have new: "intc_ok (new_interrupt_control dma)" "active_set (new_interrupt_control dma) = {}"
    "\<forall>r < N_EVENT_READERS. \<not> interrupt_events_ready (new_interrupt_control dma) r"
    by (simp_all add: intc_ok_def new_interrupt_control_def active_set_def interrupt_events_ready_def)
  show ?thesis
  proof (cases kzalloc)
    case (Ptr u)
    then show ?thesis
      using assms new by (cases request_irq) (auto simp: Let_def writel_def new_interrupt_control_def)
  qed auto
qed

theorem interrupt_set_up_witness:
  "snd (snd (initialise_interrupt_control (Ptr ()) (Inr ()) None ([], {}))) = {Res_Intc, Res_Irq}"
  using interrupt_set_up [where held = "{}" and kzalloc = "Ptr ()" and request_irq = "Inr ()" and dma = None
      and tr = "[]"] by (auto simp: Let_def split: prod.splits sum.splits)

interpretation intc_stage: resource_stage
  "\<lambda>(kzalloc, request_irq, dma) s. Some (initialise_interrupt_control kzalloc request_irq dma s)"
  "\<lambda>_. terminate_interrupt_control" snd "{Res_Intc, Res_Irq}"
proof (unfold_locales, goal_cases)
  case (1 e s a s')
  then show ?case by (cases s) (auto simp: Let_def split: sum.splits prod.splits)
next
  case (2 e s err s')
  then show ?case by (cases s) (auto simp: Let_def split: sum.splits prod.splits)
next
  case (3 e s)
  then show ?case by (cases s) auto
qed

end
