(* ===== verification/Lifecycle.thy ===== *)
theory Lifecycle
  imports Amc_Prelude
begin

text \<open>
  The life time of a board (\<^verbatim>\<open>amc_pci_core.c\<close>): the count of open file handles plus one for the
  driver itself, and the completion with which removal waits for the last handle. The
  interplay of opens, closes and removal is a step relation; its invariant gives that the
  hardware is released only when no handle is open and none can be opened any more.
\<close>

section \<open>Reference counting\<close>

record file_refs =
  fr_refcount :: u32
  fr_completion :: nat

text \<open>The kernel's atomics: \<^verbatim>\<open>atomic_inc_not_zero\<close> and \<^verbatim>\<open>atomic_dec_and_test\<close>.\<close>

definition atomic_inc_not_zero :: "u32 \<Rightarrow> bool \<times> u32" where
  "atomic_inc_not_zero v = (if v = 0 then (False, v) else (True, v + 1))"

definition atomic_dec_and_test :: "u32 \<Rightarrow> bool \<times> u32" where
  "atomic_dec_and_test v = (v - 1 = 0, v - 1)"

definition new_refs :: file_refs where
  "new_refs = \<lparr>fr_refcount = 1, fr_completion = 0\<rparr>"

definition amc_pci_release :: "file_refs \<Rightarrow> file_refs" where
  "amc_pci_release refs =
     (let (zero, v) = atomic_dec_and_test (fr_refcount refs);
          refs = refs\<lparr>fr_refcount := v\<rparr>
      in if zero then refs\<lparr>fr_completion := fr_completion refs + 1\<rparr> else refs)"

text \<open>The first statement of \<^verbatim>\<open>amc_pci_open\<close>: take a reference, or fail if the board is gone.\<close>

definition get_ref :: "file_refs \<Rightarrow> file_refs res" where
  "get_ref refs =
     (case atomic_inc_not_zero (fr_refcount refs) of
        (False, _) \<Rightarrow> Inl ENXIO
      | (True, v) \<Rightarrow> Inr (refs\<lparr>fr_refcount := v\<rparr>))"

text \<open>
  \<^verbatim>\<open>wait_for_clients\<close> in its two halves: dropping the driver's own reference, and the wait, which
  returns (\<open>Some\<close>) once the completion has been signalled and consumes it.
\<close>

definition drop_own_ref :: "file_refs \<Rightarrow> file_refs" where
  "drop_own_ref refs =
     (let (zero, v) = atomic_dec_and_test (fr_refcount refs);
          refs = refs\<lparr>fr_refcount := v\<rparr>
      in if zero then refs\<lparr>fr_completion := fr_completion refs + 1\<rparr> else refs)"

definition wait_for_completion :: "file_refs \<Rightarrow> file_refs option" where
  "wait_for_completion refs =
     (case fr_completion refs of 0 \<Rightarrow> None | Suc n \<Rightarrow> Some (refs\<lparr>fr_completion := n\<rparr>))"

fun run_closes :: "nat \<Rightarrow> file_refs \<Rightarrow> file_refs" where
  "run_closes 0 refs = refs"
| "run_closes (Suc n) refs = run_closes n (amc_pci_release refs)"

text \<open>\<^verbatim>\<open>wait_for_clients\<close> when \<open>closes\<close> handles are closed while it waits.\<close>

definition wait_for_clients :: "nat \<Rightarrow> file_refs \<Rightarrow> file_refs option" where
  "wait_for_clients closes refs = wait_for_completion (run_closes closes (drop_own_ref refs))"

section \<open>Opens, closes and removal\<close>

text \<open>
  The handles that are open, and how far removal of the board has come. The number of handles
  is below the limit of the 32-bit count, as the kernel's limit on open files ensures. An open
  that fails after it has taken its reference is an \<open>open_ok\<close> followed by a \<open>close\<close>.
\<close>

datatype phase = Live | Draining | Gone

record life =
  lf_refs :: file_refs
  lf_open :: nat
  lf_phase :: phase

abbreviation (input) "MAX_HANDLES \<equiv> (2 ^ 31 :: nat)"

inductive life_step :: "life \<Rightarrow> life \<Rightarrow> bool" where
  open_ok: "get_ref (lf_refs s) = Inr refs \<Longrightarrow> lf_open s < MAX_HANDLES \<Longrightarrow>
    life_step s (s\<lparr>lf_refs := refs, lf_open := lf_open s + 1\<rparr>)"
| open_gone: "get_ref (lf_refs s) = Inl e \<Longrightarrow> life_step s s"
| close: "0 < lf_open s \<Longrightarrow>
    life_step s (s\<lparr>lf_refs := amc_pci_release (lf_refs s), lf_open := lf_open s - 1\<rparr>)"
| remove: "lf_phase s = Live \<Longrightarrow>
    life_step s (s\<lparr>lf_refs := drop_own_ref (lf_refs s), lf_phase := Draining\<rparr>)"
| drained: "lf_phase s = Draining \<Longrightarrow> wait_for_completion (lf_refs s) = Some refs \<Longrightarrow>
    life_step s (s\<lparr>lf_refs := refs, lf_phase := Gone\<rparr>)"

definition life_start :: life where
  "life_start = \<lparr>lf_refs = new_refs, lf_open = 0, lf_phase = Live\<rparr>"

inductive life_reach :: "life \<Rightarrow> bool" where
  start: "life_reach life_start"
| step: "life_reach s \<Longrightarrow> life_step s s' \<Longrightarrow> life_reach s'"

definition life_ok :: "life \<Rightarrow> bool" where
  "life_ok s \<longleftrightarrow> lf_open s \<le> MAX_HANDLES \<and>
     unat (fr_refcount (lf_refs s)) = lf_open s + (if lf_phase s = Live then 1 else 0) \<and>
     fr_completion (lf_refs s) = (if lf_phase s = Draining \<and> lf_open s = 0 then 1 else 0) \<and>
     (lf_phase s = Gone \<longrightarrow> lf_open s = 0)"

section \<open>Lemmas\<close>

inductive_cases life_stepE: "life_step s s'"

lemma unat_u32_inc: "unat v < 2 ^ 32 - 1 \<Longrightarrow> unat (v + 1 :: u32) = unat v + 1"
  by (simp add: unat_word_ariths)

lemma unat_u32_dec: "0 < unat v \<Longrightarrow> unat (v - 1 :: u32) = unat v - 1"
  by (metis One_nat_def Suc_leI unat_1 unat_sub word_le_nat_alt)

lemma get_ref_cases:
  "fr_refcount refs = 0 \<and> get_ref refs = Inl ENXIO \<or>
   fr_refcount refs \<noteq> 0 \<and> get_ref refs = Inr (refs\<lparr>fr_refcount := fr_refcount refs + 1\<rparr>)"
  by (simp add: get_ref_def atomic_inc_not_zero_def)

lemma amc_pci_release_eq:
  "amc_pci_release refs = \<lparr>fr_refcount = fr_refcount refs - 1,
     fr_completion = fr_completion refs + (if fr_refcount refs = 1 then 1 else 0)\<rparr>"
  by (cases refs) (simp add: amc_pci_release_def atomic_dec_and_test_def)

lemma drop_own_ref_eq: "drop_own_ref = amc_pci_release"
  by (simp add: fun_eq_iff drop_own_ref_def amc_pci_release_def)

lemma wait_for_completion_Some:
  "wait_for_completion refs = Some refs' \<longleftrightarrow>
     0 < fr_completion refs \<and> refs' = refs\<lparr>fr_completion := fr_completion refs - 1\<rparr>"
  by (auto simp: wait_for_completion_def split: nat.splits)

lemma release_counts:
  assumes "unat (fr_refcount refs) = Suc n"
  shows "unat (fr_refcount (amc_pci_release refs)) = n \<and>
    fr_completion (amc_pci_release refs) = fr_completion refs + (if n = 0 then 1 else 0)"
proof -
  have "fr_refcount refs = 1 \<longleftrightarrow> n = 0" using assms by (simp add: word_unat_eq_iff)
  with assms show ?thesis by (simp add: amc_pci_release_eq unat_u32_dec)
qed

lemma life_ok_start: "life_ok life_start"
  by (simp add: life_ok_def life_start_def new_refs_def)

lemma life_ok_step:
  assumes "life_step s s'" and "life_ok s"
  shows "life_ok s'"
  using assms(1)
proof cases
  case (open_ok refs)
  then have "fr_refcount (lf_refs s) \<noteq> 0" "refs = (lf_refs s)\<lparr>fr_refcount := fr_refcount (lf_refs s) + 1\<rparr>"
    using get_ref_cases [of "lf_refs s"] by auto
  moreover from this(1) have "0 < unat (fr_refcount (lf_refs s))" by (simp add: unat_gt_0)
  ultimately show ?thesis
    using open_ok assms(2) by (auto simp: life_ok_def unat_u32_inc split: if_splits)
next
  case close
  with assms(2) show ?thesis
    using release_counts [of "lf_refs s" "lf_open s - 1 + (if lf_phase s = Live then 1 else 0)"]
    by (cases "lf_phase s") (auto simp: life_ok_def split: if_splits)
next
  case remove
  with assms(2) show ?thesis
    using release_counts [of "lf_refs s" "lf_open s"] by (auto simp: life_ok_def drop_own_ref_eq)
next
  case (drained refs)
  with assms(2) show ?thesis by (auto simp: life_ok_def wait_for_completion_Some split: if_splits)
qed (use assms(2) in simp)

lemma life_reach_ok: "life_reach s \<Longrightarrow> life_ok s"
  by (induction rule: life_reach.induct) (auto intro: life_ok_start life_ok_step)

lemma run_closes_counts:
  "unat (fr_refcount refs) = n + m \<Longrightarrow> 0 < m \<Longrightarrow>
     unat (fr_refcount (run_closes n refs)) = m \<and> fr_completion (run_closes n refs) = fr_completion refs"
proof (induction n arbitrary: refs)
  case (Suc n)
  then have "unat (fr_refcount (amc_pci_release refs)) = n + m"
    "fr_completion (amc_pci_release refs) = fr_completion refs"
    using release_counts [of refs "n + m"] by auto
  with Suc.IH Suc.prems show ?case by simp
qed simp

text \<open>The wait returns once the last of the open handles has been closed, and not before.\<close>

lemma wait_for_clients_counts:
  assumes "unat (fr_refcount refs0) = Suc n" and "fr_completion refs0 = 0" and "closes \<le> n"
  shows "wait_for_clients closes refs0 \<noteq> None \<longleftrightarrow> closes = n"
proof -
  let ?refs = "drop_own_ref refs0"
  have refs: "unat (fr_refcount ?refs) = n" "fr_completion ?refs = (if n = 0 then 1 else 0)"
    using assms(1,2) release_counts [of refs0 n] by (auto simp: drop_own_ref_eq)
  show ?thesis
  proof (cases "closes = n")
    case False
    with assms(3) have "closes < n" by simp
    then have "fr_completion (run_closes closes ?refs) = 0"
      using run_closes_counts [of ?refs closes "n - closes"] refs by simp
    with False show ?thesis by (simp add: wait_for_clients_def wait_for_completion_def)
  next
    case True
    have "0 < fr_completion (run_closes closes ?refs)"
    proof (cases closes)
      case 0
      with True refs show ?thesis by simp
    next
      case (Suc k)
      have split: "run_closes (Suc k) r = amc_pci_release (run_closes k r)" for k r
        by (induction k arbitrary: r) simp_all
      have "unat (fr_refcount (run_closes k ?refs)) = 1"
        using run_closes_counts [of ?refs k 1] refs True Suc by simp
      then show ?thesis
        using release_counts [of "run_closes k ?refs" 0] unfolding Suc split by simp
    qed
    then show ?thesis using True by (auto simp: wait_for_clients_def wait_for_completion_def split: nat.split)
  qed
qed

section \<open>Properties\<close>

text \<open>
  C23: Safe release. In every reachable state, when removal has come past its wait, no file handle
  is open, an attempt to open one fails with \<^verbatim>\<open>ENXIO\<close>, and the completion that let removal
  proceed was the only one. While the board is live the driver's own reference keeps the count
  positive, so that opens succeed and nothing is signalled.
\<close>

theorem release_is_safe:
  assumes "life_reach s"
  shows "(lf_phase s = Gone \<longrightarrow>
      lf_open s = 0 \<and> get_ref (lf_refs s) = Inl ENXIO \<and> fr_completion (lf_refs s) = 0) \<and>
    (lf_phase s = Live \<longrightarrow> get_ref (lf_refs s) \<noteq> Inl ENXIO \<and> fr_completion (lf_refs s) = 0) \<and>
    unat (fr_refcount (lf_refs s)) = lf_open s + (if lf_phase s = Live then 1 else 0)"
  using life_reach_ok [OF assms] get_ref_cases [of "lf_refs s"]
  by (auto simp: life_ok_def unat_eq_0)

theorem release_is_safe_witness:
  "get_ref (drop_own_ref new_refs) = Inl ENXIO"
proof -
  let ?s = "life_start\<lparr>lf_refs := drop_own_ref new_refs, lf_phase := Draining\<rparr>"
  let ?refs = "(drop_own_ref new_refs)\<lparr>fr_completion := 0\<rparr>"
  have "life_step life_start ?s" using life_step.remove [of life_start] by (simp add: life_start_def)
  with life_reach.intros have s: "life_reach ?s" by blast
  have "wait_for_completion (lf_refs ?s) = Some ?refs"
    by (simp add: wait_for_completion_Some drop_own_ref_eq amc_pci_release_eq new_refs_def)
  then have "life_step ?s (?s\<lparr>lf_refs := ?refs, lf_phase := Gone\<rparr>)" by (intro life_step.drained) simp_all
  with s life_reach.intros have "life_reach (?s\<lparr>lf_refs := ?refs, lf_phase := Gone\<rparr>)" by blast
  from release_is_safe [OF this] show ?thesis
    by (simp add: get_ref_def atomic_inc_not_zero_def split: if_splits)
qed

text \<open>
  Removal is not stuck and is not premature. \<^verbatim>\<open>wait_for_clients\<close>, called while \<open>n\<close> handles are
  open, returns after exactly those \<open>n\<close> have been closed, and not when fewer have been.
\<close>

theorem wait_for_clients_exact:
  assumes "life_reach s" and "lf_phase s = Live" and "closes \<le> lf_open s"
  shows "wait_for_clients closes (lf_refs s) \<noteq> None \<longleftrightarrow> closes = lf_open s"
  using life_reach_ok [OF assms(1)] assms(2,3)
  by (intro wait_for_clients_counts) (simp_all add: life_ok_def)

theorem wait_for_clients_exact_witness:
  "wait_for_clients 0 new_refs \<noteq> None"
  using wait_for_clients_exact [OF life_reach.start, of 0] by (simp add: life_start_def)

end
