(* ===== verification/Registers.thy ===== *)
theory Registers
  imports Interrupts Lifecycle
begin

text \<open>
  \<^verbatim>\<open>registers.c\<close>: the register device. Opening takes a reader slot and counts the file in,
  unless another file holds the exclusive lock; the theory models open, release, mmap, the
  lock and unlock requests, the ioctl dispatcher, read and poll, on the state they share.
  The locale \<open>exclusive_lock\<close> states the contract of the lock.
\<close>

section \<open>Data\<close>

text \<open>\<^verbatim>\<open>struct register_locking\<close>; the owner is the address of a context.\<close>

record register_locking =
  lk_mutex :: bool
  lk_reference_count :: u32
  lk_locked_by :: "nat option"

text \<open>
  \<^verbatim>\<open>struct register_context\<close>. Its pointers to the interrupt controller and to the locking
  structure are the two components of the board below.
\<close>

record register_context =
  rc_base_page :: u64
  rc_length :: u64
  rc_reader_number :: nat

text \<open>
  The state the register files of one board share: locking structure, interrupt controller,
  the live contexts by address, and the count of open handles.
\<close>

record reg_board =
  rb_locking :: register_locking
  rb_interrupts :: interrupt_control
  rb_contexts :: "nat \<Rightarrow> register_context option"
  rb_refs :: file_refs

definition mutex_lock :: "register_locking \<Rightarrow> register_locking" where
  "mutex_lock l = l\<lparr>lk_mutex := True\<rparr>"

definition mutex_unlock :: "register_locking \<Rightarrow> register_locking" where
  "mutex_unlock l = l\<lparr>lk_mutex := False\<rparr>"

text \<open>The ioctl numbers: \<^verbatim>\<open>_IOC(_IOC_WRITE, 'L', n, 0)\<close>.\<close>

definition AMC_IOCTL :: "u32 \<Rightarrow> u32" where
  "AMC_IOCTL n = push_bit 30 1 OR push_bit 8 0x4C OR n OR push_bit 16 0"

definition AMC_MAP_SIZE :: u32 where "AMC_MAP_SIZE = AMC_IOCTL 0"
definition AMC_BUF_SIZE :: u32 where "AMC_BUF_SIZE = AMC_IOCTL 1"
definition AMC_REG_LOCK :: u32 where "AMC_REG_LOCK = AMC_IOCTL 2"
definition AMC_REG_UNLOCK :: u32 where "AMC_REG_UNLOCK = AMC_IOCTL 3"
definition AMC_DMA_AREA_SIZE :: u32 where "AMC_DMA_AREA_SIZE = AMC_IOCTL 4"

section \<open>Open and release\<close>

text \<open>
  Open, given what the PCI layer says of BAR0 (start and length) and what \<^verbatim>\<open>kmalloc\<close> returns. The
  result is the address of the new context, which becomes the file's private data.
\<close>

definition amc_pci_reg_open :: "u64 \<Rightarrow> u64 \<Rightarrow> nat kptr \<Rightarrow> reg_board \<Rightarrow> nat res \<times> reg_board" where
  "amc_pci_reg_open bar0_start bar0_len kmalloc b =
     (case assign_reader_number (rb_interrupts b) of
        (None, intc) \<Rightarrow> (Inl EIO, b\<lparr>rb_interrupts := intc\<rparr>)
      | (Some reader_number, intc) \<Rightarrow>
          let b = b\<lparr>rb_interrupts := intc\<rparr>
          in (case test_ptr kmalloc of
                Inl e \<Rightarrow> (Inl e, b\<lparr>rb_interrupts := unassign_reader_number reader_number (rb_interrupts b)\<rparr>)
              | Inr context \<Rightarrow>
                  let b = b\<lparr>rb_contexts := (rb_contexts b)(context \<mapsto>
                            \<lparr>rc_base_page = drop_bit 12 bar0_start, rc_length = bar0_len,
                             rc_reader_number = reader_number\<rparr>)\<rparr>;
                      locking = mutex_lock (rb_locking b)
                  in if lk_locked_by locking \<noteq> None then
                       (Inl EBUSY,
                        b\<lparr>rb_locking := mutex_unlock locking,
                          rb_contexts := (rb_contexts b)(context := None),
                          rb_interrupts := unassign_reader_number reader_number (rb_interrupts b)\<rparr>)
                     else
                       (Inr context,
                        b\<lparr>rb_locking := mutex_unlock
                            (locking\<lparr>lk_reference_count := lk_reference_count locking + 1\<rparr>)\<rparr>)))"

text \<open>Release of the file with the given context, which is live as long as the file is open.\<close>

definition amc_pci_reg_release :: "nat \<Rightarrow> reg_board \<Rightarrow> reg_board" where
  "amc_pci_reg_release context b =
     (case rb_contexts b context of
        None \<Rightarrow> b
      | Some ctx \<Rightarrow>
          let locking = mutex_lock (rb_locking b);
              locking = (if lk_locked_by locking = Some context then locking\<lparr>lk_locked_by := None\<rparr> else locking);
              locking = locking\<lparr>lk_reference_count := lk_reference_count locking - 1\<rparr>;
              b = b\<lparr>rb_locking := mutex_unlock locking\<rparr>;
              b = b\<lparr>rb_interrupts := unassign_reader_number (rc_reader_number ctx) (rb_interrupts b)\<rparr>;
              b = b\<lparr>rb_contexts := (rb_contexts b)(context := None)\<rparr>
          in b\<lparr>rb_refs := amc_pci_release (rb_refs b)\<rparr>)"

section \<open>Mapping\<close>

text \<open>
  \<open>io_remap\<close> is \<^verbatim>\<open>io_remap_pfn_range\<close>, with the first address, the first page frame and the size.
\<close>

record vm_area =
  vm_start :: u64
  vm_end :: u64
  vm_pgoff :: u64

definition amc_pci_reg_mmap ::
    "(u64 \<Rightarrow> u64 \<Rightarrow> u64 \<Rightarrow> unit res) \<Rightarrow> register_context \<Rightarrow> vm_area \<Rightarrow> unit res"
where
  "amc_pci_reg_mmap io_remap context vma =
     (let size = vm_end vma - vm_start vma;
          end_at = push_bit 12 (vm_pgoff vma) + size
      in if end_at > rc_length context then Inl EINVAL
         else io_remap (vm_start vma) (rc_base_page context + vm_pgoff vma) size)"

section \<open>Exclusive access\<close>

definition lock_register :: "nat \<Rightarrow> register_locking \<Rightarrow> unit res \<times> register_locking" where
  "lock_register context locking =
     (let locking = mutex_lock locking;
          (rc, locking) =
            (if lk_reference_count locking > 1 then (Inl EBUSY, locking)
             else if lk_locked_by locking \<noteq> None then (Inl EBUSY, locking)
             else (Inr (), locking\<lparr>lk_locked_by := Some context\<rparr>))
      in (rc, mutex_unlock locking))"

definition unlock_register :: "nat \<Rightarrow> register_locking \<Rightarrow> unit res \<times> register_locking" where
  "unlock_register context locking =
     (let locking = mutex_lock locking;
          (rc, locking) =
            (if lk_locked_by locking = Some context then (Inr (), locking\<lparr>lk_locked_by := None\<rparr>)
             else (Inl EINVAL, locking))
      in (rc, mutex_unlock locking))"

definition amc_pci_reg_ioctl ::
    "nat \<Rightarrow> register_context \<Rightarrow> u32 \<Rightarrow> register_locking \<Rightarrow> u64 res \<times> register_locking"
where
  "amc_pci_reg_ioctl context ctx cmd locking =
     (if cmd = AMC_MAP_SIZE then (Inr (rc_length ctx), locking)
      else if cmd = AMC_REG_LOCK then
        (let (rc, locking) = lock_register context locking in (map_sum id (\<lambda>_. 0) rc, locking))
      else if cmd = AMC_REG_UNLOCK then
        (let (rc, locking) = unlock_register context locking in (map_sum id (\<lambda>_. 0) rc, locking))
      else (Inl EINVAL, locking))"

section \<open>Events\<close>

text \<open>
  Read: the number of bytes or an error, what was stored in the user's buffer, and the
  interrupt controller. \<open>between\<close> is what other threads do between the check and the read,
  \<open>sched\<close> the schedule of a blocking read, and \<open>copy_fails\<close> says whether \<^verbatim>\<open>copy_to_user\<close> could
  not copy everything. \<open>None\<close>: still asleep.
\<close>

definition amc_pci_reg_read ::
    "register_context \<Rightarrow> bool \<Rightarrow> u64 \<Rightarrow> wake list \<Rightarrow> wake list list \<Rightarrow> bool \<Rightarrow> interrupt_control \<Rightarrow>
       (u64 res \<times> u32 option \<times> interrupt_control) option"
where
  "amc_pci_reg_read ctx no_wait count between sched copy_fails intc =
     (if no_wait \<and> \<not> interrupt_events_ready intc (rc_reader_number ctx) then Some (Inl EAGAIN, None, intc)
      else let intc = fold wake_effect between intc
      in if count < 4 then Some (Inl EIO, None, intc)
      else case read_interrupt_events intc no_wait (rc_reader_number ctx) sched of
             None \<Rightarrow> None
           | Some (Inl e, intc, _) \<Rightarrow> Some (Inl e, None, intc)
           | Some (Inr events, intc, _) \<Rightarrow>
               if copy_fails then Some (Inl EFAULT, None, intc)
               else if events = 0 then Some (Inl EAGAIN, Some events, intc)
               else Some (Inr 4, Some events, intc))"

definition POLLIN :: u32 where "POLLIN = 0x0001"
definition POLLRDNORM :: u32 where "POLLRDNORM = 0x0040"

definition amc_pci_reg_poll :: "register_context \<Rightarrow> interrupt_control \<Rightarrow> u32" where
  "amc_pci_reg_poll ctx intc =
     (if interrupt_events_ready intc (rc_reader_number ctx) then POLLIN OR POLLRDNORM else 0)"

section \<open>The life of the register files\<close>

text \<open>
  The operations as steps on the shared state. A successful \<^verbatim>\<open>kmalloc\<close> returns an address that is
  not in use.
\<close>

inductive reg_step :: "reg_board \<Rightarrow> reg_board \<Rightarrow> bool" where
  step_open: "amc_pci_reg_open start len p b = (r, b') \<Longrightarrow> (\<forall>a. p = Ptr a \<longrightarrow> rb_contexts b a = None) \<Longrightarrow>
    reg_step b b'"
| step_release: "rb_contexts b a \<noteq> None \<Longrightarrow> reg_step b (amc_pci_reg_release a b)"
| step_ioctl: "rb_contexts b a = Some ctx \<Longrightarrow>
    amc_pci_reg_ioctl a ctx cmd (rb_locking b) = (r, l) \<Longrightarrow> reg_step b (b\<lparr>rb_locking := l\<rparr>)"
| step_read: "rb_contexts b a = Some ctx \<Longrightarrow>
    amc_pci_reg_read ctx no_wait count [] [] fails (rb_interrupts b) = Some (r, u, intc) \<Longrightarrow>
    reg_step b (b\<lparr>rb_interrupts := intc\<rparr>)"
| step_isr: "amc_pci_isr pf (rb_interrupts b) tr = (intc, tr') \<Longrightarrow> reg_step b (b\<lparr>rb_interrupts := intc\<rparr>)"

definition reg_start :: "reg_board \<Rightarrow> bool" where
  "reg_start b \<longleftrightarrow> rb_locking b = \<lparr>lk_mutex = False, lk_reference_count = 0, lk_locked_by = None\<rparr> \<and>
     (\<exists>dma. rb_interrupts b = new_interrupt_control dma) \<and> rb_contexts b = (\<lambda>_. None)"

inductive reg_reach :: "reg_board \<Rightarrow> bool" where
  reach_start: "reg_start b \<Longrightarrow> reg_reach b"
| reach_step: "reg_reach b \<Longrightarrow> reg_step b b' \<Longrightarrow> reg_reach b'"

text \<open>
  The invariant: every live context owns one of the eight reader slots and all slots in use are
  owned, the reference count is the number of live contexts, and the lock, if it is held, is
  held by the only one.
\<close>

definition reg_ok :: "reg_board \<Rightarrow> bool" where
  "reg_ok b \<longleftrightarrow> intc_ok (rb_interrupts b) \<and> finite (dom (rb_contexts b)) \<and>
     inj_on (\<lambda>a. rc_reader_number (the (rb_contexts b a))) (dom (rb_contexts b)) \<and>
     (\<lambda>a. rc_reader_number (the (rb_contexts b a))) ` dom (rb_contexts b) = active_set (rb_interrupts b) \<and>
     unat (lk_reference_count (rb_locking b)) = card (dom (rb_contexts b)) \<and>
     (\<forall>a. lk_locked_by (rb_locking b) = Some a \<longrightarrow> dom (rb_contexts b) = {a}) \<and>
     \<not> lk_mutex (rb_locking b)"

section \<open>Interface: a lock for exclusive use\<close>

text \<open>
  A lock on a shared device: while it is held its owner is the only user, nobody joins while it
  is held, and it does not pass from one owner to another without being free in between.
\<close>

locale exclusive_lock =
  fixes ok :: "'s \<Rightarrow> bool"
    and users :: "'s \<Rightarrow> 'a set"
    and owner :: "'s \<Rightarrow> 'a option"
    and step :: "'s \<Rightarrow> 's \<Rightarrow> bool"
  assumes ok_step: "ok s \<Longrightarrow> step s s' \<Longrightarrow> ok s'"
    and sole: "ok s \<Longrightarrow> owner s = Some a \<Longrightarrow> users s = {a}"
    and join: "ok s \<Longrightarrow> step s s' \<Longrightarrow> \<not> users s' \<subseteq> users s \<Longrightarrow> owner s = None"
    and hand_over: "ok s \<Longrightarrow> step s s' \<Longrightarrow> owner s = Some a \<Longrightarrow> owner s' \<in> {None, Some a}"
begin

lemma ok_run: "step\<^sup>*\<^sup>* s s' \<Longrightarrow> ok s \<Longrightarrow> ok s'"
  by (induction rule: rtranclp_induct) (auto intro: ok_step)

lemma other_owner_excluded: "ok s \<Longrightarrow> owner s = Some a \<Longrightarrow> b \<in> users s \<Longrightarrow> b = a"
  using sole by fastforce

lemma locked_step: "ok s \<Longrightarrow> step s s' \<Longrightarrow> owner s = Some a \<Longrightarrow> users s' \<subseteq> {a}"
  using join [of s s'] sole [of s a] by auto

text \<open>Until somebody else owns it, the lock has been free in between.\<close>

lemma lock_freed_between:
  assumes "step\<^sup>*\<^sup>* s s'" and "ok s" and "owner s = Some a" and "owner s' = Some b" and "a \<noteq> b"
  shows "\<exists>m. step\<^sup>*\<^sup>* s m \<and> step\<^sup>*\<^sup>* m s' \<and> owner m = None"
proof -
  have "owner s' = Some a \<or> (\<exists>m. step\<^sup>*\<^sup>* s m \<and> step\<^sup>*\<^sup>* m s' \<and> owner m = None)"
    using assms(1)
  proof (induction rule: rtranclp_induct)
    case base
    then show ?case using assms(3) by simp
  next
    case (step y z)
    from step.IH show ?case
    proof
      assume "owner y = Some a"
      with hand_over [OF ok_run [OF step.hyps(1) assms(2)] step.hyps(2)]
      have "owner z = None \<or> owner z = Some a" by auto
      moreover have "step\<^sup>*\<^sup>* s z" using step.hyps by (rule rtranclp.rtrancl_into_rtrancl)
      ultimately show ?thesis by blast
    next
      assume "\<exists>m. step\<^sup>*\<^sup>* s m \<and> step\<^sup>*\<^sup>* m y \<and> owner m = None"
      then show ?thesis using step.hyps(2) by (blast intro: rtranclp.rtrancl_into_rtrancl)
    qed
  qed
  with assms(4,5) show ?thesis by auto
qed

end

section \<open>Lemmas on the operations\<close>

lemma mutex_simps [simp]:
  "lk_mutex (mutex_lock l) = True" "lk_mutex (mutex_unlock l) = False"
  "lk_reference_count (mutex_lock l) = lk_reference_count l"
  "lk_reference_count (mutex_unlock l) = lk_reference_count l"
  "lk_locked_by (mutex_lock l) = lk_locked_by l" "lk_locked_by (mutex_unlock l) = lk_locked_by l"
  by (simp_all add: mutex_lock_def mutex_unlock_def)

lemma lock_register_eq:
  "lock_register a l =
     (if lk_reference_count l \<le> 1 \<and> lk_locked_by l = None
      then (Inr (), l\<lparr>lk_mutex := False, lk_locked_by := Some a\<rparr>)
      else (Inl EBUSY, l\<lparr>lk_mutex := False\<rparr>))"
  by (auto simp: lock_register_def mutex_lock_def mutex_unlock_def Let_def not_less)

lemma unlock_register_eq:
  "unlock_register a l =
     (if lk_locked_by l = Some a then (Inr (), l\<lparr>lk_mutex := False, lk_locked_by := None\<rparr>)
      else (Inl EINVAL, l\<lparr>lk_mutex := False\<rparr>))"
  by (simp add: unlock_register_def mutex_lock_def mutex_unlock_def Let_def)

lemma ioctl_distinct [simp]:
  "AMC_MAP_SIZE \<noteq> AMC_REG_LOCK" "AMC_MAP_SIZE \<noteq> AMC_REG_UNLOCK" "AMC_REG_LOCK \<noteq> AMC_REG_UNLOCK"
  "AMC_REG_LOCK \<noteq> AMC_MAP_SIZE" "AMC_REG_UNLOCK \<noteq> AMC_MAP_SIZE" "AMC_REG_UNLOCK \<noteq> AMC_REG_LOCK"
  by (simp_all add: AMC_MAP_SIZE_def AMC_REG_LOCK_def AMC_REG_UNLOCK_def AMC_IOCTL_def)

text \<open>
  Open in one equation: a slot, memory and a free lock, or the first error with nothing changed
  but the mutex and the event word of a slot that is not in use.
\<close>

lemma reg_open_ok:
  assumes "amc_pci_reg_open start len p b = (Inr a, b')"
  shows "\<exists>n intc. assign_reader_number (rb_interrupts b) = (Some n, intc) \<and> p = Ptr a \<and>
    lk_locked_by (rb_locking b) = None \<and>
    b' = b\<lparr>rb_interrupts := intc,
      rb_contexts := (rb_contexts b)(a \<mapsto> \<lparr>rc_base_page = drop_bit 12 start, rc_length = len, rc_reader_number = n\<rparr>),
      rb_locking := (rb_locking b)\<lparr>lk_mutex := False,
        lk_reference_count := lk_reference_count (rb_locking b) + 1\<rparr>\<rparr>"
  using assms
  by (auto simp: amc_pci_reg_open_def Let_def mutex_lock_def mutex_unlock_def
      split: prod.splits option.splits sum.splits if_splits)

lemma reg_open_fail:
  assumes "amc_pci_reg_open start len p b = (Inl e, b')" and "\<forall>a. p = Ptr a \<longrightarrow> rb_contexts b a = None"
  shows "rb_contexts b' = rb_contexts b \<and> rb_refs b' = rb_refs b \<and>
    rb_locking b' \<in> {rb_locking b, (rb_locking b)\<lparr>lk_mutex := False\<rparr>} \<and>
    active_set (rb_interrupts b') = active_set (rb_interrupts b) \<and>
    length (ic_events (rb_interrupts b')) = length (ic_events (rb_interrupts b)) \<and>
    (\<forall>n \<in> active_set (rb_interrupts b). ic_events (rb_interrupts b') ! n = ic_events (rb_interrupts b) ! n)"
proof (cases "assign_reader_number (rb_interrupts b)")
  case (Pair r intc)
  show ?thesis
  proof (cases r)
    case None
    with Pair assms assign_reader_number_None [of "rb_interrupts b" intc] show ?thesis
      by (auto simp: amc_pci_reg_open_def)
  next
    case (Some n)
    note n = assign_reader_number_Some [OF Pair [unfolded Some]]
    have ev: "ic_events (unassign_reader_number n c) = ic_events c" for c
      by (simp add: unassign_reader_number_def)
    have new: "n \<notin> active_set (rb_interrupts b)" using n by (simp add: active_set_def)
    then have act: "active_set (unassign_reader_number n intc) = active_set (rb_interrupts b)"
      using n by (simp add: active_set_unassign)
    have other: "\<forall>m \<in> active_set (rb_interrupts b). m \<noteq> n" using new by auto
    from assms Pair Some n other act show ?thesis
      by (auto simp: amc_pci_reg_open_def Let_def mutex_lock_def mutex_unlock_def ev fun_upd_idem
          split: sum.splits if_splits)
  qed
qed

section \<open>Preservation of the invariant\<close>

lemma reg_ok_card: "reg_ok b \<Longrightarrow> card (dom (rb_contexts b)) \<le> N_EVENT_READERS"
proof -
  assume ok: "reg_ok b"
  then have "card (dom (rb_contexts b)) = card (active_set (rb_interrupts b))"
    unfolding reg_ok_def by (metis card_image)
  moreover have "active_set (rb_interrupts b) \<subseteq> {..<N_EVENT_READERS}"
    using ok by (auto simp: reg_ok_def intc_ok_def active_set_def)
  ultimately show ?thesis
    using card_mono [of "{..<N_EVENT_READERS}" "active_set (rb_interrupts b)"] by simp
qed

lemma intc_ok_active_set:
  "intc_ok c \<longleftrightarrow> length (ic_events c) = N_EVENT_READERS \<and> active_set c \<subseteq> {..<N_EVENT_READERS}"
  by (auto simp: intc_ok_def active_set_def)

text \<open>The invariant looks at no more than these parts of the state.\<close>

lemma reg_ok_frame:
  assumes "reg_ok b" and "rb_contexts b' = rb_contexts b"
    and "lk_reference_count (rb_locking b') = lk_reference_count (rb_locking b)"
    and "lk_locked_by (rb_locking b') = lk_locked_by (rb_locking b)" and "\<not> lk_mutex (rb_locking b')"
    and "active_set (rb_interrupts b') = active_set (rb_interrupts b)"
    and "length (ic_events (rb_interrupts b')) = length (ic_events (rb_interrupts b))"
  shows "reg_ok b'"
  using assms(1) unfolding reg_ok_def intc_ok_active_set assms(2-4) assms(6,7) using assms(5) by blast

lemma reg_ok_open:
  assumes "reg_ok b" and "amc_pci_reg_open start len p b = (r, b')"
    and "\<forall>a. p = Ptr a \<longrightarrow> rb_contexts b a = None"
  shows "reg_ok b'"
proof (cases r)
  case (Inl e)
  have "\<not> lk_mutex (rb_locking b)" using assms(1) by (simp add: reg_ok_def)
  with reg_open_fail [OF assms(2) [unfolded Inl] assms(3)] show ?thesis
    by (intro reg_ok_frame [OF assms(1)]) auto
next
  case (Inr a)
  from reg_open_ok [OF assms(2) [unfolded Inr]] obtain n intc where
    assign: "assign_reader_number (rb_interrupts b) = (Some n, intc)" and p: "p = Ptr a"
    and free: "lk_locked_by (rb_locking b) = None"
    and b': "b' = b\<lparr>rb_interrupts := intc,
      rb_contexts := (rb_contexts b)(a \<mapsto> \<lparr>rc_base_page = drop_bit 12 start, rc_length = len, rc_reader_number = n\<rparr>),
      rb_locking := (rb_locking b)\<lparr>lk_mutex := False,
        lk_reference_count := lk_reference_count (rb_locking b) + 1\<rparr>\<rparr>" by blast
  note n = assign_reader_number_Some [OF assign]
  have a: "a \<notin> dom (rb_contexts b)" using assms(3) p by auto
  let ?f = "\<lambda>x. rc_reader_number (the (rb_contexts b x))"
  have img: "?f ` dom (rb_contexts b) = active_set (rb_interrupts b)" and inj: "inj_on ?f (dom (rb_contexts b))"
    using assms(1) by (auto simp: reg_ok_def)
  have eq: "rc_reader_number (the (rb_contexts b' x)) = (if x = a then n else ?f x)" for x by (simp add: b')
  have dom: "dom (rb_contexts b') = insert a (dom (rb_contexts b))" by (simp add: b')
  have n_new: "n \<notin> active_set (rb_interrupts b)" using n by (simp add: active_set_def)
  have "?f x \<noteq> n" if "x \<in> dom (rb_contexts b)" for x using n_new img that by blast
  then have "inj_on (\<lambda>x. rc_reader_number (the (rb_contexts b' x))) (dom (rb_contexts b'))"
    unfolding eq dom using inj a by (simp add: inj_on_def) metis
  moreover have "(\<lambda>x. rc_reader_number (the (rb_contexts b' x))) ` dom (rb_contexts b') = active_set (rb_interrupts b')"
  proof -
    have "(\<lambda>x. if x = a then n else ?f x) ` insert a (dom (rb_contexts b)) = insert n (?f ` dom (rb_contexts b))"
      using a by (auto simp: image_iff)
    then show ?thesis unfolding eq dom img using n by (simp add: b')
  qed
  moreover have "intc_ok intc" using assms(1) n by (auto simp: reg_ok_def intc_ok_active_set)
  moreover have "unat (lk_reference_count (rb_locking b) + 1) = card (insert a (dom (rb_contexts b)))"
    using assms(1) a reg_ok_card [OF assms(1)] by (simp add: reg_ok_def unat_u32_inc)
  ultimately show ?thesis
    using assms(1) free dom by (auto simp: reg_ok_def b')
qed

lemma reg_ok_release:
  assumes "reg_ok b" and "rb_contexts b a = Some ctx"
  shows "reg_ok (amc_pci_reg_release a b)"
proof -
  let ?b = "amc_pci_reg_release a b" and ?f = "\<lambda>x. rc_reader_number (the (rb_contexts b x))"
  have b: "rb_contexts ?b = (rb_contexts b)(a := None)"
    "rb_interrupts ?b = unassign_reader_number (rc_reader_number ctx) (rb_interrupts b)"
    "lk_mutex (rb_locking ?b) = False"
    "lk_reference_count (rb_locking ?b) = lk_reference_count (rb_locking b) - 1"
    "lk_locked_by (rb_locking ?b) = (if lk_locked_by (rb_locking b) = Some a then None else lk_locked_by (rb_locking b))"
    using assms(2) by (auto simp: amc_pci_reg_release_def Let_def)
  have img: "?f ` dom (rb_contexts b) = active_set (rb_interrupts b)" and inj: "inj_on ?f (dom (rb_contexts b))"
    using assms(1) by (auto simp: reg_ok_def)
  have a: "a \<in> dom (rb_contexts b)" "?f a = rc_reader_number ctx" using assms(2) by auto
  have "?f ` (dom (rb_contexts b) - {a}) = active_set (rb_interrupts b) - {rc_reader_number ctx}"
    using inj_on_image_set_diff [OF inj, of "dom (rb_contexts b)" "{a}"] img a by auto
  moreover have "inj_on ?f (dom (rb_contexts b) - {a})" using inj by (rule inj_on_subset) auto
  moreover have "unat (lk_reference_count (rb_locking b) - 1) = card (dom (rb_contexts b)) - 1"
    using assms(1) a by (subst unat_u32_dec) (auto simp: reg_ok_def card_gt_0_iff)
  moreover have "(\<lambda>x. rc_reader_number (the (((rb_contexts b)(a := None)) x))) ` (dom (rb_contexts b) - {a}) =
      ?f ` (dom (rb_contexts b) - {a})" by (intro image_cong) auto
  moreover have "inj_on (\<lambda>x. rc_reader_number (the (((rb_contexts b)(a := None)) x))) (dom (rb_contexts b) - {a}) =
      inj_on ?f (dom (rb_contexts b) - {a})" by (intro inj_on_cong) auto
  moreover have "intc_ok (unassign_reader_number (rc_reader_number ctx) (rb_interrupts b))"
    using assms(1) irq_step_ok [of "rb_interrupts b" "Leave (rc_reader_number ctx)"] by (simp add: reg_ok_def)
  ultimately show ?thesis
    using assms(1) a by (auto simp: reg_ok_def b active_set_unassign card_Diff_singleton)
qed

lemma reg_ok_ioctl:
  assumes "reg_ok b" and "rb_contexts b a = Some ctx"
    and "amc_pci_reg_ioctl a ctx cmd (rb_locking b) = (r, l)"
  shows "reg_ok (b\<lparr>rb_locking := l\<rparr>)"
proof -
  have sole: "dom (rb_contexts b) = {a}" if "lk_reference_count (rb_locking b) \<le> 1"
  proof -
    have "card (dom (rb_contexts b)) \<le> 1"
      using that assms(1) by (simp add: reg_ok_def word_le_nat_alt)
    moreover have "a \<in> dom (rb_contexts b)" "finite (dom (rb_contexts b))"
      using assms(1,2) by (auto simp: reg_ok_def)
    ultimately show ?thesis by (intro card_le_one_sole)
  qed
  have fields: "lk_reference_count l = lk_reference_count (rb_locking b)" "\<not> lk_mutex l"
    "lk_locked_by l \<in> {None, lk_locked_by (rb_locking b)} \<or>
       lk_reference_count (rb_locking b) \<le> 1 \<and> lk_locked_by l = Some a"
    using assms(1,3)
    by (auto simp: reg_ok_def amc_pci_reg_ioctl_def lock_register_eq unlock_register_eq Let_def split: if_splits)
  have "dom (rb_contexts b) = {x}" if "lk_locked_by l = Some x" for x
  proof (cases "lk_locked_by (rb_locking b) = Some x")
    case True
    with assms(1) show ?thesis by (simp add: reg_ok_def)
  next
    case False
    with fields(3) that sole show ?thesis by auto
  qed
  with assms(1) fields(1,2) show ?thesis by (simp add: reg_ok_def)
qed

text \<open>Reads and interrupts change events only.\<close>

lemma read_interrupt_events_frame:
  assumes "read_interrupt_events c no_wait r [] = Some (res, c', rest)"
  shows "active_set c' = active_set c \<and> length (ic_events c') = length (ic_events c)"
  using assms
  by (auto simp: read_interrupt_events_def wait_for_events_step xchg_events_def active_set_def split: if_splits)

lemma reg_ok_read:
  assumes "reg_ok b" and "amc_pci_reg_read ctx no_wait count [] [] fails (rb_interrupts b) = Some (r, u, intc)"
  shows "reg_ok (b\<lparr>rb_interrupts := intc\<rparr>)"
proof -
  have "active_set intc = active_set (rb_interrupts b) \<and> length (ic_events intc) = length (ic_events (rb_interrupts b))"
    using assms(2)
    by (auto simp: amc_pci_reg_read_def Let_def dest!: read_interrupt_events_frame
        split: if_splits option.splits sum.splits prod.splits)
  moreover have "\<not> lk_mutex (rb_locking b)" using assms(1) by (simp add: reg_ok_def)
  ultimately show ?thesis by (intro reg_ok_frame [OF assms(1)]) simp_all
qed

lemma reg_ok_isr:
  assumes "reg_ok b" and "amc_pci_isr pf (rb_interrupts b) tr = (intc, tr')"
  shows "reg_ok (b\<lparr>rb_interrupts := intc\<rparr>)"
proof -
  have "active_set intc = active_set (rb_interrupts b) \<and> length (ic_events intc) = length (ic_events (rb_interrupts b))"
    using assms(2)
    by (auto simp: amc_pci_isr_def active_set_def Let_def split: prod.splits option.splits if_splits)
  moreover have "\<not> lk_mutex (rb_locking b)" using assms(1) by (simp add: reg_ok_def)
  ultimately show ?thesis by (intro reg_ok_frame [OF assms(1)]) simp_all
qed

lemma reg_ok_start: "reg_start b \<Longrightarrow> reg_ok b"
  by (auto simp: reg_start_def reg_ok_def intc_ok_def new_interrupt_control_def active_set_def)

lemma reg_ok_step: "reg_ok b \<Longrightarrow> reg_step b b' \<Longrightarrow> reg_ok b'"
  by (erule reg_step.cases) (auto intro: reg_ok_open reg_ok_release reg_ok_ioctl reg_ok_read reg_ok_isr)

lemma reg_reach_ok: "reg_reach b \<Longrightarrow> reg_ok b"
  by (induction rule: reg_reach.induct) (auto intro: reg_ok_start reg_ok_step)

section \<open>The lock as an instance of the interface\<close>

lemma reg_step_owner:
  assumes "reg_ok b" and "reg_step b b'" and "lk_locked_by (rb_locking b) = Some a"
  shows "lk_locked_by (rb_locking b') \<in> {None, Some a} \<and> dom (rb_contexts b') \<subseteq> dom (rb_contexts b)"
  using assms(2)
proof cases
  case (step_open start len p r)
  show ?thesis
  proof (cases r)
    case (Inl e)
    with reg_open_fail step_open assms(3) show ?thesis by fastforce
  next
    case (Inr x)
    with reg_open_ok step_open(1) assms(3) show ?thesis by fastforce
  qed
next
  case (step_release x)
  then show ?thesis using assms(3) by (auto simp: amc_pci_reg_release_def Let_def split: if_splits)
next
  case (step_ioctl x ctx cmd r l)
  then show ?thesis using assms(3)
    by (auto simp: amc_pci_reg_ioctl_def lock_register_eq unlock_register_eq Let_def split: if_splits)
qed (use assms(3) in auto)

interpretation reg_lock: exclusive_lock reg_ok "\<lambda>b. dom (rb_contexts b)" "\<lambda>b. lk_locked_by (rb_locking b)" reg_step
proof (unfold_locales, goal_cases)
  case (1 s s')
  then show ?case by (rule reg_ok_step)
next
  case (2 s a)
  then show ?case by (simp add: reg_ok_def)
next
  case (3 s s')
  then show ?case using reg_step_owner [of s s'] by (cases "lk_locked_by (rb_locking s)") auto
next
  case (4 s s' a)
  then show ?case using reg_step_owner [of s s' a] by blast
qed

section \<open>Properties\<close>

text \<open>
  C25: The register files of a board. In every reachable state the reference count is the number of
  open files, at most eight; each open file has its own reader slot below eight and every slot
  in use belongs to one; the mutex is free; and the lock, if held, belongs to the only open
  file.
\<close>

theorem register_files_invariant:
  assumes "reg_reach b"
  shows "unat (lk_reference_count (rb_locking b)) = card (dom (rb_contexts b)) \<and>
    card (dom (rb_contexts b)) \<le> N_EVENT_READERS \<and>
    inj_on (\<lambda>a. rc_reader_number (the (rb_contexts b a))) (dom (rb_contexts b)) \<and>
    (\<lambda>a. rc_reader_number (the (rb_contexts b a))) ` dom (rb_contexts b) = active_set (rb_interrupts b) \<and>
    active_set (rb_interrupts b) \<subseteq> {..<N_EVENT_READERS} \<and>
    (\<forall>a. lk_locked_by (rb_locking b) = Some a \<longrightarrow> dom (rb_contexts b) = {a}) \<and>
    \<not> lk_mutex (rb_locking b)"
  using reg_reach_ok [OF assms] reg_ok_card [OF reg_reach_ok [OF assms]]
  unfolding reg_ok_def intc_ok_active_set by blast

text \<open>A fresh board, and the board after one file has been opened.\<close>

definition demo_board :: reg_board where
  "demo_board = \<lparr>rb_locking = \<lparr>lk_mutex = False, lk_reference_count = 0, lk_locked_by = None\<rparr>,
     rb_interrupts = new_interrupt_control None, rb_contexts = \<lambda>_. None, rb_refs = new_refs\<rparr>"

definition demo_board1 :: reg_board where
  "demo_board1 = snd (amc_pci_reg_open 0x4000 0x2000 (Ptr 7) demo_board)"

lemma demo_board_reach: "reg_reach demo_board" "reg_reach demo_board1"
proof -
  show start: "reg_reach demo_board"
    by (rule reach_start) (auto simp: reg_start_def demo_board_def)
  have "reg_step demo_board demo_board1"
    unfolding demo_board1_def
    by (rule step_open [OF prod.collapse [symmetric]]) (simp add: demo_board_def)
  with start show "reg_reach demo_board1" by (rule reach_step)
qed

lemma demo_board1_eq:
  "rb_contexts demo_board1 = (\<lambda>_. None)(7 \<mapsto> \<lparr>rc_base_page = 4, rc_length = 0x2000, rc_reader_number = 0\<rparr>)"
  "lk_locked_by (rb_locking demo_board1) = None" "lk_reference_count (rb_locking demo_board1) = 1"
proof -
  have "assign_reader_number (new_interrupt_control None) =
      (Some 0, snd (assign_reader_number (new_interrupt_control None)))"
    by (simp add: assign_reader_number_def new_interrupt_control_def split_beta bitmap_simps Let_def)
  then obtain intc where intc: "assign_reader_number (new_interrupt_control None) = (Some 0, intc)" by metis
  show "rb_contexts demo_board1 = (\<lambda>_. None)(7 \<mapsto> \<lparr>rc_base_page = 4, rc_length = 0x2000, rc_reader_number = 0\<rparr>)"
    "lk_locked_by (rb_locking demo_board1) = None" "lk_reference_count (rb_locking demo_board1) = 1"
    by (simp_all add: demo_board1_def amc_pci_reg_open_def demo_board_def intc Let_def)
qed

theorem register_files_invariant_witness:
  "card (dom (rb_contexts demo_board1)) = 1 \<and>
   unat (lk_reference_count (rb_locking demo_board1)) = card (dom (rb_contexts demo_board1))"
  using register_files_invariant [OF demo_board_reach(2)] by (simp add: demo_board1_eq)

text \<open>
  C21: Exclusive access. From a reachable state in which a file holds the lock: no step adds
  another open file, and an attempt to open one fails, for want of a slot, of memory, or
  with \<^verbatim>\<open>EBUSY\<close>; and if later another file holds the lock, then in between nobody held it.
\<close>

theorem exclusive_access:
  assumes "reg_reach b" and "lk_locked_by (rb_locking b) = Some a"
  shows "(\<forall>b'. reg_step b b' \<longrightarrow> dom (rb_contexts b') \<subseteq> {a}) \<and>
    (\<forall>start len p x b'. amc_pci_reg_open start len p b \<noteq> (Inr x, b')) \<and>
    (\<forall>start len x. rb_contexts b x = None \<and> active_set (rb_interrupts b) \<noteq> {..<N_EVENT_READERS} \<longrightarrow>
       fst (amc_pci_reg_open start len (Ptr x) b) = Inl EBUSY) \<and>
    (\<forall>b' c. reg_step\<^sup>*\<^sup>* b b' \<and> lk_locked_by (rb_locking b') = Some c \<and> c \<noteq> a \<longrightarrow>
       (\<exists>m. reg_step\<^sup>*\<^sup>* b m \<and> reg_step\<^sup>*\<^sup>* m b' \<and> lk_locked_by (rb_locking m) = None))"
proof (intro conjI allI impI)
  note ok = reg_reach_ok [OF assms(1)]
  fix b'
  assume "reg_step b b'"
  then show "dom (rb_contexts b') \<subseteq> {a}" using reg_lock.locked_step [OF ok _ assms(2)] by blast
next
  fix start len p x b'
  show "amc_pci_reg_open start len p b \<noteq> (Inr x, b')" using reg_open_ok assms(2) by fastforce
next
  fix start len and x :: nat
  assume x: "rb_contexts b x = None \<and> active_set (rb_interrupts b) \<noteq> {..<N_EVENT_READERS}"
  have "active_set (rb_interrupts b) \<subseteq> {..<N_EVENT_READERS}"
    using reg_reach_ok [OF assms(1)] by (simp add: reg_ok_def intc_ok_active_set)
  then have "fst (assign_reader_number (rb_interrupts b)) \<noteq> None"
    using x assign_reader_number_None [of "rb_interrupts b"] by (cases "assign_reader_number (rb_interrupts b)") auto
  then show "fst (amc_pci_reg_open start len (Ptr x) b) = Inl EBUSY"
    using assms(2) by (auto simp: amc_pci_reg_open_def Let_def split: prod.splits option.splits)
next
  fix b' c
  assume "reg_step\<^sup>*\<^sup>* b b' \<and> lk_locked_by (rb_locking b') = Some c \<and> c \<noteq> a"
  then show "\<exists>m. reg_step\<^sup>*\<^sup>* b m \<and> reg_step\<^sup>*\<^sup>* m b' \<and> lk_locked_by (rb_locking m) = None"
    using reg_lock.lock_freed_between [OF _ reg_reach_ok [OF assms(1)] assms(2)] by blast
qed

text \<open>The lock request of the first file of the example board succeeds.\<close>

definition demo_board2 :: reg_board where
  "demo_board2 = demo_board1\<lparr>rb_locking := snd (amc_pci_reg_ioctl 7
     \<lparr>rc_base_page = 4, rc_length = 0x2000, rc_reader_number = 0\<rparr> AMC_REG_LOCK (rb_locking demo_board1))\<rparr>"

lemma demo_board2_locked: "reg_reach demo_board2" "lk_locked_by (rb_locking demo_board2) = Some 7"
  "rb_contexts demo_board2 = rb_contexts demo_board1"
proof -
  have "reg_step demo_board1 demo_board2"
    unfolding demo_board2_def
    by (rule step_ioctl [OF _ prod.collapse [symmetric]]) (simp add: demo_board1_eq)
  with demo_board_reach(2) show "reg_reach demo_board2" by (rule reach_step)
  show "lk_locked_by (rb_locking demo_board2) = Some 7" "rb_contexts demo_board2 = rb_contexts demo_board1"
    by (simp_all add: demo_board2_def amc_pci_reg_ioctl_def lock_register_eq demo_board1_eq)
qed

theorem exclusive_access_witness:
  "\<forall>start len p x b'. amc_pci_reg_open start len p demo_board2 \<noteq> (Inr x, b')"
  using exclusive_access [OF demo_board2_locked(1,2)] by blast

text \<open>
  Outcomes of the lock requests. For an open file in a reachable state: locking succeeds
  exactly if the file is the only one open and the lock is free, and then the file owns it;
  otherwise it fails with \<^verbatim>\<open>EBUSY\<close>. Unlocking succeeds exactly if the file owns the lock, which
  is then free; otherwise it fails with \<^verbatim>\<open>EINVAL\<close>. A failed request changes nothing, and other
  request numbers than the three known ones are refused.
\<close>

theorem lock_requests:
  assumes "reg_reach b" and "rb_contexts b a = Some ctx"
  shows "amc_pci_reg_ioctl a ctx AMC_REG_LOCK (rb_locking b) =
      (if dom (rb_contexts b) = {a} \<and> lk_locked_by (rb_locking b) = None
       then (Inr 0, (rb_locking b)\<lparr>lk_locked_by := Some a\<rparr>) else (Inl EBUSY, rb_locking b)) \<and>
    amc_pci_reg_ioctl a ctx AMC_REG_UNLOCK (rb_locking b) =
      (if lk_locked_by (rb_locking b) = Some a
       then (Inr 0, (rb_locking b)\<lparr>lk_locked_by := None\<rparr>) else (Inl EINVAL, rb_locking b)) \<and>
    amc_pci_reg_ioctl a ctx AMC_MAP_SIZE (rb_locking b) = (Inr (rc_length ctx), rb_locking b) \<and>
    (\<forall>cmd. cmd \<notin> {AMC_MAP_SIZE, AMC_REG_LOCK, AMC_REG_UNLOCK} \<longrightarrow>
       amc_pci_reg_ioctl a ctx cmd (rb_locking b) = (Inl EINVAL, rb_locking b))"
proof -
  have ok: "reg_ok b" by (rule reg_reach_ok [OF assms(1)])
  then have mutex: "(rb_locking b)\<lparr>lk_mutex := False\<rparr> = rb_locking b" by (simp add: reg_ok_def)
  have "lk_reference_count (rb_locking b) \<le> 1 \<longleftrightarrow> card (dom (rb_contexts b)) \<le> 1"
    using ok by (simp add: reg_ok_def word_le_nat_alt)
  also have "\<dots> \<longleftrightarrow> dom (rb_contexts b) = {a}"
  proof
    assume "card (dom (rb_contexts b)) \<le> 1"
    moreover have "finite (dom (rb_contexts b))" "a \<in> dom (rb_contexts b)" using ok assms(2) by (auto simp: reg_ok_def)
    ultimately show "dom (rb_contexts b) = {a}" by (intro card_le_one_sole)
  qed simp
  finally show ?thesis
    by (simp add: amc_pci_reg_ioctl_def lock_register_eq unlock_register_eq mutex)
qed

theorem lock_requests_witness:
  "fst (amc_pci_reg_ioctl 7 \<lparr>rc_base_page = 4, rc_length = 0x2000, rc_reader_number = 0\<rparr> AMC_REG_LOCK
     (rb_locking demo_board1)) = Inr 0"
  using lock_requests [OF demo_board_reach(2), of 7] by (simp add: demo_board1_eq)

text \<open>
  C30: Mapping stays inside BAR0. For a context that open has made from a page-aligned BAR, and an
  area whose end offset does not pass 64 bits (the kernel refuses others before it asks the
  driver), either the request is refused with \<^verbatim>\<open>EINVAL\<close> because it ends behind the BAR, or
  exactly the page frames of that part of the BAR are mapped, and their last byte lies in it.
\<close>

theorem mmap_within_bar:
  assumes "rc_base_page context = drop_bit 12 bar_start" and "2 ^ 12 dvd unat bar_start"
    and "unat bar_start + unat (rc_length context) < 2 ^ 64"
    and "vm_start vma \<le> vm_end vma"
    and "unat (vm_pgoff vma) * 2 ^ 12 + unat (vm_end vma - vm_start vma) < 2 ^ 64"
  shows "let size = vm_end vma - vm_start vma; first = unat (vm_pgoff vma) * 2 ^ 12;
             pfn = rc_base_page context + vm_pgoff vma
         in (if unat (rc_length context) < first + unat size
             then amc_pci_reg_mmap io_remap context vma = Inl EINVAL
             else amc_pci_reg_mmap io_remap context vma = io_remap (vm_start vma) pfn size \<and>
               unat pfn * 2 ^ 12 = unat bar_start + first \<and>
               unat pfn * 2 ^ 12 + unat size \<le> unat bar_start + unat (rc_length context))"
proof -
  let ?size = "vm_end vma - vm_start vma" and ?first = "unat (vm_pgoff vma) * 2 ^ 12"
  let ?pfn = "rc_base_page context + vm_pgoff vma"
  have first: "unat (push_bit 12 (vm_pgoff vma)) = ?first"
    using assms(5) by (simp add: push_bit_eq_mult unat_word_ariths)
  then have end_at: "unat (push_bit 12 (vm_pgoff vma) + ?size) = ?first + unat ?size"
    using assms(5) by (subst unat_add_lem [THEN iffD1]) simp_all
  have base: "unat (rc_base_page context) = unat bar_start div 2 ^ 12"
    unfolding assms(1) drop_bit_eq_div by (simp add: unat_div)
  have pfn: "unat ?pfn = unat bar_start div 2 ^ 12 + unat (vm_pgoff vma)" if "?first + unat ?size \<le> unat (rc_length context)"
    using that assms(3) base by (subst unat_add_lem [THEN iffD1]) auto
  then have "unat ?pfn * 2 ^ 12 = unat bar_start + ?first" if "?first + unat ?size \<le> unat (rc_length context)"
    using that assms(2) by (simp add: add_mult_distrib)
  then show ?thesis
    by (auto simp: amc_pci_reg_mmap_def Let_def word_less_nat_alt end_at)
qed

theorem mmap_within_bar_witness:
  "amc_pci_reg_mmap (\<lambda>_ _ _. Inr ()) \<lparr>rc_base_page = 4, rc_length = 0x2000, rc_reader_number = 0\<rparr>
     \<lparr>vm_start = 0x7000, vm_end = 0x8000, vm_pgoff = 2\<rparr> = Inl EINVAL"
  using mmap_within_bar [of "\<lparr>rc_base_page = 4, rc_length = 0x2000, rc_reader_number = 0\<rparr>" "0x4000"
      "\<lparr>vm_start = 0x7000, vm_end = 0x8000, vm_pgoff = 2\<rparr>" "\<lambda>_ _ _. Inr ()"]
  by (simp add: Let_def)

text \<open>Without the kernel's check the sum wraps: an area far behind the BAR would be mapped.\<close>

lemma mmap_wraps_without_kernel_check:
  "amc_pci_reg_mmap (\<lambda>_ pfn _. Inl (KErr (unat pfn))) \<lparr>rc_base_page = 4, rc_length = 0x2000, rc_reader_number = 0\<rparr>
     \<lparr>vm_start = 0x7000, vm_end = 0x9000, vm_pgoff = 0xFFFFFFFFFFFFF\<rparr> = Inl (KErr 0x10000000000003)"
  by (simp add: amc_pci_reg_mmap_def)

text \<open>
  C33: Reading events. With room for four bytes and a working user buffer, a non-blocking read
  returns \<^verbatim>\<open>EAGAIN\<close> exactly if nothing is pending for this file, and otherwise four bytes: the
  whole pending word, which it clears, leaving other readers' words alone. It agrees with
  \<^verbatim>\<open>poll\<close>. A blocking read never returns four bytes with an empty word. With room for less
  than four bytes no event is taken.
\<close>

theorem reg_read_events:
  assumes "rc_reader_number ctx < length (ic_events intc)"
  shows "(4 \<le> count \<longrightarrow>
      amc_pci_reg_read ctx True count [] sched False intc =
        (if ic_events intc ! rc_reader_number ctx = 0 then Some (Inl EAGAIN, None, intc)
         else Some (Inr 4, Some (ic_events intc ! rc_reader_number ctx), snd (xchg_events (rc_reader_number ctx) intc)))) \<and>
    (amc_pci_reg_poll ctx intc = 0 \<longleftrightarrow> ic_events intc ! rc_reader_number ctx = 0) \<and>
    (\<forall>r. r \<noteq> rc_reader_number ctx \<longrightarrow>
       ic_events (snd (xchg_events (rc_reader_number ctx) intc)) ! r = ic_events intc ! r) \<and>
    ic_events (snd (xchg_events (rc_reader_number ctx) intc)) ! rc_reader_number ctx = 0 \<and>
    (\<forall>no_wait between fails r u intc'.
       amc_pci_reg_read ctx no_wait count between sched fails intc = Some (Inr r, u, intc') \<longrightarrow>
         r = 4 \<and> 4 \<le> count \<and> (\<exists>ev. u = Some ev \<and> ev \<noteq> 0)) \<and>
    (count < 4 \<longrightarrow> (\<forall>no_wait fails. \<exists>e.
       amc_pci_reg_read ctx no_wait count [] sched fails intc = Some (Inl e, None, intc)))"
proof (intro conjI allI impI)
  assume "4 \<le> count"
  then show "amc_pci_reg_read ctx True count [] sched False intc =
        (if ic_events intc ! rc_reader_number ctx = 0 then Some (Inl EAGAIN, None, intc)
         else Some (Inr 4, Some (ic_events intc ! rc_reader_number ctx), snd (xchg_events (rc_reader_number ctx) intc)))"
    by (auto simp: amc_pci_reg_read_def interrupt_events_ready_def read_interrupt_events_def split_beta)
next
  show "amc_pci_reg_poll ctx intc = 0 \<longleftrightarrow> ic_events intc ! rc_reader_number ctx = 0"
    by (simp add: amc_pci_reg_poll_def interrupt_events_ready_def POLLIN_def POLLRDNORM_def)
next
  fix no_wait between fails r u intc'
  assume "amc_pci_reg_read ctx no_wait count between sched fails intc = Some (Inr r, u, intc')"
  then show "r = 4" "4 \<le> count" "\<exists>ev. u = Some ev \<and> ev \<noteq> 0"
    by (auto simp: amc_pci_reg_read_def Let_def split: if_splits option.splits sum.splits)
next
  fix no_wait fails
  assume "count < 4"
  then show "\<exists>e. amc_pci_reg_read ctx no_wait count [] sched fails intc = Some (Inl e, None, intc)"
    by (auto simp: amc_pci_reg_read_def)
qed (use assms in simp_all)

theorem reg_read_events_witness:
  "amc_pci_reg_read \<lparr>rc_base_page = 4, rc_length = 0x2000, rc_reader_number = 0\<rparr> True 8 [] [] False
     (event_interrupt 5 demo_intc) =
   Some (Inr 4, Some 5, snd (xchg_events 0 (event_interrupt 5 demo_intc)))"
  using reg_read_events [of "\<lparr>rc_base_page = 4, rc_length = 0x2000, rc_reader_number = 0\<rparr>"
      "event_interrupt 5 demo_intc" 8 "[]"]
  by (simp add: demo_intc_def)

text \<open>Events are taken before they are copied: a bad user buffer loses them.\<close>

lemma reg_read_fault_loses_events:
  assumes "4 \<le> count" and "ic_events intc ! rc_reader_number ctx \<noteq> 0"
  shows "amc_pci_reg_read ctx no_wait count [] sched True intc =
    Some (Inl EFAULT, None, snd (xchg_events (rc_reader_number ctx) intc))"
proof -
  have "read_interrupt_events intc no_wait (rc_reader_number ctx) sched =
      Some (Inr (ic_events intc ! rc_reader_number ctx), snd (xchg_events (rc_reader_number ctx) intc), sched)"
    using assms(2) by (simp add: read_interrupt_events_def wait_for_events_step split_beta)
  with assms show ?thesis
    by (simp add: amc_pci_reg_read_def interrupt_events_ready_def not_less)
qed

end
