(* ===== verification/Memory_Dev.thy ===== *)
theory Memory_Dev
  imports Registers
begin

text \<open>
  \<^verbatim>\<open>memory.c\<close>: the memory devices. A file is a window on device memory; reads and writes go
  through the DMA buffer. The theory models open, release, read, write, seek and ioctl at the
  width the code has, and shows that no transfer leaves the window, that a read returns the
  bytes of the window, and that a sequence of reads returns all of it.
\<close>

section \<open>Data\<close>

text \<open>\<^verbatim>\<open>struct memory_context\<close>; the controller its \<^verbatim>\<open>dma\<close> points to is passed along.\<close>

record memory_context =
  mc_base :: u64
  mc_length :: u64

type_synonym mem_contexts = "nat \<Rightarrow> memory_context option"

section \<open>Open and release\<close>

definition amc_pci_dma_open :: "nat kptr \<Rightarrow> u64 \<Rightarrow> u64 \<Rightarrow> mem_contexts \<Rightarrow> nat res \<times> mem_contexts" where
  "amc_pci_dma_open kmalloc base len contexts =
     (case test_ptr kmalloc of
        Inl e \<Rightarrow> (Inl e, contexts)
      | Inr context \<Rightarrow> (Inr context, contexts(context \<mapsto> \<lparr>mc_base = base, mc_length = len\<rparr>)))"

fun amc_pci_dma_release :: "nat \<Rightarrow> mem_contexts \<times> file_refs \<Rightarrow> mem_contexts \<times> file_refs" where
  "amc_pci_dma_release context (contexts, refs) = (contexts(context := None), amc_pci_release refs)"

section \<open>Write\<close>

text \<open>
  The file position after a transfer of \<open>n\<close> bytes: a position at or behind the end starts again
  at zero.
\<close>

definition advance_pos :: "memory_context \<Rightarrow> u64 \<Rightarrow> u64 \<Rightarrow> u64" where
  "advance_pos context f_pos n =
     (let f_pos = f_pos + n in if f_pos \<ge> mc_length context then 0 else f_pos)"

text \<open>
  \<^verbatim>\<open>copy_from_user\<close> into the buffer: \<open>n\<close> bytes are asked for, \<open>left\<close> could not be copied and are
  filled with zeros.
\<close>

definition copy_from_user :: "u8 list \<Rightarrow> nat \<Rightarrow> nat \<Rightarrow> u8 list \<Rightarrow> u8 list" where
  "copy_from_user user n left buffer = memcpy_at buffer 0 (take (n - left) user @ replicate left 0)"

text \<open>
  A write of \<open>count\<close> bytes from \<open>user\<close>, of which \<open>left\<close> cannot be copied: the result, the file
  position, the controller and the trace.
\<close>

definition amc_pci_dma_write ::
    "platform \<Rightarrow> memory_context \<Rightarrow> u8 list \<Rightarrow> u64 \<Rightarrow> u64 \<Rightarrow> u64 \<times> dma_control \<times> bus \<Rightarrow>
       (u64 res \<times> u64 \<times> dma_control \<times> bus) option"
where
  "amc_pci_dma_write pf context user count left = (\<lambda>(f_pos, dma, tr).
     (let offset = f_pos
      in if offset = mc_length context then Some (Inr 0, f_pos, dma, tr)
         else if offset > mc_length context then Some (Inl EFAULT, f_pos, dma, tr)
         else if count > mc_length context - offset \<or> count > dma_buffer_size dma
           then Some (Inl EINVAL, f_pos, dma, tr)
         else
           let dma = dma_memory_lock dma;
               dma = dma\<lparr>dc_buffer := copy_from_user user (unat count) (unat left) (dma_get_buffer dma)\<rparr>;
               write_count = count - left
           in if \<not> 0 < sint write_count then Some (Inl EFAULT, f_pos, dma_memory_unlock dma, tr)
              else do {
                (r, dma, tr) \<leftarrow> dma_operation_unlocked pf dma (mc_base context + offset) count DMA_TO_DEVICE tr;
                (case r of
                   Inl e \<Rightarrow> Some (Inl e, f_pos, dma_memory_unlock dma, tr)
                 | Inr dma_write_count \<Rightarrow>
                     if \<not> 0 < sint dma_write_count
                     then Some (Inr dma_write_count, f_pos, dma_memory_unlock dma, tr)
                     else let dma = dma_memory_unlock dma
                          in Some (Inr dma_write_count, advance_pos context f_pos dma_write_count, dma, tr))
              }))"

section \<open>Read\<close>

text \<open>
  A read of \<open>count\<close> bytes: the result, what was stored in the user's buffer, the file position,
  the controller and the trace. \<open>left n\<close> is what \<^verbatim>\<open>copy_to_user\<close> returns when asked to copy \<open>n\<close>
  bytes: how many it could not copy. The first definition is the part of the function before
  the lock: the address and the byte count of the transfer.
\<close>

definition dma_read_extent :: "memory_context \<Rightarrow> dma_control \<Rightarrow> u64 \<Rightarrow> u64 \<Rightarrow> u64 \<times> u64 \<times> u64" where
  "dma_read_extent context dma offset count =
     (let alignment = dma_get_alignment dma;
          in_offset = offset AND (alignment - 1);
          dma_addr = mc_base context + offset - in_offset;
          dma_count = ALIGN (count + in_offset) alignment;
          dma_count = (if dma_addr + dma_count > mc_base context + mc_length context
                       then ALIGN_DOWN (mc_base context + mc_length context - dma_addr) alignment
                       else dma_count)
      in (in_offset, dma_addr, dma_count))"

definition amc_pci_dma_read ::
    "platform \<Rightarrow> memory_context \<Rightarrow> u64 \<Rightarrow> (u64 \<Rightarrow> u64) \<Rightarrow> u64 \<times> dma_control \<times> bus \<Rightarrow>
       (u64 res \<times> u8 list \<times> u64 \<times> dma_control \<times> bus) option"
where
  "amc_pci_dma_read pf context count left = (\<lambda>(f_pos, dma, tr).
     (let offset = f_pos
      in if offset = mc_length context then Some (Inr 0, [], f_pos, dma, tr)
         else if offset > mc_length context then Some (Inl EFAULT, [], f_pos, dma, tr)
         else
           let (in_offset, dma_addr, dma_count) = dma_read_extent context dma offset count
           in if dma_count = 0 then Some (Inl EFAULT, [], f_pos, dma, tr)
              else do {
                (r, dma, tr) \<leftarrow> dma_operation_unlocked pf (dma_memory_lock dma) dma_addr dma_count DMA_FROM_DEVICE tr;
                (case r of
                   Inl e \<Rightarrow> Some (Inl e, [], f_pos, dma_memory_unlock dma, tr)
                 | Inr dma_read_count \<Rightarrow>
                     if \<not> 0 < sint dma_read_count
                     then Some (Inr dma_read_count, [], f_pos, dma_memory_unlock dma, tr)
                     else
                       let user_count = min count (dma_read_count - in_offset);
                           user_count = user_count - left user_count
                       in if \<not> 0 < sint user_count then Some (Inl EFAULT, [], f_pos, dma_memory_unlock dma, tr)
                          else Some (Inr user_count,
                                 take (unat user_count) (drop (unat in_offset) (dma_get_buffer dma)),
                                 advance_pos context f_pos user_count, dma_memory_unlock dma, tr))
              }))"

section \<open>Seek and ioctl\<close>

text \<open>\<open>llseek_size\<close> is the kernel's \<^verbatim>\<open>generic_file_llseek_size\<close>: position, whence, maximum and end.\<close>

definition amc_pci_dma_llseek ::
    "(u64 \<Rightarrow> int \<Rightarrow> u64 \<Rightarrow> u64 \<Rightarrow> u64 res) \<Rightarrow> memory_context \<Rightarrow> u64 \<Rightarrow> int \<Rightarrow> u64 res"
where
  "amc_pci_dma_llseek llseek_size context f_pos whence =
     llseek_size f_pos whence (mc_length context) (mc_length context)"

definition amc_pci_mem_ioctl :: "memory_context \<Rightarrow> dma_control \<Rightarrow> u32 \<Rightarrow> u64 res" where
  "amc_pci_mem_ioctl context dma cmd =
     (if cmd = AMC_BUF_SIZE then Inr (dma_buffer_size dma)
      else if cmd = AMC_DMA_AREA_SIZE then Inr (mc_length context)
      else Inl EINVAL)"

section \<open>What the properties are about\<close>

text \<open>
  The windows and requests for which the 64-bit arithmetic does not wrap: the alignment is at
  most 2 GB, the window ends below half the address space, and the kernel limits the count of
  one read or write to less than 2 GB.
\<close>

definition window_ok :: "dma_control \<Rightarrow> memory_context \<Rightarrow> bool" where
  "window_ok dma context \<longleftrightarrow> dma_valid dma \<and> \<not> dc_mutex dma \<and>
     (\<exists>s \<le> 31. dc_alignment dma = 2 ^ s) \<and> unat (mc_base context) + unat (mc_length context) < 2 ^ 63"

definition count_ok :: "u64 \<Rightarrow> bool" where
  "count_ok count \<longleftrightarrow> unat count < 2 ^ 31"

text \<open>The requests a trace adds to another.\<close>

definition new_requests :: "bus \<Rightarrow> bus \<Rightarrow> (u64 \<times> u64 \<times> u32) list" where
  "new_requests tr tr' = drop (length (dma_requests tr)) (dma_requests tr')"

text \<open>The same with what the buffer held when it was handed over for the request.\<close>

definition new_sent :: "bus \<Rightarrow> bus \<Rightarrow> ((u64 \<times> u64 \<times> u32) \<times> u8 list) list" where
  "new_sent tr tr' = drop (length (dma_sent tr)) (dma_sent tr')"

text \<open>A request lies, on the device side, in the window; the buffer side is the whole buffer's start.\<close>

definition request_in_window :: "memory_context \<Rightarrow> dma_control \<Rightarrow> dma_dir \<Rightarrow> u64 \<times> u64 \<times> u32 \<Rightarrow> bool" where
  "request_in_window context dma dir = (\<lambda>(src, dst, n).
     (let (device, host) = (if dir = DMA_TO_DEVICE then (dst, src) else (src, dst))
      in host = dc_buffer_dma dma \<and> unat n \<le> length (dc_buffer dma) \<and>
         unat (mc_base context) \<le> unat device \<and>
         unat device + unat n \<le> unat (mc_base context) + unat (mc_length context)))"

text \<open>The bytes of device memory \<open>mem\<close> in a window.\<close>

definition window_bytes :: "(u64 \<Rightarrow> u8) \<Rightarrow> memory_context \<Rightarrow> nat \<Rightarrow> nat \<Rightarrow> u8 list" where
  "window_bytes mem context from n = map (\<lambda>i. mem (mc_base context + of_nat (from + i))) [0..<n]"

section \<open>Lemmas on the extent of a read\<close>

lemma unat_add_u64: "unat x + unat y < 2 ^ 64 \<Longrightarrow> unat (x + y :: u64) = unat x + unat y"
  by (subst unat_add_lem [THEN iffD1]) simp_all

lemma unat_sub_u64: "unat y \<le> unat x \<Longrightarrow> unat (x - y :: u64) = unat x - unat y"
  by (simp add: unat_sub word_le_nat_alt)

text \<open>The next multiple of an alignment, in the natural numbers.\<close>

definition round_up :: "nat \<Rightarrow> nat \<Rightarrow> nat" where
  "round_up a x = (x + (a - 1)) div a * a"

lemma round_up_bounds: "0 < a \<Longrightarrow> x \<le> round_up a x \<and> round_up a x < x + a"
proof -
  assume "0 < a"
  then have "(x + (a - 1)) mod a < a" by simp
  with \<open>0 < a\<close> show ?thesis
    unfolding round_up_def minus_mod_eq_div_mult [symmetric] by linarith
qed

lemma round_up_dvd: "a dvd round_up a x"
  by (simp add: round_up_def)

lemma round_up_pos: "0 < a \<Longrightarrow> 0 < x \<Longrightarrow> 0 < round_up a x"
  using round_up_bounds [of a x] by simp

lemma pow2_le_31: "s \<le> 31 \<Longrightarrow> (2 :: nat) ^ s \<le> 2 ^ 31"
  by (rule power_increasing) simp_all

text \<open>
  The extent of a read in natural numbers: the part of the offset below the alignment, the
  aligned address, and the count rounded up, or cut to what the window has left.
\<close>

lemma dma_read_extent_nat:
  assumes "window_ok dma context" and "count_ok count" and "unat offset < unat (mc_length context)"
    and "dc_alignment dma = 2 ^ s" and "s \<le> 31"
    and "dma_read_extent context dma offset count = (in_offset, dma_addr, dma_count)"
  shows "unat in_offset = unat offset mod 2 ^ s \<and>
    unat dma_addr = unat (mc_base context) + (unat offset - unat offset mod 2 ^ s) \<and>
    unat dma_count =
      (let want = round_up (2 ^ s) (unat count + unat offset mod 2 ^ s);
           avail = unat (mc_length context) - (unat offset - unat offset mod 2 ^ s)
       in if want > avail then avail div 2 ^ s * 2 ^ s else want)"
proof -
  let ?b = "unat (mc_base context)" and ?l = "unat (mc_length context)" and ?io = "unat offset mod 2 ^ s"
  let ?want = "round_up (2 ^ s) (unat count + ?io)"
  have bl: "?b + ?l < 2 ^ 63" using assms(1) by (simp add: window_ok_def)
  have s31: "(2 :: nat) ^ s \<le> 2 ^ 31" by (rule pow2_le_31 [OF assms(5)])
  have "?io < 2 ^ s" and io_le: "?io \<le> unat offset" by simp_all
  from less_le_trans [OF this(1) s31] have io31: "?io < 2 ^ 31" .
  have c31: "unat count < 2 ^ 31" using assms(2) by (simp add: count_ok_def)
  have io: "unat (offset AND (2 ^ s - 1)) = ?io" by (rule unat_and_mask)
  have bo: "unat (mc_base context + offset) = ?b + unat offset"
    using bl assms(3) by (intro unat_add_u64) simp
  have "unat (offset AND (2 ^ s - 1)) \<le> unat (mc_base context + offset)"
    unfolding io bo by (rule trans_le_add2 [OF io_le])
  then have addr: "unat (mc_base context + offset - (offset AND (2 ^ s - 1))) = ?b + (unat offset - ?io)"
    using io bo io_le by (subst unat_sub_u64) (assumption, linarith)
  have ci: "unat (count + (offset AND (2 ^ s - 1))) = unat count + ?io"
    using io c31 io31 by (subst unat_add_u64) simp_all
  have want: "unat (ALIGN (count + (offset AND (2 ^ s - 1))) (2 ^ s)) = ?want"
    using assms(5) ci c31 io31 s31 by (subst ALIGN_unat) (simp_all add: round_up_def)
  have "?want < unat count + ?io + 2 ^ s" using round_up_bounds [of "2 ^ s" "unat count + ?io"] by simp
  then have want_less: "?want < 2 ^ 33" using c31 io31 s31 by simp
  have sum: "unat (mc_base context + offset - (offset AND (2 ^ s - 1)) +
      ALIGN (count + (offset AND (2 ^ s - 1))) (2 ^ s)) = ?b + (unat offset - ?io) + ?want"
    using addr want want_less bl assms(3) by (subst unat_add_u64) simp_all
  have top: "unat (mc_base context + mc_length context) = ?b + ?l"
    using bl by (intro unat_add_u64) simp
  have "unat (mc_base context + offset - (offset AND (2 ^ s - 1))) \<le> unat (mc_base context + mc_length context)"
    using addr top assms(3) by linarith
  then have avail: "unat (mc_base context + mc_length context - (mc_base context + offset - (offset AND (2 ^ s - 1)))) =
      ?l - (unat offset - ?io)"
    using addr top assms(3) by (subst unat_sub_u64) (assumption, linarith)
  have gt: "mc_base context + offset - (offset AND (2 ^ s - 1)) + ALIGN (count + (offset AND (2 ^ s - 1))) (2 ^ s) >
      mc_base context + mc_length context \<longleftrightarrow> ?want > ?l - (unat offset - ?io)"
    unfolding word_less_nat_alt sum top using assms(3) by linarith
  show ?thesis
    using assms(6) io addr want avail gt
    by (auto simp: dma_read_extent_def dma_get_alignment_def assms(4) Let_def ALIGN_DOWN_unat)
qed

lemma dma_read_extent_window:
  assumes "window_ok dma context" and "count_ok count" and "unat offset < unat (mc_length context)"
    and "dma_read_extent context dma offset count = (in_offset, dma_addr, dma_count)"
  shows "unat (mc_base context) + unat offset = unat dma_addr + unat in_offset \<and>
    unat (mc_base context) \<le> unat dma_addr \<and>
    unat dma_addr + unat dma_count \<le> unat (mc_base context) + unat (mc_length context) \<and>
    unat in_offset < unat (dc_alignment dma) \<and> IS_ALIGNED dma_count (dc_alignment dma) \<and>
    unat dma_count \<le> round_up (unat (dc_alignment dma)) (unat count + unat in_offset)"
proof -
  obtain s where s: "s \<le> 31" "dc_alignment dma = 2 ^ s" using assms(1) by (auto simp: window_ok_def)
  have p: "unat (2 ^ s :: u64) = 2 ^ s" using s(1) by (simp add: unat_pow2)
  let ?io = "unat offset mod 2 ^ s"
  let ?want = "round_up (2 ^ s) (unat count + ?io)" and ?avail = "unat (mc_length context) - (unat offset - ?io)"
  note nat = dma_read_extent_nat [OF assms(1-3) s(2,1) assms(4), unfolded Let_def]
  have div: "?avail div 2 ^ s * 2 ^ s \<le> ?avail" by (rule div_times_less_eq_dividend)
  have count: "unat dma_count = (if ?want > ?avail then ?avail div 2 ^ s * 2 ^ s else ?want)" using nat by blast
  have "unat dma_count \<le> ?avail \<and> unat dma_count \<le> ?want \<and> 2 ^ s dvd unat dma_count"
  proof (cases "?want > ?avail")
    case True
    then have c: "unat dma_count = ?avail div 2 ^ s * 2 ^ s" using count by simp
    with div True show ?thesis unfolding c by (intro conjI) (linarith, linarith, simp)
  next
    case False
    then have c: "unat dma_count = ?want" using count by simp
    with False show ?thesis unfolding c by (simp add: round_up_dvd)
  qed
  moreover have "?io < 2 ^ s" "?io \<le> unat offset" by simp_all
  ultimately have "unat (mc_base context) + unat offset = unat dma_addr + unat in_offset"
    "unat (mc_base context) \<le> unat dma_addr" "unat in_offset < 2 ^ s" "unat in_offset = ?io"
    "unat dma_addr + unat dma_count \<le> unat (mc_base context) + unat (mc_length context)"
    "2 ^ s dvd unat dma_count" "unat dma_count \<le> ?want"
    using nat assms(3) by linarith+
  then show ?thesis using s p by (simp add: IS_ALIGNED_unat)
qed

section \<open>Lemmas on the operations\<close>

lemma lock_simps [simp]:
  "dc_alignment (dma_memory_lock dma) = dc_alignment dma" "dc_buffer (dma_memory_lock dma) = dc_buffer dma"
  "dc_buffer_dma (dma_memory_lock dma) = dc_buffer_dma dma" "dc_max_transfer (dma_memory_lock dma) = dc_max_transfer dma"
  "dc_buffer_size (dma_memory_lock dma) = dc_buffer_size dma" "dc_mutex (dma_memory_lock dma) = True"
  "dc_mutex (dma_memory_unlock dma) = False" "dc_buffer (dma_memory_unlock dma) = dc_buffer dma"
  "dma_valid (dma_memory_lock dma) = dma_valid dma" "dma_valid (dma_memory_unlock dma) = dma_valid dma"
  "dc_alignment (dma_memory_unlock dma) = dc_alignment dma" "dc_buffer_dma (dma_memory_unlock dma) = dc_buffer_dma dma"
  "dc_max_transfer (dma_memory_unlock dma) = dc_max_transfer dma"
  by (simp_all add: dma_memory_lock_def dma_memory_unlock_def dma_valid_def)

lemma new_requests_simps [simp]:
  "new_requests tr tr = []"
  "dma_requests tr' = dma_requests tr \<Longrightarrow> new_requests tr tr' = []"
  "dma_requests tr' = dma_requests tr @ rs \<Longrightarrow> new_requests tr tr' = rs"
  by (simp_all add: new_requests_def)

lemma new_sent_simps [simp]:
  "new_sent tr tr = []"
  "dma_sent tr' = dma_sent tr \<Longrightarrow> new_sent tr tr' = []"
  "dma_sent tr' = dma_sent tr @ rs \<Longrightarrow> new_sent tr tr' = rs"
  by (simp_all add: new_sent_def)

text \<open>Every transfer adds no request or the one of the whole transfer.\<close>

lemma dma_operation_new_requests:
  assumes "dma_operation_unlocked pf dma start count dir tr = Some (r, dma', tr')" and "handlers_quiet pf"
  shows "new_requests tr tr' = [] \<or>
    new_requests tr tr' = [(fst (dma_ends dma start dir), snd (dma_ends dma start dir),
      ucast (min count (dc_max_transfer dma)))]"
proof (cases r)
  case (Inl e)
  from dma_operation_fail [OF assms(1) [unfolded Inl] assms(2)] show ?thesis by auto
next
  case (Inr n)
  from dma_operation_ok [OF assms(1) [unfolded Inr] assms(2)] show ?thesis by (auto simp: Let_def)
qed

lemma max_transfer_request:
  assumes "dma_valid dma"
  shows "unat (ucast (min count (dc_max_transfer dma)) :: u32) = unat (min count (dc_max_transfer dma)) \<and>
    unat (min count (dc_max_transfer dma)) \<le> length (dc_buffer dma) \<and>
    unat (min count (dc_max_transfer dma)) < 2 ^ 23 \<and>
    unat (min count (dc_max_transfer dma)) \<le> unat count"
proof -
  have "unat (min count (dc_max_transfer dma)) \<le> unat (dc_max_transfer dma)"
    "unat (min count (dc_max_transfer dma)) \<le> unat count"
    by (simp_all add: min_def word_le_nat_alt)
  moreover from this(1) have "unat (min count (dc_max_transfer dma)) < 2 ^ 23"
    using assms by (auto simp: dma_valid_def)
  ultimately show ?thesis
    using assms by (auto simp: dma_valid_def unsigned_ucast_eq take_bit_eq_mod)
qed

lemma copy_from_user_length:
  assumes "n \<le> length buffer" and "left \<le> n" and "n \<le> length user"
  shows "length (copy_from_user user n left buffer) = length buffer"
    and "take n (copy_from_user user n left buffer) = take (n - left) user @ replicate left 0"
  using assms by (simp_all add: copy_from_user_def memcpy_at_def)

section \<open>Lemmas on whole reads and writes\<close>

text \<open>
  What a read that has passed its checks does: one transfer, then at most one copy.
\<close>

lemma dma_read_cases:
  assumes "amc_pci_dma_read pf context count left (f_pos, dma, tr) = Some (r, bytes, f_pos', dma', tr')"
  shows "(r \<in> {Inr 0, Inl EFAULT} \<and> bytes = [] \<and> f_pos' = f_pos \<and> dma' = dma \<and> tr' = tr \<and>
      (r = Inr 0 \<longrightarrow> f_pos = mc_length context)) \<or>
    (\<exists>in_offset dma_addr dma_count r1 dma1.
      f_pos < mc_length context \<and>
      dma_read_extent context dma f_pos count = (in_offset, dma_addr, dma_count) \<and> dma_count \<noteq> 0 \<and>
      dma_operation_unlocked pf (dma_memory_lock dma) dma_addr dma_count DMA_FROM_DEVICE tr = Some (r1, dma1, tr') \<and>
      dma' = dma_memory_unlock dma1 \<and>
      ((\<exists>e. r = Inl e \<and> bytes = [] \<and> f_pos' = f_pos) \<or>
       (\<exists>n. r1 = Inr n \<and> \<not> 0 < sint n \<and> r = Inr n \<and> bytes = [] \<and> f_pos' = f_pos) \<or>
       (\<exists>n u. r1 = Inr n \<and> 0 < sint n \<and>
          u = min count (n - in_offset) - left (min count (n - in_offset)) \<and> 0 < sint u \<and> r = Inr u \<and>
          bytes = take (unat u) (drop (unat in_offset) (dc_buffer dma1)) \<and> f_pos' = advance_pos context f_pos u)))"
proof (cases "f_pos < mc_length context")
  case False
  with assms show ?thesis by (auto simp: amc_pci_dma_read_def split: if_splits)
next
  case True
  obtain in_offset dma_addr dma_count where
    ext: "dma_read_extent context dma f_pos count = (in_offset, dma_addr, dma_count)" by (metis prod_cases3)
  show ?thesis
  proof (cases "dma_count = 0")
    case True
    with assms ext \<open>f_pos < mc_length context\<close> show ?thesis
      by (auto simp: amc_pci_dma_read_def split: if_splits)
  next
    case False
    from assms ext False True obtain r1 dma1 tr1 where
      op: "dma_operation_unlocked pf (dma_memory_lock dma) dma_addr dma_count DMA_FROM_DEVICE tr = Some (r1, dma1, tr1)"
      by (auto simp: amc_pci_dma_read_def split: if_splits bind_splits)
    from assms ext False True op show ?thesis
      by (intro disjI2 exI [of _ in_offset] exI [of _ dma_addr] exI [of _ dma_count] exI [of _ r1] exI [of _ dma1])
        (auto simp: amc_pci_dma_read_def Let_def dma_get_buffer_def split: if_splits sum.splits)
  qed
qed

lemma dma_write_cases:
  assumes "amc_pci_dma_write pf context user count left (f_pos, dma, tr) = Some (r, f_pos', dma', tr')"
  defines "buffer \<equiv> copy_from_user user (unat count) (unat left) (dc_buffer dma)"
  shows "(r \<in> {Inr 0, Inl EFAULT, Inl EINVAL} \<and> f_pos' = f_pos \<and> tr' = tr \<and>
      (dma' = dma \<or> dma' = dma_memory_unlock (dma\<lparr>dc_buffer := buffer\<rparr>) \<and> count \<le> dc_buffer_size dma) \<and>
      (r = Inr 0 \<longrightarrow> f_pos = mc_length context)) \<or>
    (\<exists>r1 dma1.
      f_pos < mc_length context \<and> count \<le> mc_length context - f_pos \<and> count \<le> dc_buffer_size dma \<and>
      dma_operation_unlocked pf (dma_memory_lock (dma\<lparr>dc_buffer := buffer\<rparr>)) (mc_base context + f_pos) count
        DMA_TO_DEVICE tr = Some (r1, dma1, tr') \<and>
      dma' = dma_memory_unlock dma1 \<and> r = r1 \<and>
      f_pos' = (case r1 of Inr n \<Rightarrow> if 0 < sint n then advance_pos context f_pos n else f_pos | Inl _ \<Rightarrow> f_pos))"
proof -
  have swap: "(dma_memory_lock dma)\<lparr>dc_buffer := b\<rparr> = dma_memory_lock (dma\<lparr>dc_buffer := b\<rparr>)"
    "dma_memory_unlock (dma_memory_lock d) = dma_memory_unlock d" for b d
    by (simp_all add: dma_memory_lock_def dma_memory_unlock_def)
  show ?thesis
  proof (cases "f_pos < mc_length context \<and> \<not> (count > mc_length context - f_pos \<or> count > dma_buffer_size dma) \<and>
      0 < sint (count - left)")
    case False
    with assms show ?thesis
      by (auto simp: amc_pci_dma_write_def Let_def swap dma_get_buffer_def dma_buffer_size_def split: if_splits)
  next
    case True
    from assms True obtain r1 dma1 tr1 where
      op: "dma_operation_unlocked pf (dma_memory_lock (dma\<lparr>dc_buffer := buffer\<rparr>)) (mc_base context + f_pos) count
        DMA_TO_DEVICE tr = Some (r1, dma1, tr1)"
      by (auto simp: amc_pci_dma_write_def Let_def swap dma_get_buffer_def split: if_splits bind_splits)
    from assms True op show ?thesis
      by (intro disjI2 exI [of _ r1] exI [of _ dma1])
        (auto simp: amc_pci_dma_write_def Let_def swap dma_get_buffer_def dma_buffer_size_def split: if_splits sum.splits)
  qed
qed

lemma dma_ends_lock [simp]: "dma_ends (dma_memory_lock dma) start dir = dma_ends dma start dir"
  by (simp add: dma_ends_def)

lemma request_in_window_read:
  assumes "window_ok dma context" and "count_ok count" and "f_pos < mc_length context"
    and "dma_read_extent context dma f_pos count = (in_offset, dma_addr, dma_count)"
  shows "request_in_window context dma DMA_FROM_DEVICE
    (dma_addr, dc_buffer_dma dma, ucast (min dma_count (dc_max_transfer dma)))"
  using dma_read_extent_window [OF assms(1,2) _ assms(4)] assms(1,3)
    max_transfer_request [of dma dma_count]
  by (auto simp: request_in_window_def window_ok_def word_less_nat_alt)

lemma request_in_window_write:
  assumes "window_ok dma context" and "f_pos < mc_length context" and "count \<le> mc_length context - f_pos"
  shows "request_in_window context dma DMA_TO_DEVICE
    (dc_buffer_dma dma, mc_base context + f_pos, ucast (min count (dc_max_transfer dma)))"
proof -
  have bl: "unat (mc_base context) + unat (mc_length context) < 2 ^ 63" and valid: "dma_valid dma"
    using assms(1) by (auto simp: window_ok_def)
  have p: "unat f_pos < unat (mc_length context)" using assms(2) by (simp add: word_less_nat_alt)
  have "unat count \<le> unat (mc_length context) - unat f_pos"
    using assms(3) p by (simp add: word_le_nat_alt unat_sub_u64)
  moreover have "unat (mc_base context + f_pos) = unat (mc_base context) + unat f_pos"
    using bl p by (intro unat_add_u64) simp
  ultimately show ?thesis
    using max_transfer_request [OF valid, of count] p by (auto simp: request_in_window_def)
qed

text \<open>The address and the offset of a read add up, as words, to the position asked for.\<close>

lemma dma_read_extent_addr:
  "dma_read_extent context dma offset count = (in_offset, dma_addr, dma_count) \<Longrightarrow>
     dma_addr + in_offset = mc_base context + offset"
  by (auto simp: dma_read_extent_def Let_def)

lemma take_drop_map_upt:
  "i + u \<le> n \<Longrightarrow> take n b = map f [0..<n] \<Longrightarrow> take u (drop i b) = map (\<lambda>k. f (i + k)) [0..<u]"
proof -
  assume n: "i + u \<le> n" and b: "take n b = map f [0..<n]"
  have "take u (drop i b) = take u (drop i (take n b))"
    using n by (simp add: drop_take min_def)
  also have "\<dots> = map (\<lambda>k. f (i + k)) [0..<u]"
    unfolding b using n by (auto intro!: nth_equalityI)
  finally show ?thesis .
qed

text \<open>What a successful read returns, given an engine that copies.\<close>

lemma dma_read_result:
  assumes "window_ok dma context" and "count_ok count" and "handlers_quiet pf" and "buffer_stable pf"
    and "engine_copies pf mem (dc_buffer_dma dma)" and "\<forall>n. left n \<le> n"
    and "f_pos < mc_length context"
    and ext: "dma_read_extent context dma f_pos count = (in_offset, dma_addr, dma_count)"
    and op: "dma_operation_unlocked pf (dma_memory_lock dma) dma_addr dma_count DMA_FROM_DEVICE tr = Some (Inr n, dma1, tr')"
    and n: "0 < sint n"
    and u: "u = min count (n - in_offset) - left (min count (n - in_offset))"
  shows "unat u \<le> unat count \<and> unat u \<le> unat (n - in_offset) \<and> unat n = unat in_offset + unat (n - in_offset) \<and>
    unat f_pos + unat (n - in_offset) \<le> unat (mc_length context) \<and>
    take (unat u) (drop (unat in_offset) (dc_buffer dma1)) = window_bytes mem context (unat f_pos) (unat u)"
proof -
  have p: "unat f_pos < unat (mc_length context)" using assms(7) by (simp add: word_less_nat_alt)
  note w = dma_read_extent_window [OF assms(1,2) p ext]
  have valid: "dma_valid dma" using assms(1) by (simp add: window_ok_def)
  obtain s where s: "s \<le> 31" "dc_alignment dma = 2 ^ s" using assms(1) by (auto simp: window_ok_def)
  note ok = dma_operation_ok [OF op assms(3), simplified Let_def, simplified]
  have n_min: "n = min dma_count (dc_max_transfer dma)" and "IS_ALIGNED n (dc_alignment dma)" using ok by auto
  then have "2 ^ s dvd unat n" by (simp add: s IS_ALIGNED_unat)
  moreover have "n \<noteq> 0" using n by auto
  ultimately have "2 ^ s \<le> unat n" by (simp add: dvd_imp_le unat_gt_0)
  then have io_n: "unat in_offset < unat n" using w s by (simp add: unat_pow2)
  then have diff: "unat (n - in_offset) = unat n - unat in_offset" by (simp add: unat_sub_u64)
  note m = max_transfer_request [OF valid, of dma_count, folded n_min]
  have u_le: "unat u \<le> unat (min count (n - in_offset))"
    unfolding u using assms(6) by (metis diff_le_self unat_sub)
  have min_le: "unat (min count (n - in_offset)) \<le> unat count"
    "unat (min count (n - in_offset)) \<le> unat (n - in_offset)"
    by (simp_all add: min_def word_le_nat_alt)
  obtain tr0 traffic where wait: "wait_done pf tr0 = Some (traffic, Inr ())"
    and reqs: "dma_requests tr0 = dma_requests tr @ [(dma_addr, dc_buffer_dma dma, ucast n)]"
    and st: "hw pf (tr0 @ traffic @ [SyncForCpu DMA_FROM_DEVICE]) (Cdma CDMASR) AND dma_error_bits = 0"
    and dma1: "dma1 = (dma_memory_lock dma)\<lparr>dc_done := 0,
      dc_buffer := buf_after pf (tr0 @ traffic @ [SyncForCpu DMA_FROM_DEVICE]) (dc_buffer dma)\<rparr>"
    using ok by (auto simp: dma_ends_def)
  have "take (unat n) (dc_buffer dma1) = map (\<lambda>i. mem (dma_addr + of_nat i)) [0..<unat n]"
    using assms(5) [unfolded engine_copies_def, rule_format, of tr0 traffic dma_addr "ucast n" "dc_buffer dma"]
      wait reqs st m by (simp add: dma1)
  then have "take (unat u) (drop (unat in_offset) (dc_buffer dma1)) =
      map (\<lambda>k. mem (dma_addr + of_nat (unat in_offset + k))) [0..<unat u]"
    using io_n diff u_le min_le by (intro take_drop_map_upt [where n = "unat n"]) linarith+
  moreover have "dma_addr + of_nat (unat in_offset + k) = mc_base context + of_nat (unat f_pos + k)" for k
    using dma_read_extent_addr [OF ext] by (simp add: add.assoc [symmetric])
  ultimately have "take (unat u) (drop (unat in_offset) (dc_buffer dma1)) = window_bytes mem context (unat f_pos) (unat u)"
    by (simp only: window_bytes_def)
  then show ?thesis
    using u_le min_le diff io_n w m by (intro conjI) linarith+
qed

lemma advance_pos_nat:
  assumes "unat f_pos + unat n \<le> unat (mc_length context)"
  shows "unat (advance_pos context f_pos n) =
    (if unat f_pos + unat n = unat (mc_length context) then 0 else unat f_pos + unat n)"
proof -
  have "unat (f_pos + n) = unat f_pos + unat n"
    using assms unat_u64_less [of "mc_length context"] by (intro unat_add_u64) linarith
  with assms show ?thesis by (auto simp: advance_pos_def Let_def word_le_nat_alt)
qed

lemma sint_pos_u64: "unat (u :: u64) < 2 ^ 63 \<Longrightarrow> 0 < sint u \<longleftrightarrow> u \<noteq> 0"
proof -
  assume small: "unat u < 2 ^ 63"
  have nat: "uint u = int (unat u)" by (rule uint_nat)
  from small have "int (unat u) < int (2 ^ 63)" by (simp only: of_nat_less_iff)
  then have "uint u < 2 ^ 63" by (simp only: nat of_nat_power of_nat_numeral)
  then have "sint u = uint u" unfolding sint_uint
    by (intro signed_take_bit_int_eq_self) (simp_all add: order_trans [OF _ uint_ge_0])
  then show ?thesis using uint_0_iff [of u] by (simp add: less_le)
qed

section \<open>A file read from end to end\<close>

text \<open>
  A device file as its user sees it: every read returns a nonempty piece of the contents at the
  position and moves the position behind it, to zero at the end. Then reading on until the
  position is zero returns the rest of the contents.
\<close>

locale chunked_file =
  fixes ok :: "'s \<Rightarrow> bool"
    and pos :: "'s \<Rightarrow> nat"
    and content :: "'s \<Rightarrow> u8 list"
    and read :: "'s \<Rightarrow> (u8 list \<times> 's) option"
  assumes pos_less: "ok s \<Longrightarrow> pos s < length (content s)"
    and read_chunk: "ok s \<Longrightarrow> \<exists>k s'. 0 < k \<and> pos s + k \<le> length (content s) \<and>
      read s = Some (take k (drop (pos s) (content s)), s') \<and> ok s' \<and> content s' = content s \<and>
      pos s' = (if pos s + k = length (content s) then 0 else pos s + k)"
begin

fun read_all :: "nat \<Rightarrow> 's \<Rightarrow> u8 list option" where
  "read_all 0 s = None"
| "read_all (Suc fuel) s =
     (case read s of
        None \<Rightarrow> None
      | Some (bytes, s') \<Rightarrow> if pos s' = 0 then Some bytes else map_option ((@) bytes) (read_all fuel s'))"

lemma read_all_content:
  "ok s \<Longrightarrow> length (content s) - pos s \<le> fuel \<Longrightarrow> read_all fuel s = Some (drop (pos s) (content s))"
proof (induction fuel arbitrary: s)
  case 0
  with pos_less [of s] show ?case by simp
next
  case (Suc fuel)
  from read_chunk [OF Suc.prems(1)] obtain k s' where k: "0 < k" "pos s + k \<le> length (content s)"
    and rd: "read s = Some (take k (drop (pos s) (content s)), s')" and ok: "ok s'"
    and c: "content s' = content s" and p: "pos s' = (if pos s + k = length (content s) then 0 else pos s + k)" by blast
  show ?case
  proof (cases "pos s + k = length (content s)")
    case True
    then have "k = length (drop (pos s) (content s))" by simp
    then have "take k (drop (pos s) (content s)) = drop (pos s) (content s)" by simp
    with rd p True show ?thesis by simp
  next
    case False
    then have p': "pos s' = pos s + k" using p by simp
    then have "read_all fuel s' = Some (drop (pos s + k) (content s))"
      using Suc.IH [OF ok] Suc.prems(2) k c by simp
    moreover have "take k (drop (pos s) (content s)) @ drop (pos s + k) (content s) = drop (pos s) (content s)"
      by (metis append_take_drop_id drop_drop add.commute)
    ultimately show ?thesis using rd p' k by simp
  qed
qed

end

text \<open>
  The engine as it should be: transfers complete without error. A reader is a file on such a
  platform, with the window and the user's count.
\<close>

definition engine_works :: "platform \<Rightarrow> bool" where
  "engine_works pf \<longleftrightarrow> (\<forall>tr. \<exists>traffic. wait_done pf tr = Some (traffic, Inr ())) \<and>
     (\<forall>tr. hw pf tr (Cdma CDMASR) AND dma_error_bits = 0 \<and> hw pf tr (Cdma CDMASR) AND CDMASR_Idle \<noteq> 0)"

record reader =
  rd_pf :: platform
  rd_mem :: "u64 \<Rightarrow> u8"
  rd_context :: memory_context
  rd_count :: u64
  rd_pos :: u64
  rd_dma :: dma_control
  rd_tr :: bus

text \<open>
  The window begins and ends at a multiple of the alignment, the buffer is aligned, the largest
  transfer is not empty, and the user asks for at least one byte.
\<close>

definition reader_ok :: "reader \<Rightarrow> bool" where
  "reader_ok s \<longleftrightarrow>
     (let pf = rd_pf s; dma = rd_dma s; context = rd_context s in
      engine_works pf \<and> handlers_quiet pf \<and> buffer_stable pf \<and>
      engine_copies pf (rd_mem s) (dc_buffer_dma dma) \<and>
      window_ok dma context \<and> count_ok (rd_count s) \<and> rd_count s \<noteq> 0 \<and> dc_max_transfer dma \<noteq> 0 \<and>
      IS_ALIGNED (mc_base context) (dc_alignment dma) \<and> IS_ALIGNED (mc_length context) (dc_alignment dma) \<and>
      IS_ALIGNED (dc_buffer_dma dma) (dc_alignment dma) \<and> rd_pos s < mc_length context)"

definition reader_read :: "reader \<Rightarrow> (u8 list \<times> reader) option" where
  "reader_read s =
     (case amc_pci_dma_read (rd_pf s) (rd_context s) (rd_count s) (\<lambda>_. 0) (rd_pos s, rd_dma s, rd_tr s) of
        Some (Inr _, bytes, f_pos, dma, tr) \<Rightarrow> Some (bytes, s\<lparr>rd_pos := f_pos, rd_dma := dma, rd_tr := tr\<rparr>)
      | _ \<Rightarrow> None)"

definition reader_content :: "reader \<Rightarrow> u8 list" where
  "reader_content s = window_bytes (rd_mem s) (rd_context s) 0 (unat (mc_length (rd_context s)))"

fun read_whole :: "nat \<Rightarrow> reader \<Rightarrow> u8 list option" where
  "read_whole 0 s = None"
| "read_whole (Suc fuel) s =
     (case reader_read s of
        None \<Rightarrow> None
      | Some (bytes, s') \<Rightarrow>
          if unat (rd_pos s') = 0 then Some bytes else map_option ((@) bytes) (read_whole fuel s'))"

lemma engine_works_transfer:
  assumes "engine_works pf" and "dir \<in> {DMA_TO_DEVICE, DMA_FROM_DEVICE}"
    and "IS_ALIGNED start (dc_alignment dma)" "IS_ALIGNED (dc_buffer_dma dma) (dc_alignment dma)"
    "IS_ALIGNED (min count (dc_max_transfer dma)) (dc_alignment dma)"
  shows "\<exists>dma' tr'. dma_operation_unlocked pf dma start count dir tr =
    Some (Inr (min count (dc_max_transfer dma)), dma', tr')"
proof -
  have idle: "maybe_reset_dma pf tr = Some (Inr (), tr @ [Readl (Cdma CDMASR) (hw pf tr (Cdma CDMASR))])"
    "check_dma_status pf tr = (Inr (), tr @ [Readl (Cdma CDMASR) (hw pf tr (Cdma CDMASR))])" for tr
    using assms(1) by (simp_all add: engine_works_def maybe_reset_dma_def check_dma_status_def readl_def)
  have wait: "wait_done pf tr = Some (fst (the (wait_done pf tr)), Inr ())" for tr
    using assms(1) unfolding engine_works_def by (metis fst_conv option.sel)
  show ?thesis
    using assms unfolding dma_operation_step [OF assms(2)]
    by (subst wait) (auto simp: configure_dma_engine_def dma_get_alignment_def Let_def idle dma_ends_def)
qed

lemma min_aligned: "IS_ALIGNED x a \<Longrightarrow> IS_ALIGNED y a \<Longrightarrow> IS_ALIGNED (min x y) a"
  by (simp add: min_def)

lemma dma_operation_window_ok:
  assumes "window_ok dma context" and "buffer_stable pf"
    and "dma_operation_unlocked pf (dma_memory_lock dma) start count dir tr = Some (r, dma1, tr')"
  shows "window_ok (dma_memory_unlock dma1) context \<and>
    dc_alignment dma1 = dc_alignment dma \<and> dc_buffer_dma dma1 = dc_buffer_dma dma \<and>
    dc_max_transfer dma1 = dc_max_transfer dma"
proof -
  have "dma_valid dma1"
    using dma_operation_valid [OF _ assms(2,3)] assms(1) by (simp add: window_ok_def)
  with dma_operation_frame [OF assms(3)] assms(1) show ?thesis by (auto simp: window_ok_def)
qed

lemma reader_extent:
  assumes "reader_ok s"
    and "dma_read_extent (rd_context s) (rd_dma s) (rd_pos s) (rd_count s) = (in_offset, dma_addr, dma_count)"
  shows "dma_count \<noteq> 0 \<and> IS_ALIGNED dma_addr (dc_alignment (rd_dma s)) \<and>
    IS_ALIGNED dma_count (dc_alignment (rd_dma s))"
proof -
  let ?p = "unat (rd_pos s)" and ?l = "unat (mc_length (rd_context s))" and ?c = "unat (rd_count s)"
  have w: "window_ok (rd_dma s) (rd_context s)" and c: "count_ok (rd_count s)" and c0: "0 < ?c"
    and p: "?p < ?l"
    using assms(1) by (auto simp: reader_ok_def Let_def word_less_nat_alt unat_gt_0)
  obtain k where k: "k \<le> 31" "dc_alignment (rd_dma s) = 2 ^ k" using w by (auto simp: window_ok_def)
  have dvd: "2 ^ k dvd unat (mc_base (rd_context s))" "2 ^ k dvd ?l"
    using assms(1) by (simp_all add: reader_ok_def Let_def k IS_ALIGNED_unat)
  note nat = dma_read_extent_nat [OF w c p k(2,1) assms(2), unfolded Let_def]
  have base_dvd: "2 ^ k dvd ?p - ?p mod 2 ^ k" by (simp add: minus_mod_eq_div_mult)
  have addr: "unat dma_addr = unat (mc_base (rd_context s)) + (?p - ?p mod 2 ^ k)" using nat by blast
  have addr_dvd: "2 ^ k dvd unat dma_addr" unfolding addr by (rule dvd_add [OF dvd(1) base_dvd])
  have "2 ^ k dvd ?l - (?p - ?p mod 2 ^ k)" by (rule dvd_diff_nat [OF dvd(2) base_dvd])
  moreover have "0 < ?l - (?p - ?p mod 2 ^ k)" using p by simp
  ultimately have pos: "0 < (?l - (?p - ?p mod 2 ^ k)) div 2 ^ k * 2 ^ k" by (simp only: dvd_div_mult_self)
  have "unat dma_count = (if round_up (2 ^ k) (?c + ?p mod 2 ^ k) > ?l - (?p - ?p mod 2 ^ k)
      then (?l - (?p - ?p mod 2 ^ k)) div 2 ^ k * 2 ^ k else round_up (2 ^ k) (?c + ?p mod 2 ^ k))"
    using nat by blast
  then have "0 < unat dma_count"
    using c0 pos by (simp only: split: if_split) (simp add: round_up_pos)
  moreover have "IS_ALIGNED dma_count (dc_alignment (rd_dma s))"
    using dma_read_extent_window [OF w c p assms(2)] by blast
  ultimately show ?thesis
    using addr_dvd by (auto simp: k IS_ALIGNED_unat)
qed

lemma reader_step:
  assumes ok: "reader_ok s"
  shows "\<exists>u dma' tr'. amc_pci_dma_read (rd_pf s) (rd_context s) (rd_count s) (\<lambda>_. 0) (rd_pos s, rd_dma s, rd_tr s) =
      Some (Inr u, window_bytes (rd_mem s) (rd_context s) (unat (rd_pos s)) (unat u),
        advance_pos (rd_context s) (rd_pos s) u, dma', tr') \<and>
    0 < unat u \<and> unat (rd_pos s) + unat u \<le> unat (mc_length (rd_context s)) \<and>
    window_ok dma' (rd_context s) \<and> dc_alignment dma' = dc_alignment (rd_dma s) \<and>
    dc_buffer_dma dma' = dc_buffer_dma (rd_dma s) \<and> dc_max_transfer dma' = dc_max_transfer (rd_dma s)"
proof -
  obtain io addr n0 where ext: "dma_read_extent (rd_context s) (rd_dma s) (rd_pos s) (rd_count s) = (io, addr, n0)"
    by (metis prod_cases3)
  note e = reader_extent [OF ok ext]
  have hyps: "engine_works (rd_pf s)" "handlers_quiet (rd_pf s)" "buffer_stable (rd_pf s)"
    "engine_copies (rd_pf s) (rd_mem s) (dc_buffer_dma (rd_dma s))"
    "window_ok (rd_dma s) (rd_context s)" "count_ok (rd_count s)" "rd_count s \<noteq> 0"
    "dc_max_transfer (rd_dma s) \<noteq> 0" "IS_ALIGNED (dc_buffer_dma (rd_dma s)) (dc_alignment (rd_dma s))"
    "rd_pos s < mc_length (rd_context s)" "dma_valid (rd_dma s)"
    using ok by (auto simp: reader_ok_def Let_def window_ok_def)
  let ?n = "min n0 (dc_max_transfer (rd_dma s))"
  have n_al: "IS_ALIGNED ?n (dc_alignment (rd_dma s))"
    using e hyps(11) by (intro min_aligned) (auto simp: dma_valid_def)
  obtain dma1 tr' where op: "dma_operation_unlocked (rd_pf s) (dma_memory_lock (rd_dma s)) addr n0 DMA_FROM_DEVICE (rd_tr s) =
      Some (Inr ?n, dma1, tr')"
    using engine_works_transfer [OF hyps(1), of DMA_FROM_DEVICE addr "dma_memory_lock (rd_dma s)" n0 "rd_tr s"]
      e hyps(9) n_al by auto
  have n0: "?n \<noteq> 0" using e hyps(8) by (simp add: min_def)
  moreover have "unat ?n < 2 ^ 23" using max_transfer_request [OF hyps(11), of n0] by blast
  ultimately have n: "0 < sint ?n" by (subst sint_pos_u64) simp_all
  let ?u = "min (rd_count s) (?n - io) - 0"
  note res = dma_read_result [OF hyps(5,6,2,3,4) _ hyps(10) ext op n refl, of "\<lambda>_. 0", simplified]
  have "io \<noteq> ?n"
  proof
    assume "io = ?n"
    moreover have "unat (dc_alignment (rd_dma s)) dvd unat ?n"
      using n_al hyps(5) by (auto simp: window_ok_def IS_ALIGNED_unat unat_pow2)
    moreover have "unat io < unat (dc_alignment (rd_dma s))"
      using dma_read_extent_window [OF hyps(5,6) _ ext] hyps(10) by (simp add: word_less_nat_alt)
    ultimately show False using n0 by (metis dvd_imp_le not_le unat_gt_0)
  qed
  then have u: "?u \<noteq> 0" using hyps(7) by (simp add: min_def)
  then have "0 < sint ?u"
    using res hyps(6) by (subst sint_pos_u64) (simp_all add: count_ok_def)
  then have "amc_pci_dma_read (rd_pf s) (rd_context s) (rd_count s) (\<lambda>_. 0) (rd_pos s, rd_dma s, rd_tr s) =
      Some (Inr ?u, take (unat ?u) (drop (unat io) (dc_buffer dma1)),
        advance_pos (rd_context s) (rd_pos s) ?u, dma_memory_unlock dma1, tr')"
    using ext e op n hyps(10) by (auto simp: amc_pci_dma_read_def Let_def dma_get_buffer_def)
  moreover have "0 < unat ?u" using u by (simp add: unat_gt_0)
  ultimately show ?thesis
    using res dma_operation_window_ok [OF hyps(5,3) op] by auto
qed

lemma window_bytes_content:
  "p + k \<le> n \<Longrightarrow> window_bytes mem context p k = take k (drop p (window_bytes mem context 0 n))"
  by (auto simp: window_bytes_def intro!: nth_equalityI)

interpretation mem_file: chunked_file reader_ok "\<lambda>s. unat (rd_pos s)" reader_content reader_read
proof (unfold_locales, goal_cases)
  case (1 s)
  then show ?case by (simp add: reader_ok_def Let_def reader_content_def window_bytes_def word_less_nat_alt)
next
  case (2 s)
  from reader_step [OF 2] obtain u dma' tr' where
    rd: "amc_pci_dma_read (rd_pf s) (rd_context s) (rd_count s) (\<lambda>_. 0) (rd_pos s, rd_dma s, rd_tr s) =
      Some (Inr u, window_bytes (rd_mem s) (rd_context s) (unat (rd_pos s)) (unat u),
        advance_pos (rd_context s) (rd_pos s) u, dma', tr')"
    and u: "0 < unat u" "unat (rd_pos s) + unat u \<le> unat (mc_length (rd_context s))"
    and frame: "window_ok dma' (rd_context s)" "dc_alignment dma' = dc_alignment (rd_dma s)"
      "dc_buffer_dma dma' = dc_buffer_dma (rd_dma s)" "dc_max_transfer dma' = dc_max_transfer (rd_dma s)"
    by blast
  let ?s = "s\<lparr>rd_pos := advance_pos (rd_context s) (rd_pos s) u, rd_dma := dma', rd_tr := tr'\<rparr>"
  have read: "reader_read s = Some (take (unat u) (drop (unat (rd_pos s)) (reader_content s)), ?s)"
    by (simp add: reader_read_def rd reader_content_def window_bytes_content [OF u(2), symmetric])
  have adv: "unat (rd_pos ?s) = (if unat (rd_pos s) + unat u = unat (mc_length (rd_context s)) then 0
      else unat (rd_pos s) + unat u)" using advance_pos_nat [OF u(2)] by simp
  then have "rd_pos ?s < mc_length (rd_context s)"
    unfolding word_less_nat_alt using u by (auto split: if_splits)
  then have "reader_ok ?s" using 2 frame by (auto simp: reader_ok_def Let_def)
  moreover have "length (reader_content s) = unat (mc_length (rd_context s))"
    by (simp add: reader_content_def window_bytes_def)
  moreover have "reader_content ?s = reader_content s" by (simp add: reader_content_def)
  ultimately show ?case using read u adv by (intro exI [of _ "unat u"] exI [of _ ?s]) simp
qed

lemma read_whole_eq: "mem_file.read_all fuel s = read_whole fuel s"
  by (induction fuel arbitrary: s) (auto split: option.splits prod.splits)

lemma dma_read_elim:
  assumes "amc_pci_dma_read pf context count left (f_pos, dma, tr) = Some (r, bytes, f_pos', dma', tr')"
  obtains (early) "r \<in> {Inr 0, Inl EFAULT}" "bytes = []" "f_pos' = f_pos" "dma' = dma" "tr' = tr"
      "r = Inr 0 \<Longrightarrow> f_pos = mc_length context"
  | (transfer) in_offset dma_addr dma_count r1 dma1 where
      "f_pos < mc_length context"
      "dma_read_extent context dma f_pos count = (in_offset, dma_addr, dma_count)"
      "dma_operation_unlocked pf (dma_memory_lock dma) dma_addr dma_count DMA_FROM_DEVICE tr = Some (r1, dma1, tr')"
      "dma' = dma_memory_unlock dma1"
      "(\<exists>e. r = Inl e \<and> bytes = [] \<and> f_pos' = f_pos) \<or>
       (\<exists>n. r1 = Inr n \<and> \<not> 0 < sint n \<and> r = Inr n \<and> bytes = [] \<and> f_pos' = f_pos) \<or>
       (\<exists>n u. r1 = Inr n \<and> 0 < sint n \<and>
          u = min count (n - in_offset) - left (min count (n - in_offset)) \<and> 0 < sint u \<and> r = Inr u \<and>
          bytes = take (unat u) (drop (unat in_offset) (dc_buffer dma1)) \<and> f_pos' = advance_pos context f_pos u)"
  using dma_read_cases [OF assms] by blast

lemma dma_write_elim:
  assumes "amc_pci_dma_write pf context user count left (f_pos, dma, tr) = Some (r, f_pos', dma', tr')"
  obtains (early) "r \<in> {Inr 0, Inl EFAULT, Inl EINVAL}" "f_pos' = f_pos" "tr' = tr"
      "dma' = dma \<or> dma' = dma_memory_unlock (dma\<lparr>dc_buffer :=
         copy_from_user user (unat count) (unat left) (dc_buffer dma)\<rparr>) \<and> count \<le> dc_buffer_size dma"
      "r = Inr 0 \<Longrightarrow> f_pos = mc_length context"
  | (transfer) dma1 where
      "f_pos < mc_length context" "count \<le> mc_length context - f_pos" "count \<le> dc_buffer_size dma"
      "dma_operation_unlocked pf (dma_memory_lock (dma\<lparr>dc_buffer :=
         copy_from_user user (unat count) (unat left) (dc_buffer dma)\<rparr>)) (mc_base context + f_pos) count
         DMA_TO_DEVICE tr = Some (r, dma1, tr')"
      "dma' = dma_memory_unlock dma1"
      "f_pos' = (case r of Inr n \<Rightarrow> if 0 < sint n then advance_pos context f_pos n else f_pos | Inl _ \<Rightarrow> f_pos)"
  using dma_write_cases [OF assms] by blast

text \<open>Filling the buffer keeps the controller valid.\<close>

lemma window_ok_filled:
  assumes "window_ok dma context" and "count \<le> dc_buffer_size dma"
    and "unat left \<le> unat count" and "unat count \<le> length user"
  shows "window_ok (dma\<lparr>dc_buffer := copy_from_user user (unat count) (unat left) (dc_buffer dma)\<rparr>) context"
proof -
  have "unat count \<le> length (dc_buffer dma)"
    using assms(1,2) by (simp add: window_ok_def dma_valid_def word_le_nat_alt)
  then have "length (copy_from_user user (unat count) (unat left) (dc_buffer dma)) = length (dc_buffer dma)"
    using assms(3,4) by (intro copy_from_user_length)
  with assms(1) show ?thesis by (simp add: window_ok_def dma_valid_def)
qed

lemma request_in_window_filled:
  "length b = length (dc_buffer dma) \<Longrightarrow>
     request_in_window context (dma\<lparr>dc_buffer := b\<rparr>) dir = request_in_window context dma dir"
  by (simp add: request_in_window_def)

text \<open>The requests of a read lie in the window, whatever its result.\<close>

lemma dma_read_requests:
  assumes "window_ok dma context" and "count_ok count" and "handlers_quiet pf"
    and "amc_pci_dma_read pf context count left (f_pos, dma, tr) = Some (r, bytes, f_pos', dma', tr')"
  shows "length (new_requests tr tr') \<le> 1 \<and>
    list_all (request_in_window context dma DMA_FROM_DEVICE) (new_requests tr tr')"
  using assms(4)
proof (cases rule: dma_read_elim)
  case (transfer in_offset dma_addr dma_count r1 dma1)
  with dma_operation_new_requests [OF transfer(3) assms(3)] request_in_window_read [OF assms(1,2) transfer(1,2)]
  show ?thesis by (auto simp: dma_ends_def)
qed simp

lemma dma_write_requests:
  assumes "window_ok dma context" and "handlers_quiet pf"
    and "amc_pci_dma_write pf context user count left (f_pos, dma, tr) = Some (r, f_pos', dma', tr')"
  shows "length (new_requests tr tr') \<le> 1 \<and>
    list_all (request_in_window context dma DMA_TO_DEVICE) (new_requests tr tr')"
  using assms(3)
proof (cases rule: dma_write_elim)
  case (transfer dma1)
  have "new_requests tr tr' = [] \<or> new_requests tr tr' =
      [(dc_buffer_dma dma, mc_base context + f_pos, ucast (min count (dc_max_transfer dma)))]"
    using dma_operation_new_requests [OF transfer(4) assms(2)] by (simp add: dma_ends_def)
  with request_in_window_write [OF assms(1) transfer(1,2)] show ?thesis by auto
qed simp

text \<open>Reads and writes of any file leave the controller usable for every file.\<close>

lemma dma_read_window_ok:
  assumes "amc_pci_dma_read pf context count left (f_pos, dma, tr) = Some (r, bytes, f_pos', dma', tr')"
    and "window_ok dma other" and "buffer_stable pf"
  shows "window_ok dma' other"
  using assms(1)
proof (cases rule: dma_read_elim)
  case (transfer in_offset dma_addr dma_count r1 dma1)
  from dma_operation_window_ok [OF assms(2,3) transfer(3)] transfer(4) show ?thesis by simp
qed (simp add: assms(2))

lemma dma_write_window_ok:
  assumes "amc_pci_dma_write pf context user count left (f_pos, dma, tr) = Some (r, f_pos', dma', tr')"
    and "window_ok dma other" and "buffer_stable pf" and "unat left \<le> unat count" and "unat count \<le> length user"
  shows "window_ok dma' other"
  using assms(1)
proof (cases rule: dma_write_elim)
  case early
  with window_ok_filled [OF assms(2) _ assms(4,5)] assms(2) show ?thesis by (auto simp: window_ok_def)
next
  case (transfer dma1)
  from dma_operation_window_ok [OF window_ok_filled [OF assms(2) transfer(3) assms(4,5)] assms(3) transfer(4)]
    transfer(5) show ?thesis by simp
qed

text \<open>If the clock advances, a read or a write that does not return waits for its request.\<close>

lemma dma_read_stuck:
  assumes "clock_advances pf" and "amc_pci_dma_read pf context count left (f_pos, dma, tr) = None"
  shows "wait_stuck pf tr"
proof -
  obtain io addr n where ext: "dma_read_extent context dma f_pos count = (io, addr, n)" by (metis prod_cases3)
  with assms(2) have "dma_operation_unlocked pf (dma_memory_lock dma) addr n DMA_FROM_DEVICE tr = None"
    by (auto simp: amc_pci_dma_read_def Let_def split: if_splits bind_splits sum.splits)
  with assms(1) show ?thesis by (rule dma_operation_stuck)
qed

lemma dma_write_stuck:
  assumes "clock_advances pf" and "amc_pci_dma_write pf context user count left (f_pos, dma, tr) = None"
  shows "wait_stuck pf tr"
proof -
  let ?dma = "(dma_memory_lock dma)\<lparr>dc_buffer :=
    copy_from_user user (unat count) (unat left) (dma_get_buffer (dma_memory_lock dma))\<rparr>"
  have "dma_operation_unlocked pf ?dma (mc_base context + f_pos) count DMA_TO_DEVICE tr = None"
    using assms(2) by (auto simp: amc_pci_dma_write_def Let_def split: if_splits bind_splits sum.splits)
  with assms(1) show ?thesis by (rule dma_operation_stuck)
qed

text \<open>Whenever a write starts the engine, the buffer it has handed over begins with the data of the user.\<close>

lemma dma_write_sent:
  assumes "window_ok dma context" and "handlers_quiet pf"
    and "unat left \<le> unat count" and "unat count \<le> length user"
    and "amc_pci_dma_write pf context user count left (f_pos, dma, tr) = Some (r, f_pos', dma', tr')"
  shows "list_all (\<lambda>(_, b). take (unat count) b = take (unat count - unat left) user @ replicate (unat left) 0)
    (new_sent tr tr')"
  using assms(5)
proof (cases rule: dma_write_elim)
  case early
  then show ?thesis by simp
next
  case (transfer dma1)
  have "unat count \<le> length (dc_buffer dma)"
    using assms(1) transfer(3) by (simp add: window_ok_def dma_valid_def word_le_nat_alt)
  from copy_from_user_length(2) [OF this assms(3,4)] dma_operation_sent [OF transfer(4) assms(2)]
  show ?thesis by auto
qed

section \<open>Properties\<close>

text \<open>
  A read stays in its window. Whatever happens in a read, it starts at most one transfer; the
  device side of the transfer lies entirely within the window of the file, the other side is
  the driver's buffer, and the count fits the buffer.
\<close>

theorem memory_read_in_window:
  assumes "window_ok dma context" and "count_ok count" and "handlers_quiet pf"
    and "amc_pci_dma_read pf context count left (f_pos, dma, tr) = Some (r, bytes, f_pos', dma', tr')"
  shows "length (new_requests tr tr') \<le> 1 \<and>
    list_all (request_in_window context dma DMA_FROM_DEVICE) (new_requests tr tr')"
  using assms by (rule dma_read_requests)

text \<open>A window of 12 kB at address 0x80000000, on the example controller.\<close>

definition demo_window :: memory_context where
  "demo_window = \<lparr>mc_base = 0x80000000, mc_length = 0x3000\<rparr>"

definition demo_mem :: "u64 \<Rightarrow> u8" where
  "demo_mem a = ucast a"

definition demo_reader :: reader where
  "demo_reader = \<lparr>rd_pf = copying_platform demo_mem 0x10000, rd_mem = demo_mem, rd_context = demo_window,
     rd_count = 1000, rd_pos = 0, rd_dma = demo_control, rd_tr = []\<rparr>"

lemma demo_window_ok: "window_ok demo_control demo_window"
proof -
  have "\<exists>s \<le> 31. (8 :: u64) = 2 ^ s" by (rule exI [of _ 3]) simp
  then show ?thesis
    using demo_control_valid by (simp add: window_ok_def demo_window_def demo_control_def)
qed

lemma demo_reader_ok: "reader_ok demo_reader"
proof -
  have "engine_works (copying_platform demo_mem 0x10000)"
    by (simp add: engine_works_def copying_platform_def CDMASR_Idle_def dma_error_bits_def
        CDMASR_DMADecErr_def CDMASR_DMASlvErr_def CDMASR_DMAIntErr_def)
  then show ?thesis
    using demo_window_ok copying_platform_facts [of demo_mem "0x10000"]
    by (simp add: reader_ok_def Let_def demo_reader_def count_ok_def demo_window_def IS_ALIGNED_def)
qed

text \<open>The first read of the example file returns a nonempty piece of the window.\<close>

lemma demo_read: "\<exists>u dma' tr'. amc_pci_dma_read (copying_platform demo_mem 0x10000) demo_window 1000 (\<lambda>_. 0)
    (0, demo_control, []) = Some (Inr u, window_bytes demo_mem demo_window 0 (unat u),
      advance_pos demo_window 0 u, dma', tr')"
  using reader_step [OF demo_reader_ok] by (auto simp: demo_reader_def)

lemma demo_count_ok: "count_ok 1000"
  by (simp add: count_ok_def)

theorem memory_read_in_window_witness:
  "\<exists>r tr'. amc_pci_dma_read (copying_platform demo_mem 0x10000) demo_window 1000 (\<lambda>_. 0) (0, demo_control, []) =
      Some (r, tr') \<and> list_all (request_in_window demo_window demo_control DMA_FROM_DEVICE)
        (new_requests [] (snd (snd (snd tr'))))"
proof -
  obtain u dma' tr' where rd: "amc_pci_dma_read (copying_platform demo_mem 0x10000) demo_window 1000 (\<lambda>_. 0)
    (0, demo_control, []) = Some (Inr u, window_bytes demo_mem demo_window 0 (unat u),
      advance_pos demo_window 0 u, dma', tr')" using demo_read by blast
  from memory_read_in_window [OF demo_window_ok demo_count_ok copying_platform_facts(2) rd] rd
  show ?thesis by simp
qed

text \<open>
  C26: A read returns the bytes of the window. If the engine copies, a successful read stores
  exactly as many bytes as it reports, no more than were asked for, and they are the bytes of
  device memory from the file position on. The position moves behind them, to zero if it
  reaches the end; a read that reports zero leaves it.
\<close>

theorem memory_read_data:
  assumes "window_ok dma context" and "count_ok count" and "handlers_quiet pf" and "buffer_stable pf"
    and "engine_copies pf mem (dc_buffer_dma dma)" and "\<forall>n. left n \<le> n"
    and "amc_pci_dma_read pf context count left (f_pos, dma, tr) = Some (Inr r, bytes, f_pos', dma', tr')"
  shows "bytes = window_bytes mem context (unat f_pos) (unat r) \<and> unat r \<le> unat count \<and>
    (if r = 0 then f_pos' = f_pos
     else unat f_pos + unat r \<le> unat (mc_length context) \<and>
       unat f_pos' = (if unat f_pos + unat r = unat (mc_length context) then 0 else unat f_pos + unat r))"
  using assms(7)
proof (cases rule: dma_read_elim)
  case early
  then show ?thesis by (auto simp: window_bytes_def)
next
  case (transfer in_offset dma_addr dma_count r1 dma1)
  have valid: "dma_valid dma" using assms(1) by (simp add: window_ok_def)
  from transfer(5) consider n where "r1 = Inr n" "\<not> 0 < sint n" "r = n" "bytes = []" "f_pos' = f_pos"
    | n where "r1 = Inr n" "0 < sint n" "r = min count (n - in_offset) - left (min count (n - in_offset))"
      "0 < sint r" "bytes = take (unat r) (drop (unat in_offset) (dc_buffer dma1))" "f_pos' = advance_pos context f_pos r"
    by blast
  then show ?thesis
  proof cases
    case (1 n)
    have "n = min dma_count (dc_max_transfer dma)"
      using dma_operation_ok [OF transfer(3) [unfolded 1(1)] assms(3)] by simp
    then have "unat n < 2 ^ 23" using max_transfer_request [OF valid, of dma_count] by simp
    then have "n = 0" using 1(2) by (subst (asm) sint_pos_u64) simp_all
    then show ?thesis using 1 by (simp add: window_bytes_def)
  next
    case (2 n)
    note res = dma_read_result [OF assms(1-6) transfer(1,2) transfer(3) [unfolded 2(1)] 2(2,3)]
    then have "unat f_pos + unat r \<le> unat (mc_length context)" by linarith
    moreover have "r \<noteq> 0" using 2(4) by auto
    ultimately show ?thesis using 2 res advance_pos_nat [of f_pos r "context"] by simp
  qed
qed

theorem memory_read_data_witness:
  "\<exists>u s'. amc_pci_dma_read (copying_platform demo_mem 0x10000) demo_window 1000 (\<lambda>_. 0) (0, demo_control, []) =
      Some (Inr u, window_bytes demo_mem demo_window 0 (unat u), s') \<and> unat u \<le> 1000"
proof -
  obtain u dma' tr' where rd: "amc_pci_dma_read (copying_platform demo_mem 0x10000) demo_window 1000 (\<lambda>_. 0)
    (0, demo_control, []) = Some (Inr u, window_bytes demo_mem demo_window 0 (unat u),
      advance_pos demo_window 0 u, dma', tr')" using demo_read by blast
  have "engine_copies (copying_platform demo_mem 0x10000) demo_mem (dc_buffer_dma demo_control)"
    using copying_platform_facts(4) by simp
  from memory_read_data [OF demo_window_ok demo_count_ok copying_platform_facts(2,3) this _ rd] rd
  show ?thesis by auto
qed

text \<open>
  C19: Reading a file from end to end. On a working engine, for a window and a buffer that are
  aligned, with any positive count per read: reading on until the position is zero again takes
  at most as many reads as there are bytes left, and the pieces together are the bytes of the
  window from the first position to its end.
\<close>

theorem memory_read_whole:
  assumes "reader_ok s" and "unat (mc_length (rd_context s)) - unat (rd_pos s) \<le> fuel"
  shows "read_whole fuel s = Some (drop (unat (rd_pos s)) (reader_content s))"
proof -
  have "length (reader_content s) = unat (mc_length (rd_context s))"
    by (simp add: reader_content_def window_bytes_def)
  with mem_file.read_all_content [OF assms(1), of fuel] assms(2) show ?thesis by (simp add: read_whole_eq)
qed

theorem memory_read_whole_witness:
  "read_whole 0x3000 demo_reader = Some (map (\<lambda>i. demo_mem (0x80000000 + of_nat i)) [0..<0x3000])"
  using memory_read_whole [OF demo_reader_ok, of "0x3000"]
  by (simp add: demo_reader_def reader_content_def window_bytes_def demo_window_def del: upt_rec_numeral)

text \<open>
  C20: A write stays in its window and sends what the user gave. It starts at most one transfer,
  from the driver's buffer to the part of the window at the file position. Whenever the engine is
  started, also if the write fails later, the buffer that was handed over to it begins with the
  user's bytes, with zeros for what could not be copied. A write that reports \<open>n > 0\<close> bytes has
  transferred exactly the first \<open>n\<close> of the \<open>count\<close> asked for, up to the largest transfer, and the
  position moves behind them, to zero if it reaches the end.
\<close>

theorem memory_write_in_window:
  assumes "window_ok dma context" and "handlers_quiet pf"
    and "unat left \<le> unat count" and "unat count \<le> length user"
    and "amc_pci_dma_write pf context user count left (f_pos, dma, tr) = Some (r, f_pos', dma', tr')"
  shows "length (new_requests tr tr') \<le> 1 \<and>
    list_all (request_in_window context dma DMA_TO_DEVICE) (new_requests tr tr') \<and>
    map fst (new_sent tr tr') = new_requests tr tr' \<and>
    list_all (\<lambda>(_, b). take (unat count) b = take (unat count - unat left) user @ replicate (unat left) 0)
      (new_sent tr tr') \<and>
    (\<forall>n. r = Inr n \<and> n \<noteq> 0 \<longrightarrow>
       n = min count (dc_max_transfer dma) \<and>
       new_requests tr tr' = [(dc_buffer_dma dma, mc_base context + f_pos, ucast n)] \<and>
       unat f_pos' = (if unat f_pos + unat n = unat (mc_length context) then 0 else unat f_pos + unat n))"
proof -
  have "n = min count (dc_max_transfer dma) \<and>
      new_requests tr tr' = [(dc_buffer_dma dma, mc_base context + f_pos, ucast n)] \<and>
      unat f_pos' = (if unat f_pos + unat n = unat (mc_length context) then 0 else unat f_pos + unat n)"
    if "r = Inr n" "n \<noteq> 0" for n
    using assms(5)
  proof (cases rule: dma_write_elim)
    case early
    then show ?thesis using that by auto
  next
    case (transfer dma1)
    note op = dma_operation_ok [OF transfer(4) [unfolded that(1)] assms(2)]
    then have n: "n = min count (dc_max_transfer dma)"
      and nr: "new_requests tr tr' = [(dc_buffer_dma dma, mc_base context + f_pos, ucast n)]"
      by (simp_all add: Let_def dma_ends_def)
    have valid: "dma_valid dma" using assms(1) by (simp add: window_ok_def)
    have n_le: "unat n \<le> unat count" "unat n < 2 ^ 23"
      using max_transfer_request [OF valid, of count] by (simp_all add: n)
    have "unat count \<le> unat (mc_length context) - unat f_pos"
      using transfer(1,2) by (simp add: word_le_nat_alt word_less_nat_alt unat_sub_u64)
    then have "unat f_pos + unat n \<le> unat (mc_length context)"
      using n_le transfer(1) by (simp add: word_less_nat_alt)
    moreover have "0 < sint n" using n_le(2) that(2) by (subst sint_pos_u64) simp_all
    ultimately show ?thesis
      using n nr transfer(6) that advance_pos_nat [of f_pos n "context"] by simp
  qed
  moreover have "map fst (new_sent tr tr') = new_requests tr tr'"
    by (simp add: new_sent_def new_requests_def drop_map dma_sent_requests [symmetric])
  ultimately show ?thesis
    using dma_write_requests [OF assms(1,2,5)] dma_write_sent [OF assms] by blast
qed

text \<open>
  Writes of 64 bytes to the example file. The second one reports 64 bytes although only 32 of
  them could be copied from the user; the rest that goes to the device are zeros.
\<close>

lemma demo_write_left:
  assumes "left = 0 \<or> left = 32"
  shows "\<exists>f_pos' dma' tr'. amc_pci_dma_write (copying_platform demo_mem 0x10000) demo_window (replicate 64 7) 64 left
     (0x100, demo_control, []) = Some (Inr 64, f_pos', dma', tr')"
proof -
  let ?dma = "dma_memory_lock (demo_control\<lparr>dc_buffer := copy_from_user (replicate 64 7) 64 (unat left) (dc_buffer demo_control)\<rparr>)"
  have "\<exists>dma1 tr'. dma_operation_unlocked (copying_platform demo_mem 0x10000) ?dma 0x80000100 64 DMA_TO_DEVICE [] =
      Some (Inr 64, dma1, tr')"
    using copying_platform_transfer [of DMA_TO_DEVICE "0x80000100" ?dma 64 demo_mem "0x10000" "[]"]
    by (simp add: IS_ALIGNED_def min_def)
  moreover have "(dma_memory_lock demo_control)\<lparr>dc_buffer := b\<rparr> = dma_memory_lock (demo_control\<lparr>dc_buffer := b\<rparr>)" for b
    by (simp add: dma_memory_lock_def)
  moreover have "0 < sint (64 - left)" using assms by auto
  ultimately show ?thesis
    by (auto simp: amc_pci_dma_write_def demo_window_def Let_def dma_buffer_size_def dma_get_buffer_def)
qed

lemmas demo_write = demo_write_left [of 0, simplified]
lemmas partial_copy_reported_whole = demo_write_left [of 32, simplified]

theorem memory_write_in_window_witness:
  "\<exists>f_pos' dma' tr' b. amc_pci_dma_write (copying_platform demo_mem 0x10000) demo_window (replicate 64 7) 64 0
     (0x100, demo_control, []) = Some (Inr 64, f_pos', dma', tr') \<and>
     new_sent [] tr' = [((0x10000, 0x80000100, 64), b)] \<and> take 64 b = replicate 64 7 \<and> unat f_pos' = 0x140"
proof -
  obtain f_pos' dma' tr' where wr: "amc_pci_dma_write (copying_platform demo_mem 0x10000) demo_window
      (replicate 64 7) 64 0 (0x100, demo_control, []) = Some (Inr 64, f_pos', dma', tr')" using demo_write by blast
  from memory_write_in_window [OF demo_window_ok copying_platform_facts(2) _ _ wr] wr
  show ?thesis by (auto simp: demo_window_def map_eq_Cons_conv simp del: replicate.simps)
qed

text \<open>
  C31: The memory operations return and leave the controller usable. If the clock advances, a read
  or a write that does not return waits for the engine to complete the request it has started, so
  if the waits end, every read and every write returns. One that returns has, on every path out,
  the mutex free and the controller and the window valid again, so that the next one can start.
\<close>

theorem memory_operations_return:
  assumes "window_ok dma context" and "clock_advances pf" and "buffer_stable pf"
    and "unat left_from \<le> unat count" and "unat count \<le> length user"
  shows "(case amc_pci_dma_read pf context count left_to (f_pos, dma, tr) of
      None \<Rightarrow> wait_stuck pf tr
    | Some (r, bytes, f_pos', dma', tr') \<Rightarrow> window_ok dma' context) \<and>
    (case amc_pci_dma_write pf context user count left_from (f_pos, dma, tr) of
      None \<Rightarrow> wait_stuck pf tr
    | Some (r, f_pos', dma', tr') \<Rightarrow> window_ok dma' context) \<and>
    (waits_end pf \<longrightarrow>
      amc_pci_dma_read pf context count left_to (f_pos, dma, tr) \<noteq> None \<and>
      amc_pci_dma_write pf context user count left_from (f_pos, dma, tr) \<noteq> None)"
proof -
  note stuck = dma_read_stuck [OF assms(2)] dma_write_stuck [OF assms(2)] waits_end_not_stuck [of pf tr]
  show ?thesis
    using stuck dma_read_window_ok [OF _ assms(1,3)] dma_write_window_ok [OF _ assms(1,3,4,5)]
    by (auto split: option.splits)
qed

theorem memory_operations_return_witness:
  "\<exists>r bytes f_pos' dma' tr'.
     amc_pci_dma_read (copying_platform demo_mem 0x10000) demo_window 0 (\<lambda>_. 0) (0x2FFF, demo_control, []) =
       Some (r, bytes, f_pos', dma', tr') \<and> window_ok dma' demo_window"
  using memory_operations_return [OF demo_window_ok copying_platform_facts(1,3) [of demo_mem "0x10000"],
      where count = 0 and left_from = 0 and user = "[]" and left_to = "\<lambda>_. 0" and f_pos = "0x2FFF" and tr = "[]"]
    copying_platform_facts(5) [of demo_mem "0x10000"]
  by (auto split: option.splits)

text \<open>
  Refusals. At the end of the window both operations return zero; behind it both fail with
  \<^verbatim>\<open>EFAULT\<close>; a write that is larger than the rest of the window or than the buffer fails with
  \<^verbatim>\<open>EINVAL\<close>. In none of these cases anything changes. The ioctl returns the buffer size and the
  window size and refuses other requests.
\<close>

theorem memory_refusals:
  "amc_pci_dma_read pf context count left_to (mc_length context, dma, tr) =
     Some (Inr 0, [], mc_length context, dma, tr) \<and>
   amc_pci_dma_write pf context user count left_from (mc_length context, dma, tr) =
     Some (Inr 0, mc_length context, dma, tr) \<and>
   (f_pos > mc_length context \<longrightarrow>
      amc_pci_dma_read pf context count left_to (f_pos, dma, tr) = Some (Inl EFAULT, [], f_pos, dma, tr) \<and>
      amc_pci_dma_write pf context user count left_from (f_pos, dma, tr) = Some (Inl EFAULT, f_pos, dma, tr)) \<and>
   (f_pos < mc_length context \<and>
    (unat f_pos + unat count > unat (mc_length context) \<or> unat count > unat (dc_buffer_size dma)) \<longrightarrow>
      amc_pci_dma_write pf context user count left_from (f_pos, dma, tr) = Some (Inl EINVAL, f_pos, dma, tr)) \<and>
   amc_pci_mem_ioctl context dma AMC_BUF_SIZE = Inr (dc_buffer_size dma) \<and>
   amc_pci_mem_ioctl context dma AMC_DMA_AREA_SIZE = Inr (mc_length context) \<and>
   (\<forall>cmd. cmd \<notin> {AMC_BUF_SIZE, AMC_DMA_AREA_SIZE} \<longrightarrow> amc_pci_mem_ioctl context dma cmd = Inl EINVAL)"
proof -
  have "count > mc_length context - f_pos \<longleftrightarrow> unat f_pos + unat count > unat (mc_length context)"
    if "f_pos < mc_length context"
    using that by (auto simp: word_less_nat_alt unat_sub_u64)
  then have "f_pos < mc_length context \<and>
    (unat f_pos + unat count > unat (mc_length context) \<or> unat count > unat (dc_buffer_size dma)) \<longrightarrow>
      amc_pci_dma_write pf context user count left_from (f_pos, dma, tr) = Some (Inl EINVAL, f_pos, dma, tr)"
    by (auto simp: amc_pci_dma_write_def Let_def dma_buffer_size_def word_less_nat_alt)
  moreover have "AMC_BUF_SIZE \<noteq> AMC_DMA_AREA_SIZE"
    by (simp add: AMC_BUF_SIZE_def AMC_DMA_AREA_SIZE_def AMC_IOCTL_def)
  ultimately show ?thesis
    by (auto simp: amc_pci_dma_read_def amc_pci_dma_write_def amc_pci_mem_ioctl_def dma_buffer_size_def)
qed

theorem memory_refusals_witness:
  "amc_pci_dma_write (copying_platform demo_mem 0) demo_window [] 0x2000 0 (0x1800, demo_control, []) =
     Some (Inl EINVAL, 0x1800, demo_control, [])"
  using memory_refusals [of "copying_platform demo_mem 0" demo_window "0x2000" "\<lambda>_. 0" demo_control "[]" "[]" 0 "0x1800"]
  by (simp add: demo_window_def)

text \<open>A read of no bytes is an error rather than an empty read.\<close>

lemma empty_read_fails:
  "amc_pci_dma_read (copying_platform demo_mem 0) demo_window 0 left (0, demo_control, []) =
     Some (Inl EFAULT, [], 0, demo_control, [])"
  by (simp add: amc_pci_dma_read_def demo_window_def dma_read_extent_def dma_get_alignment_def ALIGN_def)

text \<open>
  The tail of a window whose size is not a multiple of the alignment cannot be read: here the
  last four bytes of twelve.
\<close>

lemma unaligned_tail_unreadable:
  "amc_pci_dma_read (copying_platform demo_mem 0) \<lparr>mc_base = 0x1000, mc_length = 12\<rparr> 4 left (8, demo_control, []) =
     Some (Inl EFAULT, [], 8, demo_control, [])"
  by (simp add: amc_pci_dma_read_def dma_read_extent_def dma_get_alignment_def ALIGN_def ALIGN_DOWN_def)

end
