(* ===== verification/Utils.thy ===== *)
theory Utils
  imports Amc_Prelude
begin

text \<open>
  \<^verbatim>\<open>utils.c\<close>: the 16-bit one's complement checksum of the identity PROM. The theory holds the
  routine as the driver computes it, in wrapping 32-bit arithmetic with two end-around
  folds, and the contract a PROM checksum promises to its clients as the locale
  \<open>prom_checksum\<close>: what it is as arithmetic, that appending it makes the data check, and
  that a change of one byte is always found.
\<close>

section \<open>The routine\<close>

text \<open>\<^verbatim>\<open>ptr[i]\<close> where \<^verbatim>\<open>ptr\<close> is the buffer read as an array of \<^verbatim>\<open>u16\<close>.\<close>

definition ptr16 :: "u8 list \<Rightarrow> nat \<Rightarrow> u16" where
  "ptr16 buff i = le16 (buff ! (2 * i)) (buff ! (2 * i + 1))"

text \<open>The folding step \<^verbatim>\<open>(result & 0xffff) + (result >> 16)\<close>.\<close>

definition fold16 :: "u32 \<Rightarrow> u32" where
  "fold16 r = (r AND 0xFFFF) + drop_bit 16 r"

definition calc_checksum16 :: "u8 list \<Rightarrow> nat \<Rightarrow> u16" where
  "calc_checksum16 buff sz =
     (let result = foldl (\<lambda>r i. r + ucast (ptr16 buff i)) (0 :: u32) [0..<sz div 2];
          result = (if odd sz then result + push_bit 8 (ucast (buff ! (sz - 1))) else result);
          result = fold16 result;
          result = fold16 result
      in ucast (NOT result AND 0xFFFF))"

section \<open>The checksum as arithmetic\<close>

text \<open>The sum of the 16-bit little-endian words; a trailing byte counts as a high byte.\<close>

fun word_sum :: "u8 list \<Rightarrow> nat" where
  "word_sum (a # b # bs) = unat a + 256 * unat b + word_sum bs"
| "word_sum [a] = 256 * unat a"
| "word_sum [] = 0"

text \<open>End-around carry on natural numbers.\<close>

definition oc_fold :: "nat \<Rightarrow> nat" where
  "oc_fold x = x mod 65536 + x div 65536"

section \<open>Lemmas\<close>

lemma word_sum_bound: "word_sum bs \<le> 65535 * ((length bs + 1) div 2)"
proof (induction bs rule: word_sum.induct)
  case (1 a b bs)
  then show ?case using unat_u8_less [of a] unat_u8_less [of b] by simp
next
  case (2 a)
  then show ?case using unat_u8_less [of a] by simp
qed simp

lemma word_sum_bound_u32: "length bs \<le> 131072 \<Longrightarrow> word_sum bs < 2 ^ 32"
proof -
  assume "length bs \<le> 131072"
  then have "(length bs + 1) div 2 \<le> 65536" by simp
  with word_sum_bound [of bs] show ?thesis by simp
qed

lemma word_sum_append:
  "even (length bs) \<Longrightarrow> word_sum (bs @ cs) = word_sum bs + word_sum cs"
  by (induction bs rule: word_sum.induct) auto

lemma oc_fold_eq: "oc_fold x + 65535 * (x div 65536) = x"
  unfolding oc_fold_def using div_mult_mod_eq [of x 65536] by linarith

lemma oc_fold_twice_le:
  assumes "x < 2 ^ 32"
  shows "oc_fold (oc_fold x) \<le> 65535"
proof -
  have "x div 65536 < 65536" using assms by (simp add: less_mult_imp_div_less)
  then have small: "oc_fold x \<le> 131070"
    unfolding oc_fold_def using mod_less_divisor [of 65536 x] by linarith
  then have "oc_fold x div 65536 \<le> 1" by (simp add: div_le_mono less_mult_imp_div_less flip: less_Suc_eq_le)
  with small oc_fold_eq [of "oc_fold x"] mod_less_divisor [of 65536 "oc_fold x"] show ?thesis
    unfolding oc_fold_def [of "oc_fold x"] by linarith
qed

lemma oc_fold_mod: "oc_fold x mod 65535 = x mod 65535"
  using oc_fold_eq [of x] by (metis mod_mult_self2)

lemma oc_fold_zero: "oc_fold x = 0 \<longleftrightarrow> x = 0"
  using div_mult_mod_eq [of x 65536] by (auto simp: oc_fold_def)

text \<open>The two folds reduce modulo 65535, with 65535 itself for a positive multiple.\<close>

lemma oc_fold_twice_full:
  assumes "x < 2 ^ 32"
  shows "oc_fold (oc_fold x) = 65535 \<longleftrightarrow> 0 < x \<and> 65535 dvd x"
proof -
  let ?y = "oc_fold (oc_fold x)"
  have "?y mod 65535 = x mod 65535" by (simp add: oc_fold_mod)
  moreover have "?y = 0 \<longleftrightarrow> x = 0" by (simp add: oc_fold_zero)
  moreover have "?y \<le> 65535" using assms by (rule oc_fold_twice_le)
  ultimately show ?thesis
    by (cases "?y = 65535") (auto simp: dvd_eq_mod_eq_0)
qed

lemma unat_fold16: "unat (fold16 r) = oc_fold (unat r)"
proof -
  have "(0xFFFF :: u32) = mask 16" by (simp add: mask_eq_exp_minus_1)
  then have lo: "unat (r AND 0xFFFF) = unat r mod 65536"
    by (simp only: flip: take_bit_eq_mask) (simp only: unsigned_take_bit_eq, simp add: take_bit_eq_mod)
  have hi: "unat (drop_bit 16 r) = unat r div 65536"
    by (simp only: unsigned_drop_bit_eq) 
      (use unat_u32_less [of r] in \<open>simp add: take_bit_eq_mod drop_bit_eq_div\<close>)
  have "unat r mod 65536 + unat r div 65536 < 2 ^ 32"
    using unat_u32_less [of r] by simp
  then show ?thesis
    unfolding fold16_def oc_fold_def by (simp add: unat_word_ariths lo hi)
qed


lemma foldl_add_of_nat:
  "foldl (\<lambda>r i. r + of_nat (f i)) r xs = r + (of_nat (sum_list (map f xs)) :: u32)"
  by (induction xs arbitrary: r) (auto simp: add.assoc)

lemma word_sum_take_even:
  "2 * n \<le> length buff \<Longrightarrow>
     word_sum (take (2 * n) buff) = sum_list (map (\<lambda>i. unat (ptr16 buff i)) [0..<n])"
proof (induction n)
  case (Suc n)
  have "take (2 * Suc n) buff = take (2 * n) buff @ [buff ! (2 * n), buff ! (2 * n + 1)]"
    using Suc.prems by (simp add: take_Suc_conv_app_nth)
  moreover have "even (length (take (2 * n) buff))" using Suc.prems by simp
  ultimately show ?case using Suc by (simp add: word_sum_append ptr16_def unat_le16)
qed simp

lemma word_sum_take_odd:
  "2 * n < length buff \<Longrightarrow>
     word_sum (take (Suc (2 * n)) buff) = word_sum (take (2 * n) buff) + 256 * unat (buff ! (2 * n))"
  by (simp add: take_Suc_conv_app_nth word_sum_append)

lemma unat_not_low16:
  assumes "unat (r :: u32) \<le> 65535"
  shows "unat (ucast (NOT r AND 0xFFFF) :: u16) = 65535 - unat r"
proof -
  have n: "unat (NOT r) = 2 ^ 32 - 1 - unat r"
  proof -
    have "NOT r = - 1 - r" by (simp add: not_eq_complement)
    moreover have "unat (- 1 :: u32) = 2 ^ 32 - 1"
      by (simp add: unsigned_minus_1_eq_mask mask_eq_exp_minus_1)
    ultimately show ?thesis by (simp add: unat_sub)
  qed
  have "(0xFFFF :: u32) = mask 16" by (simp add: mask_eq_exp_minus_1)
  then have "unat (NOT r AND 0xFFFF) = (2 ^ 32 - 1 - unat r) mod 65536"
    by (simp only: flip: take_bit_eq_mask)
      (simp only: unsigned_take_bit_eq n, simp add: take_bit_eq_mod)
  also have "\<dots> = 65535 - unat r"
  proof -
    have "2 ^ 32 - 1 - unat r = 65535 * 65536 + (65535 - unat r)" using assms by simp
    then show ?thesis by (simp only: mod_mult_self3) simp
  qed
  finally show ?thesis by (simp add: unsigned_ucast_eq take_bit_eq_mod)
qed

text \<open>
  Below 128 KiB the 32-bit accumulator never wraps, so the routine is the complement of the
  twice folded sum.
\<close>

lemma calc_checksum16_value:
  assumes "sz \<le> length buff" and "sz \<le> 131072"
  shows "unat (calc_checksum16 buff sz) = 65535 - oc_fold (oc_fold (word_sum (take sz buff)))"
proof -
  let ?n = "sz div 2"
  define acc where "acc = foldl (\<lambda>r i. r + ucast (ptr16 buff i)) (0 :: u32) [0..<?n]"
  define res where
    "res = (if odd sz then acc + push_bit 8 (ucast (buff ! (sz - 1))) else acc)"
  have acc: "acc = of_nat (word_sum (take (2 * ?n) buff))"
    unfolding acc_def using assms(1)
    by (simp add: word_sum_take_even foldl_add_of_nat [of "\<lambda>i. unat (ptr16 buff i)" 0, simplified])
  have "res = of_nat (word_sum (take sz buff))"
  proof (cases "odd sz")
    case True
    then have sz: "sz = Suc (2 * ?n)" by simp
    then have "2 * ?n < length buff" using assms(1) by simp
    from word_sum_take_odd [OF this] True sz acc show ?thesis
      unfolding res_def by (simp add: push_bit_eq_mult)
  next
    case False
    with acc show ?thesis unfolding res_def by simp
  qed
  moreover have small: "word_sum (take sz buff) < 2 ^ 32"
    using assms by (intro word_sum_bound_u32) simp
  ultimately have res: "unat res = word_sum (take sz buff)"
    by (simp add: unat_of_nat)
  have "calc_checksum16 buff sz = ucast (NOT (fold16 (fold16 res)) AND 0xFFFF)"
    unfolding calc_checksum16_def acc_def res_def by (simp add: Let_def)
  moreover have "unat (fold16 (fold16 res)) \<le> 65535"
    using small by (simp add: unat_fold16 res oc_fold_twice_le)
  ultimately show ?thesis
    by (simp only: unat_not_low16) (simp add: unat_fold16 res)
qed

text \<open>Changing one byte moves the sum by that change, weighted 1 or 256.\<close>

lemma word_sum_update:
  "i < length bs \<Longrightarrow> \<exists>w \<in> {1, 256}.
     word_sum (bs[i := v]) + w * unat (bs ! i) = word_sum bs + w * unat v"
proof (induction bs arbitrary: i rule: word_sum.induct)
  case (1 a b bs)
  show ?case
  proof (cases "i < 2")
    case True
    then have "i = 0 \<or> i = 1" by auto
    then show ?thesis by auto
  next
    case False
    then obtain j where "i = Suc (Suc j)" by (metis add_2_eq_Suc le_Suc_ex not_less)
    with 1 show ?thesis by fastforce
  qed
qed auto

lemma dvd_weighted_byte:
  assumes "65535 dvd x" and "65535 dvd y" and "w \<in> {1, 256 :: nat}"
    and eq: "x + w * a = y + w * b" and "a < 256" and "b < 256"
  shows "a = b"
proof -
  have "int x + int w * int a = int y + int w * int b"
    using eq by (metis of_nat_add of_nat_mult)
  then have "int x - int y = int w * (int b - int a)"
    by (simp add: right_diff_distrib)
  moreover have "65535 dvd int x - int y"
    using assms(1,2) by (metis dvd_diff of_nat_dvd_iff of_nat_numeral)
  ultimately have dvd: "65535 dvd int w * (int b - int a)" by simp
  have "\<bar>int w * (int b - int a)\<bar> < 65535"
    using assms(3,5,6) by auto
  with dvd_imp_le_int [OF _ dvd] have "int w * (int b - int a) = 0" by linarith
  then show ?thesis using assms(3) by auto
qed

section \<open>The contract of a PROM checksum\<close>

text \<open>
  What a client may rely on. The driver's routine provides it (below), and so does the
  checksum of the tool that writes the PROM image.
\<close>

locale prom_checksum =
  fixes ck :: "u8 list \<Rightarrow> nat"
  assumes ck_value:
    "length bs \<le> 131072 \<Longrightarrow> ck bs = 65535 - oc_fold (oc_fold (word_sum bs))"
begin

lemma ck_zero_iff:
  assumes "length bs \<le> 131072"
  shows "ck bs = 0 \<longleftrightarrow> 0 < word_sum bs \<and> 65535 dvd word_sum bs"
proof -
  have small: "word_sum bs < 2 ^ 32" using assms by (rule word_sum_bound_u32)
  from oc_fold_twice_le [OF small] oc_fold_twice_full [OF small] show ?thesis
    by (auto simp: ck_value [OF assms])
qed

lemma ck_append:
  assumes "even (length bs)" and "length bs + 2 \<le> 131072"
  shows "ck (bs @ le_bytes 2 (ck bs)) = 0"
proof -
  have len: "length bs \<le> 131072" using assms(2) by simp
  let ?s = "word_sum bs" and ?f = "oc_fold (oc_fold (word_sum bs))"
  have le: "?f \<le> 65535" using word_sum_bound_u32 [OF len] by (rule oc_fold_twice_le)
  have bytes: "word_sum (le_bytes 2 v) = v mod 65536" for v
    using le_val_le_bytes [of 2 v] by (simp add: numeral_2_eq_2)
  have sum: "word_sum (bs @ le_bytes 2 (ck bs)) = ?s + (65535 - ?f)"
    using assms(1) le by (simp add: word_sum_append bytes ck_value [OF len])
  have "(?s + (65535 - ?f)) mod 65535 = 0"
    using le oc_fold_mod [of ?s] oc_fold_mod [of "oc_fold ?s"]
    by (metis (no_types, lifting) add_diff_inverse_nat linorder_not_less mod_add_cong mod_self)
  moreover have "0 < ?s + (65535 - ?f)"
    by (cases "?s = 0") (simp_all add: oc_fold_def)
  ultimately show ?thesis
    using assms(2) by (subst ck_zero_iff) (simp_all add: sum dvd_eq_mod_eq_0)
qed

lemma ck_single_byte:
  assumes "length bs \<le> 131072" and "ck bs = 0" and "i < length bs" and "v \<noteq> bs ! i"
  shows "ck (bs[i := v]) \<noteq> 0"
proof
  assume "ck (bs[i := v]) = 0"
  then have x: "65535 dvd word_sum (bs[i := v])" using assms(1) by (simp add: ck_zero_iff)
  have y: "65535 dvd word_sum bs" using assms(1,2) by (simp add: ck_zero_iff)
  from word_sum_update [OF assms(3), of v] obtain w where w: "w \<in> {1, 256}"
    and eq: "word_sum (bs[i := v]) + w * unat (bs ! i) = word_sum bs + w * unat v" by blast
  from dvd_weighted_byte [OF x y w eq unat_u8_less unat_u8_less] assms(4) show False
    by (simp add: word_unat_eq_iff)
qed

end

interpretation driver_ck: prom_checksum "\<lambda>bs. unat (calc_checksum16 bs (length bs))"
  by unfold_locales (simp add: calc_checksum16_value)

end
