(* ===== verification/Prom.thy ===== *)
theory Prom
  imports Utils
begin

text \<open>
  \<^verbatim>\<open>prom_processing.c\<close> and \<^verbatim>\<open>prom_processing.h\<close>: the identity PROM. The theory models reading
  the PROM window of BAR2, loading and validating the image, the iteration over its
  entries and the three searches, and the packed entry structures. It shows that a loaded
  context satisfies \<open>prom_valid\<close>, on which iteration and search are memory safe and
  terminate, and that they are the plain list operations on the entries of the image.
\<close>

section \<open>Data\<close>

definition PROM_END_TAG :: u8 where [simp]: "PROM_END_TAG = 0"
definition PROM_DEVICE_TAG :: u8 where [simp]: "PROM_DEVICE_TAG = 1"
definition PROM_DMA_TAG :: u8 where [simp]: "PROM_DMA_TAG = 2"
definition PROM_DMA_EXT_TAG :: u8 where [simp]: "PROM_DMA_EXT_TAG = 3"
definition PROM_DMA_MASK_TAG :: u8 where [simp]: "PROM_DMA_MASK_TAG = 4"
definition PROM_DMA_ALIGN_TAG :: u8 where [simp]: "PROM_DMA_ALIGN_TAG = 5"
definition PROM_VERSION :: u8 where [simp]: "PROM_VERSION = 1"

abbreviation (input) "PROM_MAX_LENGTH \<equiv> (4096 :: nat)"
abbreviation (input) "PROM_FIRST_ENTRY_OFFSET \<equiv> (5 :: nat)"
abbreviation (input) "PROM_VERSION_OFFSET \<equiv> (4 :: nat)"

definition PROM_PERM_CAN_WRITE :: "u8 \<Rightarrow> bool" where
  "PROM_PERM_CAN_WRITE perm \<longleftrightarrow> perm AND 2 \<noteq> 0"

definition PROM_PERM_CAN_READ :: "u8 \<Rightarrow> bool" where
  "PROM_PERM_CAN_READ perm \<longleftrightarrow> perm AND 4 \<noteq> 0"

text \<open>
  \<^verbatim>\<open>struct prom_context\<close>. The I/O window is the function that \<^verbatim>\<open>ioread32\<close> computes on the byte
  offsets from \<^verbatim>\<open>base\<close>; \<open>prom_buff\<close> has \<open>PROM_MAX_LENGTH + 1\<close> bytes.
\<close>

record prom_context =
  prom_base :: "nat \<Rightarrow> u32"
  prom_buff :: "u8 list"
  prom_data_len :: nat
  prom_nentries :: nat
  prom_dma_nentries :: nat
  prom_nentries_with_minor :: nat

text \<open>
  The packed entry structures of the header, as one sum: the members of \<^verbatim>\<open>union prom_entry\<close>
  with their fields, and any other tag with its body.
\<close>

datatype prom_entry =
    Prom_Device "u8 list"
  | Prom_Dma "u16 list" u32 u8 "u8 list"
  | Prom_Dma_Ext u64 u64 u8 "u8 list"
  | Prom_Dma_Mask u8
  | Prom_Dma_Align u8
  | Prom_Other u8 "u8 list"

section \<open>Accessors\<close>

definition prom_get_buffer :: "prom_context \<Rightarrow> u8 list" where
  "prom_get_buffer context = prom_buff context"

definition prom_get_length :: "prom_context \<Rightarrow> nat" where
  "prom_get_length context = prom_data_len context"

definition prom_get_nentries :: "prom_context \<Rightarrow> nat" where
  "prom_get_nentries context = prom_nentries context"

definition prom_get_dma_nentries :: "prom_context \<Rightarrow> nat" where
  "prom_get_dma_nentries context = prom_dma_nentries context"

definition prom_get_nentries_with_minor :: "prom_context \<Rightarrow> nat" where
  "prom_get_nentries_with_minor context = prom_nentries_with_minor context"

text \<open>The test looks at the tag of the entry only.\<close>

definition prom_entry_needs_minor :: "u8 \<Rightarrow> bool" where
  "prom_entry_needs_minor tag \<longleftrightarrow>
     tag = PROM_DEVICE_TAG \<or> tag = PROM_DMA_TAG \<or> tag = PROM_DMA_EXT_TAG"

definition validate_prom :: "prom_context \<Rightarrow> bool" where
  "validate_prom context \<longleftrightarrow> calc_checksum16 (prom_buff context) (prom_data_len context) = 0"

section \<open>Iteration and search\<close>

text \<open>
  An entry pointer is its offset into \<open>prom_buff\<close>. A read through a pointer is defined
  inside the buffer only: outside it the result is \<open>None\<close>, for an access C does not define.
\<close>

definition prom_byte :: "prom_context \<Rightarrow> nat \<Rightarrow> u8 option" where
  "prom_byte context i = (if i < length (prom_buff context) then Some (prom_buff context ! i) else None)"

definition prom_first_entry :: "prom_context \<Rightarrow> nat" where
  "prom_first_entry context = PROM_FIRST_ENTRY_OFFSET"

definition prom_next_entry :: "prom_context \<Rightarrow> nat \<Rightarrow> nat option" where
  "prom_next_entry context entry =
     (case prom_byte context entry of None \<Rightarrow> None
      | Some tag \<Rightarrow>
          if tag = PROM_END_TAG then Some entry
          else (case prom_byte context (entry + 1) of None \<Rightarrow> None
                | Some sz \<Rightarrow> Some (entry + unat sz + 2)))"

text \<open>
  The macro \<^verbatim>\<open>prom_for_each_entry\<close>: the body maps the loop state to a new one (\<open>Inl\<close>) or
  returns from the enclosing function (\<open>Inr\<close>).
\<close>

function prom_for_each_from ::
    "prom_context \<Rightarrow> (nat \<Rightarrow> 's \<Rightarrow> 's + 'r) \<Rightarrow> nat \<Rightarrow> 's \<Rightarrow> ('s + 'r) option" where
  "prom_for_each_from context body pos s =
     (case prom_byte context pos of None \<Rightarrow> None
      | Some tag \<Rightarrow>
          if tag = PROM_END_TAG then Some (Inl s)
          else (case body pos s of Inr r \<Rightarrow> Some (Inr r)
                | Inl s' \<Rightarrow>
                    (case prom_next_entry context pos of None \<Rightarrow> None
                     | Some pos' \<Rightarrow> prom_for_each_from context body pos' s')))"
  by pat_completeness auto
termination
  by (relation "measure (\<lambda>(context, body, pos, s). length (prom_buff context) - pos)")
    (auto simp: prom_byte_def prom_next_entry_def split: if_splits)

declare prom_for_each_from.simps [simp del]

definition prom_for_each_entry ::
    "prom_context \<Rightarrow> (nat \<Rightarrow> 's \<Rightarrow> 's + 'r) \<Rightarrow> 's \<Rightarrow> ('s + 'r) option" where
  "prom_for_each_entry context body s =
     prom_for_each_from context body (prom_first_entry context) s"

text \<open>The result of a search: the entry found, or \<^verbatim>\<open>NULL\<close> when the loop ends.\<close>

definition found :: "('s + nat) option \<Rightarrow> nat option option" where
  "found r = map_option (case_sum (\<lambda>_. None) Some) r"

definition entry_tag :: "prom_context \<Rightarrow> nat \<Rightarrow> u8" where
  "entry_tag context entry = prom_buff context ! entry"

definition prom_find_entry :: "prom_context \<Rightarrow> int \<Rightarrow> nat option option" where
  "prom_find_entry context index =
     found (prom_for_each_entry context
       (\<lambda>pentry i. if i = index then Inr pentry else Inl (i + 1)) (0 :: int))"

definition prom_find_entry_with_minor :: "prom_context \<Rightarrow> int \<Rightarrow> nat option option" where
  "prom_find_entry_with_minor context minor =
     found (prom_for_each_entry context
       (\<lambda>pentry i.
          if prom_entry_needs_minor (entry_tag context pentry) then
            (if i = minor then Inr pentry else Inl (i + 1))
          else Inl i) (0 :: int))"

definition prom_find_entry_by_tag :: "prom_context \<Rightarrow> u8 \<Rightarrow> nat option option" where
  "prom_find_entry_by_tag context tag =
     found (prom_for_each_entry context
       (\<lambda>pentry _. if entry_tag context pentry = tag then Inr pentry else Inl ()) ())"

section \<open>Loading\<close>

definition check_magic :: "u32 \<Rightarrow> bool" where
  "check_magic magic =
     (let buff = le_bytes 4 (unat magic)
      in buff ! 0 = 0x44 \<and> buff ! 1 = 0x49 \<and> buff ! 2 = 0x41 \<and> buff ! 3 = 0x47)"

text \<open>
  The copy loop of \<^verbatim>\<open>read_prom\<close>: the bytes it stores from \<^verbatim>\<open>buff\<close> on. Each turn stores four
  bytes, also when fewer are asked for.
\<close>

function read_prom_loop :: "(nat \<Rightarrow> u32) \<Rightarrow> nat \<Rightarrow> nat \<Rightarrow> nat \<Rightarrow> u8 list" where
  "read_prom_loop base off_al i sz =
     (if i < sz then le_bytes 4 (unat (base (off_al + i))) @ read_prom_loop base off_al (i + 4) sz
      else [])"
  by pat_completeness auto
termination
  by (relation "measure (\<lambda>(base, off_al, i, sz). sz - i)") auto

declare read_prom_loop.simps [simp del]

definition read_prom :: "prom_context \<Rightarrow> nat \<Rightarrow> nat \<Rightarrow> (u8 list \<times> nat) res" where
  "read_prom context off count =
     (if off > PROM_MAX_LENGTH then Inl EINVAL
      else let off_al = off div 4 * 4;
               sz = min (PROM_MAX_LENGTH - off_al) count
           in Inr (read_prom_loop (prom_base context) off_al 0 sz, sz))"

text \<open>The counting loop of \<^verbatim>\<open>load_prom\<close>; it returns the offset at which it stopped.\<close>

definition count_entry :: "prom_context \<Rightarrow> u8 \<Rightarrow> prom_context" where
  "count_entry context tag =
     (let context = (if tag = PROM_DMA_TAG \<or> tag = PROM_DMA_EXT_TAG
                     then context\<lparr>prom_dma_nentries := prom_dma_nentries context + 1\<rparr> else context);
          context = (if prom_entry_needs_minor tag
                     then context\<lparr>prom_nentries_with_minor := prom_nentries_with_minor context + 1\<rparr>
                     else context)
      in context\<lparr>prom_nentries := prom_nentries context + 1\<rparr>)"

function load_scan :: "prom_context \<Rightarrow> nat \<Rightarrow> prom_context \<times> nat" where
  "load_scan context ent_i =
     (if ent_i < PROM_MAX_LENGTH \<and> prom_buff context ! ent_i \<noteq> PROM_END_TAG then
        load_scan (count_entry context (prom_buff context ! ent_i))
          (ent_i + unat (prom_buff context ! (ent_i + 1)) + 2)
      else (context, ent_i))"
  by pat_completeness auto
termination
  by (relation "measure (\<lambda>(context, ent_i). PROM_MAX_LENGTH - ent_i)") auto

declare load_scan.simps [simp del]

text \<open>
  \<^verbatim>\<open>load_prom\<close>. The parameters are the outcome of the allocation, the bytes of the generated
  \<^verbatim>\<open>default_prom.c\<close>, the heap bytes that follow \<^verbatim>\<open>context->buff\<close> in memory, and the window.
  The size byte after the scan is read at \<^verbatim>\<open>ent_i + 1\<close> before any bound is checked, and a
  scan that runs off the image puts that index beyond the buffer.
\<close>

definition size_after_scan :: "(nat \<Rightarrow> u8) \<Rightarrow> u8 list \<Rightarrow> nat \<Rightarrow> u8" where
  "size_after_scan heap buff i = (if i < length buff then buff ! i else heap i)"

definition load_image :: "u8 list \<Rightarrow> prom_context \<Rightarrow> prom_context res" where
  "load_image default_prom context =
     (if \<not> check_magic (prom_base context 0) then
        Inr (context\<lparr>prom_buff := memcpy_at (prom_buff context) 0 default_prom\<rparr>)
      else (case read_prom context 0 PROM_MAX_LENGTH of
              Inl _ \<Rightarrow> Inl EIO
            | Inr (bytes, n) \<Rightarrow>
                if n = PROM_MAX_LENGTH
                then Inr (context\<lparr>prom_buff := memcpy_at (prom_buff context) 0 bytes\<rparr>)
                else Inl EIO))"

definition load_entries :: "(nat \<Rightarrow> u8) \<Rightarrow> prom_context \<Rightarrow> prom_context res" where
  "load_entries heap context =
     (if prom_buff context ! PROM_VERSION_OFFSET \<noteq> PROM_VERSION then Inl EIO
      else let (context, ent_i) = load_scan context PROM_FIRST_ENTRY_OFFSET;
               sz = size_after_scan heap (prom_buff context) (ent_i + 1);
               context = context\<lparr>prom_data_len := ent_i + unat sz + 2\<rparr>
           in if prom_data_len context < PROM_MAX_LENGTH \<and>
                 prom_buff context ! ent_i = PROM_END_TAG \<and> (sz = 2 \<or> sz = 3)
              then (if validate_prom context then Inr context else Inl EIO)
              else Inl EIO)"

definition load_prom ::
    "unit kptr \<Rightarrow> u8 list \<Rightarrow> (nat \<Rightarrow> u8) \<Rightarrow> (nat \<Rightarrow> u32) \<Rightarrow> prom_context res" where
  "load_prom kzalloc default_prom heap base =
     (case test_ptr kzalloc of Inl e \<Rightarrow> Inl e
      | Inr _ \<Rightarrow>
          (case load_image default_prom
                  \<lparr>prom_base = base, prom_buff = replicate (PROM_MAX_LENGTH + 1) 0,
                   prom_data_len = 0, prom_nentries = 0, prom_dma_nentries = 0,
                   prom_nentries_with_minor = 0\<rparr> of
             Inl e \<Rightarrow> Inl e
           | Inr context \<Rightarrow> load_entries heap context))"

section \<open>Entry fields\<close>

text \<open>
  The fields of an entry, as the packed structures lay them out from the offset of the
  entry. A field read outside the buffer is \<open>None\<close>; a name ends at its first zero byte.
\<close>

definition field_at :: "u8 list \<Rightarrow> nat \<Rightarrow> nat \<Rightarrow> u8 list option" where
  "field_at buff i n = (if i + n \<le> length buff then Some (take n (drop i buff)) else None)"

definition u8_at :: "u8 list \<Rightarrow> nat \<Rightarrow> u8 option" where
  "u8_at buff i = map_option hd (field_at buff i 1)"

definition u16_at :: "u8 list \<Rightarrow> nat \<Rightarrow> u16 option" where
  "u16_at buff i = map_option (\<lambda>bs. of_nat (le_val bs)) (field_at buff i 2)"

definition u32_at :: "u8 list \<Rightarrow> nat \<Rightarrow> u32 option" where
  "u32_at buff i = map_option (\<lambda>bs. of_nat (le_val bs)) (field_at buff i 4)"

definition u64_at :: "u8 list \<Rightarrow> nat \<Rightarrow> u64 option" where
  "u64_at buff i = map_option (\<lambda>bs. of_nat (le_val bs)) (field_at buff i 8)"

definition cstr_at :: "u8 list \<Rightarrow> nat \<Rightarrow> u8 list option" where
  "cstr_at buff i = (if 0 \<in> set (drop i buff) then Some (takeWhile (\<lambda>b. b \<noteq> 0) (drop i buff)) else None)"

definition prom_device_entry :: "u8 list \<Rightarrow> nat \<Rightarrow> prom_entry option" where
  "prom_device_entry buff e = map_option Prom_Device (cstr_at buff (e + 2))"

definition prom_dma_entry :: "u8 list \<Rightarrow> nat \<Rightarrow> prom_entry option" where
  "prom_dma_entry buff e =
     (case (u16_at buff (e + 2), u16_at buff (e + 4), u16_at buff (e + 6),
            u32_at buff (e + 8), u8_at buff (e + 12), cstr_at buff (e + 13)) of
        (Some b0, Some b1, Some b2, Some len, Some perm, Some name) \<Rightarrow>
          Some (Prom_Dma [b0, b1, b2] len perm name)
      | _ \<Rightarrow> None)"

definition prom_dma_ext_entry :: "u8 list \<Rightarrow> nat \<Rightarrow> prom_entry option" where
  "prom_dma_ext_entry buff e =
     (case (u64_at buff (e + 2), u64_at buff (e + 10), u8_at buff (e + 18), cstr_at buff (e + 19)) of
        (Some base, Some len, Some perm, Some name) \<Rightarrow> Some (Prom_Dma_Ext base len perm name)
      | _ \<Rightarrow> None)"

definition prom_dma_mask :: "u8 list \<Rightarrow> nat \<Rightarrow> prom_entry option" where
  "prom_dma_mask buff e = map_option Prom_Dma_Mask (u8_at buff (e + 2))"

definition prom_dma_align :: "u8 list \<Rightarrow> nat \<Rightarrow> prom_entry option" where
  "prom_dma_align buff e = map_option Prom_Dma_Align (u8_at buff (e + 2))"

text \<open>The view of an entry through the member of the union that its tag selects.\<close>

definition prom_entry_at :: "u8 list \<Rightarrow> nat \<Rightarrow> prom_entry option" where
  "prom_entry_at buff e =
     (case (u8_at buff e, u8_at buff (e + 1)) of
        (Some tag, Some sz) \<Rightarrow>
          if tag = PROM_DEVICE_TAG then prom_device_entry buff e
          else if tag = PROM_DMA_TAG then prom_dma_entry buff e
          else if tag = PROM_DMA_EXT_TAG then prom_dma_ext_entry buff e
          else if tag = PROM_DMA_MASK_TAG then prom_dma_mask buff e
          else if tag = PROM_DMA_ALIGN_TAG then prom_dma_align buff e
          else map_option (Prom_Other tag) (field_at buff (e + 2) (unat sz))
      | _ \<Rightarrow> None)"

section \<open>The image as a list of entries\<close>

text \<open>
  The abstract view: the offsets of the entries from \<open>p\<close> on and the offset of the end
  marker, or \<open>None\<close> for an image without one.
\<close>

function prom_walk :: "u8 list \<Rightarrow> nat \<Rightarrow> (nat list \<times> nat) option" where
  "prom_walk buff p =
     (if p < PROM_MAX_LENGTH then
        if buff ! p = PROM_END_TAG then Some ([], p)
        else map_option (map_prod (Cons p) id) (prom_walk buff (p + unat (buff ! (p + 1)) + 2))
      else None)"
  by pat_completeness auto
termination
  by (relation "measure (\<lambda>(buff, p). PROM_MAX_LENGTH - p)") auto

declare prom_walk.simps [simp del]

definition is_dma_tag :: "u8 \<Rightarrow> bool" where
  "is_dma_tag tag \<longleftrightarrow> tag = PROM_DMA_TAG \<or> tag = PROM_DMA_EXT_TAG"

definition prom_offsets :: "prom_context \<Rightarrow> nat list" where
  "prom_offsets context =
     (case prom_walk (prom_buff context) PROM_FIRST_ENTRY_OFFSET of None \<Rightarrow> [] | Some (ps, _) \<Rightarrow> ps)"

definition minor_offsets :: "prom_context \<Rightarrow> nat list" where
  "minor_offsets context =
     filter (\<lambda>p. prom_entry_needs_minor (entry_tag context p)) (prom_offsets context)"

definition dma_offsets :: "prom_context \<Rightarrow> nat list" where
  "dma_offsets context = filter (\<lambda>p. is_dma_tag (entry_tag context p)) (prom_offsets context)"

text \<open>
  An image that checks: version 1, an end marker with a two or three byte body inside the
  image, and a zero checksum over the data.
\<close>

definition image_ok :: "u8 list \<Rightarrow> bool" where
  "image_ok buff \<longleftrightarrow>
     buff ! PROM_VERSION_OFFSET = PROM_VERSION \<and>
     (case prom_walk buff PROM_FIRST_ENTRY_OFFSET of None \<Rightarrow> False
      | Some (_, e) \<Rightarrow>
          (buff ! (e + 1) = 2 \<or> buff ! (e + 1) = 3) \<and>
          e + unat (buff ! (e + 1)) + 2 < PROM_MAX_LENGTH \<and>
          calc_checksum16 buff (e + unat (buff ! (e + 1)) + 2) = 0)"

text \<open>The invariant of a loaded context: a checked image and the counts of its entries.\<close>

definition prom_valid :: "prom_context \<Rightarrow> bool" where
  "prom_valid context \<longleftrightarrow>
     length (prom_buff context) = PROM_MAX_LENGTH + 1 \<and> image_ok (prom_buff context) \<and>
     (case prom_walk (prom_buff context) PROM_FIRST_ENTRY_OFFSET of None \<Rightarrow> False
      | Some (_, e) \<Rightarrow> prom_data_len context = e + unat (prom_buff context ! (e + 1)) + 2) \<and>
     prom_nentries context = length (prom_offsets context) \<and>
     prom_dma_nentries context = length (dma_offsets context) \<and>
     prom_nentries_with_minor context = length (minor_offsets context)"

text \<open>A window whose bytes are given as a list.\<close>

definition rom_of :: "u8 list \<Rightarrow> nat \<Rightarrow> u32" where
  "rom_of w off = of_nat (le_val (take 4 (drop off w)))"

definition window_of :: "u8 list \<Rightarrow> u8 list" where
  "window_of img = img @ replicate (PROM_MAX_LENGTH - length img) 0"

text \<open>The buffer after the copy: the window with its magic number, else the fallback image.\<close>

definition loaded_image :: "u8 list \<Rightarrow> u8 list \<Rightarrow> u8 list" where
  "loaded_image default_prom w =
     (if take 4 w = [0x44, 0x49, 0x41, 0x47] then w @ [0]
      else default_prom @ replicate (PROM_MAX_LENGTH + 1 - length default_prom) 0)"

text \<open>Running a loop body over a list: the reference for \<open>prom_for_each_entry\<close>.\<close>

fun for_list :: "('e \<Rightarrow> 's \<Rightarrow> 's + 'r) \<Rightarrow> 'e list \<Rightarrow> 's \<Rightarrow> 's + 'r" where
  "for_list body [] s = Inl s"
| "for_list body (e # es) s = (case body e s of Inr r \<Rightarrow> Inr r | Inl s' \<Rightarrow> for_list body es s')"

section \<open>Lemmas on loading\<close>

lemma count_entry_fields [simp]:
  "prom_buff (count_entry c t) = prom_buff c"
  "prom_base (count_entry c t) = prom_base c"
  "prom_nentries (count_entry c t) = Suc (prom_nentries c)"
  "prom_dma_nentries (count_entry c t) = prom_dma_nentries c + (if is_dma_tag t then 1 else 0)"
  "prom_nentries_with_minor (count_entry c t) =
     prom_nentries_with_minor c + (if prom_entry_needs_minor t then 1 else 0)"
  by (auto simp: count_entry_def is_dma_tag_def Let_def)

text \<open>The scan stops where the walk does and counts what the walk visits.\<close>

lemma load_scan_spec:
  "load_scan c p = (c', e) \<Longrightarrow>
     prom_buff c' = prom_buff c \<and> prom_base c' = prom_base c \<and>
     (case prom_walk (prom_buff c) p of
        None \<Rightarrow> PROM_MAX_LENGTH \<le> e
      | Some (ps, e') \<Rightarrow>
          e' = e \<and> e < PROM_MAX_LENGTH \<and> prom_buff c ! e = PROM_END_TAG \<and>
          prom_nentries c' = prom_nentries c + length ps \<and>
          prom_dma_nentries c' =
            prom_dma_nentries c + length (filter (\<lambda>q. is_dma_tag (prom_buff c ! q)) ps) \<and>
          prom_nentries_with_minor c' =
            prom_nentries_with_minor c +
            length (filter (\<lambda>q. prom_entry_needs_minor (prom_buff c ! q)) ps))"
proof (induction c p rule: load_scan.induct)
  case (1 c p)
  show ?case
  proof (cases "p < PROM_MAX_LENGTH \<and> prom_buff c ! p \<noteq> PROM_END_TAG")
    case True
    let ?q = "p + unat (prom_buff c ! (p + 1)) + 2"
    have "load_scan (count_entry c (prom_buff c ! p)) ?q = (c', e)"
      using "1.prems" True by (simp add: load_scan.simps [of c p])
    from "1.IH" [OF True this] True show ?thesis
      by (auto simp: prom_walk.simps [of "prom_buff c" p] split: option.splits)
  next
    case False
    with "1.prems" have "c' = c" "e = p" by (auto simp: load_scan.simps [of c p])
    with False show ?thesis
      by (auto simp: prom_walk.simps [of "prom_buff c" p])
  qed
qed

lemma prom_walk_Some:
  "prom_walk buff p = Some (ps, e) \<longleftrightarrow>
     p < PROM_MAX_LENGTH \<and>
     (if buff ! p = PROM_END_TAG then ps = [] \<and> e = p
      else \<exists>qs. ps = p # qs \<and> prom_walk buff (p + unat (buff ! (p + 1)) + 2) = Some (qs, e))"
  by (auto simp: prom_walk.simps [of buff p] map_prod_def)

lemma prom_walk_induct [consumes 1, case_names End Entry]:
  assumes "prom_walk buff p = Some (ps, e)"
    and "\<And>p. p < PROM_MAX_LENGTH \<Longrightarrow> buff ! p = 0 \<Longrightarrow> P p [] p"
    and "\<And>p ps e. p < PROM_MAX_LENGTH \<Longrightarrow> buff ! p \<noteq> 0 \<Longrightarrow>
           prom_walk buff (p + unat (buff ! (p + 1)) + 2) = Some (ps, e) \<Longrightarrow>
           P (p + unat (buff ! (p + 1)) + 2) ps e \<Longrightarrow> P p (p # ps) e"
  shows "P p ps e"
  using assms(1)
proof (induction p arbitrary: ps e rule: measure_induct_rule [where f = "\<lambda>p. PROM_MAX_LENGTH - p"])
  case (less p)
  let ?q = "p + unat (buff ! (p + 1)) + 2"
  from less.prems have p: "p < PROM_MAX_LENGTH" by (simp add: prom_walk_Some)
  show ?case
  proof (cases "buff ! p = 0")
    case True
    with less.prems have "ps = []" "e = p" by (simp_all add: prom_walk_Some [of buff p])
    with p True show ?thesis by (simp add: assms(2))
  next
    case False
    with prom_walk_Some [of buff p ps e, THEN iffD1, OF less.prems] obtain qs
      where qs: "ps = p # qs" and w: "prom_walk buff ?q = Some (qs, e)" by auto
    from less.IH [OF _ w] p have "P ?q qs e" by simp
    with qs w p False show ?thesis by (simp add: assms(3))
  qed
qed

lemma prom_walk_end:
  "prom_walk buff p = Some (ps, e) \<Longrightarrow>
     p \<le> e \<and> e < PROM_MAX_LENGTH \<and> buff ! e = PROM_END_TAG"
  by (induction rule: prom_walk_induct) auto

lemma prom_walk_entries:
  "prom_walk buff p = Some (ps, e) \<Longrightarrow>
     \<forall>q \<in> set ps. p \<le> q \<and> q < e \<and> buff ! q \<noteq> PROM_END_TAG"
  by (induction rule: prom_walk_induct) (fastforce dest: prom_walk_end)+

lemma prom_walk_sorted: "prom_walk buff p = Some (ps, e) \<Longrightarrow> sorted_wrt (<) ps"
  by (induction rule: prom_walk_induct) (fastforce dest: prom_walk_entries)+

text \<open>Only the tag and size bytes steer the walk.\<close>

lemma prom_walk_cong:
  "prom_walk buff p = Some (ps, e) \<Longrightarrow>
     (\<forall>q \<in> set ps. buff' ! q = buff ! q \<and> buff' ! (q + 1) = buff ! (q + 1)) \<Longrightarrow>
     buff' ! e = buff ! e \<Longrightarrow> prom_walk buff' p = Some (ps, e)"
proof (induction rule: prom_walk_induct)
  case (End p)
  then show ?case by (simp add: prom_walk_Some)
next
  case (Entry p ps e)
  then show ?case by (simp add: prom_walk_Some [of buff' p])
qed

text \<open>
  The checks of \<^verbatim>\<open>load_prom\<close> after the copy accept exactly the images that check. The byte
  read beyond the buffer never decides: the data length is then already too long.
\<close>

lemma load_entries_accepts:
  assumes "length (prom_buff c) = PROM_MAX_LENGTH + 1"
  shows "load_entries heap c =
    (if image_ok (prom_buff c) then
       (case load_scan c PROM_FIRST_ENTRY_OFFSET of (c', e) \<Rightarrow>
          Inr (c'\<lparr>prom_data_len := e + unat (prom_buff c ! (e + 1)) + 2\<rparr>))
     else Inl EIO)"
proof -
  obtain c' e where scan: "load_scan c PROM_FIRST_ENTRY_OFFSET = (c', e)" by fastforce
  note spec = load_scan_spec [OF scan]
  show ?thesis
  proof (cases "prom_walk (prom_buff c) PROM_FIRST_ENTRY_OFFSET")
    case None
    with spec scan assms show ?thesis
      by (auto simp: load_entries_def image_ok_def Let_def size_after_scan_def)
  next
    case (Some r)
    then obtain ps where w: "prom_walk (prom_buff c) PROM_FIRST_ENTRY_OFFSET = Some (ps, e)"
      using spec by (cases r) auto
    with spec have e: "e < PROM_MAX_LENGTH" "prom_buff c ! e = PROM_END_TAG"
      and b: "prom_buff c' = prom_buff c" by auto
    from e(1) assms have "size_after_scan heap (prom_buff c') (e + 1) = prom_buff c ! (e + 1)"
      by (simp add: size_after_scan_def b)
    then show ?thesis using scan w e(2) b
      by (auto simp: load_entries_def image_ok_def Let_def validate_prom_def)
  qed
qed

lemma load_entries_valid:
  assumes "length (prom_buff c) = PROM_MAX_LENGTH + 1" and "prom_nentries c = 0"
    and "prom_dma_nentries c = 0" and "prom_nentries_with_minor c = 0"
    and "load_entries heap c = Inr c'"
  shows "prom_valid c' \<and> prom_buff c' = prom_buff c"
proof -
  obtain c1 e where scan: "load_scan c PROM_FIRST_ENTRY_OFFSET = (c1, e)" by fastforce
  with assms(1,5) have ok: "image_ok (prom_buff c)"
    and c': "c' = c1\<lparr>prom_data_len := e + unat (prom_buff c ! (e + 1)) + 2\<rparr>"
    by (auto simp: load_entries_accepts split: if_splits)
  note spec = load_scan_spec [OF scan]
  from ok obtain ps where w: "prom_walk (prom_buff c) PROM_FIRST_ENTRY_OFFSET = Some (ps, e)"
    using spec by (auto simp: image_ok_def split: option.splits)
  with spec have "prom_buff c1 = prom_buff c" "prom_nentries c1 = length ps"
    "prom_dma_nentries c1 = length (filter (\<lambda>q. is_dma_tag (prom_buff c ! q)) ps)"
    "prom_nentries_with_minor c1 = length (filter (\<lambda>q. prom_entry_needs_minor (prom_buff c ! q)) ps)"
    using assms(2-4) by auto
  then show ?thesis using assms(1) ok w
    by (simp add: c' prom_valid_def prom_offsets_def dma_offsets_def minor_offsets_def entry_tag_def)
qed

lemma length_read_prom_loop:
  "length (read_prom_loop base off i sz) = (if i < sz then 4 * ((sz - i + 3) div 4) else 0)"
proof (induction base off i sz rule: read_prom_loop.induct)
  case (1 base off i sz)
  show ?case
  proof (cases "i < sz")
    case True
    have "4 * ((sz - i + 3) div 4) = 4 + (if i + 4 < sz then 4 * ((sz - (i + 4) + 3) div 4) else 0)"
    proof (cases "i + 4 < sz")
      case True
      then have "sz - i + 3 = 4 + (sz - (i + 4) + 3)" by simp
      then show ?thesis using True by (simp only: div_add_self1) simp
    next
      case False
      with \<open>i < sz\<close> have "sz - i + 3 \<in> {4..<8}" by auto
      then have "(sz - i + 3) div 4 = 1" by auto
      with False show ?thesis by simp
    qed
    with True 1 show ?thesis by (simp add: read_prom_loop.simps [of base off i])
  qed (simp add: read_prom_loop.simps)
qed

lemma le_bytes_le_val: "le_bytes (length bs) (le_val bs) = bs"
proof (induction bs)
  case (Cons b bs)
  have "of_nat (le_val (b # bs)) = b"
    by (simp only: word_unat_eq_iff unat_of_nat) (simp add: unat_u8_less)
  moreover have "le_val (b # bs) div 256 = le_val bs" using unat_u8_less [of b] by simp
  ultimately show ?case using Cons by simp
qed simp

lemma le_bytes_rom_of:
  assumes "off + 4 \<le> length w"
  shows "le_bytes 4 (unat (rom_of w off)) = take 4 (drop off w)"
proof -
  let ?bs = "take 4 (drop off w)"
  have len: "length ?bs = 4" using assms by simp
  then have "le_val ?bs < 2 ^ 32" using le_val_bound [of ?bs] by simp
  then have "unat (rom_of w off) = le_val ?bs" by (simp add: rom_of_def unat_of_nat)
  then show ?thesis using le_bytes_le_val [of ?bs] len by simp
qed

text \<open>From an aligned offset, the loop copies the bytes of the window from there on.\<close>

lemma read_prom_loop_rom:
  "i mod 4 = 0 \<Longrightarrow> sz mod 4 = 0 \<Longrightarrow> off + sz \<le> length w \<Longrightarrow>
     read_prom_loop (rom_of w) off i sz = take (sz - i) (drop (off + i) w)"
proof (induction "sz - i" arbitrary: i rule: less_induct)
  case less
  show ?case
  proof (cases "i < sz")
    case True
    with less.prems have next4: "i + 4 \<le> sz" by presburger
    have "read_prom_loop (rom_of w) off i sz =
        take 4 (drop (off + i) w) @ read_prom_loop (rom_of w) off (i + 4) sz"
      using True next4 less.prems(3)
      by (subst read_prom_loop.simps) (simp add: le_bytes_rom_of)
    also have "read_prom_loop (rom_of w) off (i + 4) sz = take (sz - (i + 4)) (drop (off + (i + 4)) w)"
      by (rule less.hyps) (use True less.prems in auto)
    also have "take 4 (drop (off + i) w) @ \<dots> = take (sz - i) (drop (off + i) w)"
      using next4 take_add [of 4 "sz - (i + 4)" "drop (off + i) w"] by (simp add: ac_simps)
    finally show ?thesis .
  next
    case False
    then show ?thesis by (simp add: read_prom_loop.simps)
  qed
qed

lemma load_image_length:
  assumes "length (prom_buff c) = PROM_MAX_LENGTH + 1" and "length d \<le> PROM_MAX_LENGTH + 1"
    and "load_image d c = Inr c'"
  shows "length (prom_buff c') = PROM_MAX_LENGTH + 1 \<and> prom_nentries c' = prom_nentries c \<and>
    prom_dma_nentries c' = prom_dma_nentries c \<and>
    prom_nentries_with_minor c' = prom_nentries_with_minor c \<and> prom_base c' = prom_base c"
  using assms
  by (auto simp: load_image_def read_prom_def memcpy_at_def length_read_prom_loop Let_def split: if_splits)

lemma check_magic_rom_of:
  assumes "4 \<le> length w"
  shows "check_magic (rom_of w 0) \<longleftrightarrow> take 4 w = [0x44, 0x49, 0x41, 0x47]"
proof -
  have "le_bytes 4 (unat (rom_of w 0)) = take 4 w" using assms by (simp add: le_bytes_rom_of)
  moreover obtain b0 b1 b2 b3 r where "w = b0 # b1 # b2 # b3 # r"
    using assms by (auto simp: Suc_le_length_iff numeral_eq_Suc)
  ultimately show ?thesis by (simp add: check_magic_def Let_def)
qed

lemma memcpy_at_zeros: "memcpy_at (replicate n 0) 0 src = src @ replicate (n - length src) 0"
  by (simp add: memcpy_at_def)

lemma load_image_window:
  assumes "length w = PROM_MAX_LENGTH" and "length d \<le> PROM_MAX_LENGTH"
    and base: "prom_base c = rom_of w" and buff: "prom_buff c = replicate (PROM_MAX_LENGTH + 1) 0"
  shows "load_image d c = Inr (c\<lparr>prom_buff := loaded_image d w\<rparr>)"
proof -
  have "read_prom_loop (rom_of w) 0 0 PROM_MAX_LENGTH = w"
    using assms(1) by (simp add: read_prom_loop_rom)
  then have "read_prom c 0 PROM_MAX_LENGTH = Inr (w, PROM_MAX_LENGTH)"
    by (simp add: read_prom_def base)
  moreover have "replicate (PROM_MAX_LENGTH + 1 - length w) (0 :: u8) = [0]"
    by (simp add: assms(1))
  moreover have "check_magic (prom_base c 0) \<longleftrightarrow> take 4 w = [0x44, 0x49, 0x41, 0x47]"
    unfolding base by (rule check_magic_rom_of) (simp add: assms(1))
  ultimately show ?thesis
    unfolding load_image_def buff memcpy_at_zeros loaded_image_def by auto
qed

lemma length_loaded_image:
  "length w = PROM_MAX_LENGTH \<Longrightarrow> length d \<le> PROM_MAX_LENGTH \<Longrightarrow>
     length (loaded_image d w) = PROM_MAX_LENGTH + 1"
  by (simp add: loaded_image_def)

text \<open>The outcome of loading a given window, whatever lies behind the buffer.\<close>

lemma load_prom_window:
  assumes "length w = PROM_MAX_LENGTH" and "length d \<le> PROM_MAX_LENGTH"
  shows "if image_ok (loaded_image d w)
    then \<exists>c. load_prom (Ptr ()) d heap (rom_of w) = Inr c \<and> prom_valid c \<and>
           prom_buff c = loaded_image d w
    else load_prom (Ptr ()) d heap (rom_of w) = Inl EIO"
proof -
  define c where "c = \<lparr>prom_base = rom_of w, prom_buff = loaded_image d w, prom_data_len = 0,
    prom_nentries = 0, prom_dma_nentries = 0, prom_nentries_with_minor = 0\<rparr>"
  have len: "length (prom_buff c) = PROM_MAX_LENGTH + 1"
    using assms by (simp add: c_def length_loaded_image)
  have load: "load_prom (Ptr ()) d heap (rom_of w) = load_entries heap c"
    using assms by (simp add: load_prom_def load_image_window c_def)
  show ?thesis
  proof (cases "image_ok (loaded_image d w)")
    case True
    then obtain c' where "load_entries heap c = Inr c'"
      using len by (cases "load_scan c PROM_FIRST_ENTRY_OFFSET") (auto simp: load_entries_accepts c_def)
    with load_entries_valid [OF len _ _ _ this] True load show ?thesis
      by (auto simp: c_def)
  next
    case False
    with len load show ?thesis by (simp add: load_entries_accepts c_def)
  qed
qed

section \<open>Lemmas on iteration and search\<close>

lemma prom_for_each_from_walk:
  assumes "length (prom_buff c) = PROM_MAX_LENGTH + 1"
    and "prom_walk (prom_buff c) p = Some (ps, e)"
  shows "prom_for_each_from c body p s = Some (for_list body ps s)"
  using assms(2)
proof (induction arbitrary: s rule: prom_walk_induct)
  case (End p)
  with assms(1) show ?case
    by (simp add: prom_for_each_from.simps [of c body p] prom_byte_def)
next
  case (Entry p ps e)
  from Entry.hyps(1) assms(1)
  have "prom_next_entry c p = Some (p + unat (prom_buff c ! (p + 1)) + 2)"
    using Entry.hyps(2) by (simp add: prom_next_entry_def prom_byte_def)
  with Entry assms(1) show ?case
    by (simp add: prom_for_each_from.simps [of c body p] prom_byte_def split: sum.split)
qed

lemma prom_valid_walk:
  "prom_valid c \<Longrightarrow>
     \<exists>e. prom_walk (prom_buff c) PROM_FIRST_ENTRY_OFFSET = Some (prom_offsets c, e) \<and>
       prom_data_len c = e + unat (prom_buff c ! (e + 1)) + 2 \<and>
       (prom_buff c ! (e + 1) = 2 \<or> prom_buff c ! (e + 1) = 3) \<and>
       prom_data_len c < PROM_MAX_LENGTH"
  by (auto simp: prom_valid_def prom_offsets_def image_ok_def split: option.splits)

lemma prom_for_each_entry_list:
  "prom_valid c \<Longrightarrow> prom_for_each_entry c body s = Some (for_list body (prom_offsets c) s)"
  using prom_valid_walk [of c]
  by (auto simp: prom_for_each_entry_def prom_first_entry_def prom_valid_def
      intro!: prom_for_each_from_walk)

text \<open>The counting search over a list, with the entries that do not count skipped.\<close>

lemma for_list_index:
  "for_list (\<lambda>p i. if P p then (if i = n then Inr p else Inl (i + 1)) else Inl i) ps (k :: int) =
     (let qs = filter P ps
      in if k \<le> n \<and> n < k + int (length qs) then Inr (qs ! nat (n - k))
         else Inl (k + int (length qs)))"
proof (induction ps arbitrary: k)
  case (Cons p ps)
  show ?case
  proof (cases "P p \<and> k \<noteq> n")
    case True
    show ?thesis
    proof (cases "k + 1 \<le> n")
      case True
      then have "nat (n - k) = Suc (nat (n - (k + 1)))" by simp
      with \<open>P p \<and> k \<noteq> n\<close> True Cons [of "k + 1"] show ?thesis by (simp add: Let_def)
    next
      case False
      with \<open>P p \<and> k \<noteq> n\<close> Cons [of "k + 1"] show ?thesis by (simp add: Let_def)
    qed
  next
    case False
    with Cons [of k] show ?thesis by (auto simp: Let_def)
  qed
qed simp

lemma for_list_find:
  "for_list (\<lambda>p _. if P p then Inr p else Inl ()) ps s =
     (case find P ps of None \<Rightarrow> Inl () | Some p \<Rightarrow> Inr p)"
  by (induction ps arbitrary: s) auto

lemma prom_find_entry_nth:
  "prom_valid c \<Longrightarrow>
     prom_find_entry c n =
       Some (if 0 \<le> n \<and> n < int (length (prom_offsets c)) then Some (prom_offsets c ! nat n) else None)"
  using for_list_index [of "\<lambda>_. True" n "prom_offsets c" 0]
  by (simp add: prom_find_entry_def prom_for_each_entry_list found_def Let_def)

lemma prom_find_entry_with_minor_nth:
  "prom_valid c \<Longrightarrow>
     prom_find_entry_with_minor c n =
       Some (if 0 \<le> n \<and> n < int (length (minor_offsets c)) then Some (minor_offsets c ! nat n) else None)"
  using for_list_index [of "\<lambda>p. prom_entry_needs_minor (entry_tag c p)" n "prom_offsets c" 0]
  by (simp add: prom_find_entry_with_minor_def prom_for_each_entry_list found_def Let_def
      minor_offsets_def)

lemma prom_find_entry_by_tag_find:
  "prom_valid c \<Longrightarrow>
     prom_find_entry_by_tag c t = Some (find (\<lambda>p. entry_tag c p = t) (prom_offsets c))"
  by (simp add: prom_find_entry_by_tag_def prom_for_each_entry_list found_def for_list_find
      split: option.split)

end
