(* ===== verification/Prom_Creator.thy ===== *)
theory Prom_Creator
  imports Prom
begin

text \<open>
  \<^verbatim>\<open>tools/prom_data_creator.py\<close>: the tool that writes the PROM image, and at build time the
  fallback image of \<^verbatim>\<open>default_prom.c\<close>. The theory models the dump functions byte for byte,
  from the parsed fields of the configuration on, and shows that the tool and the driver
  agree: the tool's checksum meets the contract of the driver's, and the driver loads every
  image the tool writes and finds in it the entries of the configuration.
\<close>

section \<open>Packing\<close>

text \<open>
  Python integers are unbounded; \<^verbatim>\<open>struct.pack\<close> raises on a value outside its field. The other
  exceptions are those of the text layer and of \<^verbatim>\<open>main\<close>.
\<close>

datatype py_error = StructError | ValueError | AssertionError

definition pack_uint :: "nat \<Rightarrow> int \<Rightarrow> py_error + u8 list" where
  "pack_uint n v = (if 0 \<le> v \<and> v < 256 ^ n then Inr (le_bytes n (nat v)) else Inl StructError)"

fun pack :: "(nat \<times> int) list \<Rightarrow> py_error + u8 list" where
  "pack [] = Inr []"
| "pack ((n, v) # fs) =
     (case pack_uint n v of Inl e \<Rightarrow> Inl e
      | Inr bs \<Rightarrow> (case pack fs of Inl e \<Rightarrow> Inl e | Inr bs' \<Rightarrow> Inr (bs @ bs')))"

definition py_append :: "py_error + u8 list \<Rightarrow> u8 list \<Rightarrow> py_error + u8 list" where
  "py_append r bs = map_sum id (\<lambda>xs. xs @ bs) r"

section \<open>The dump functions\<close>

definition dump_memory_description ::
    "u8 list \<Rightarrow> int \<Rightarrow> int \<Rightarrow> int \<Rightarrow> py_error + u8 list" where
  "dump_memory_description name base len perm =
     (if base > 0xffffffffffff \<or> len > 0xffffffff then
        py_append (pack [(1, 3), (1, int (length name) + 18), (8, base), (8, len), (1, perm)])
          (name @ [0])
      else
        py_append (pack [(1, 2), (1, int (length name) + 12), (4, base mod 2 ^ 32),
            (2, base div 2 ^ 32), (4, len), (1, perm)])
          (name @ [0]))"

definition dump_header :: "int \<Rightarrow> py_error + u8 list" where
  "dump_header version =
     map_sum id (\<lambda>bs. [0x44, 0x49, 0x41, 0x47] @ bs) (pack [(1, if version = 0 then 1 else version)])"

definition dump_device_description :: "u8 list \<Rightarrow> py_error + u8 list" where
  "dump_device_description name = py_append (pack [(1, 1), (1, int (length name) + 1)]) (name @ [0])"

definition dump_dma_mask :: "int \<Rightarrow> py_error + u8 list" where
  "dump_dma_mask m = pack [(1, 4), (1, 1), (1, m)]"

definition dump_dma_alignment_shift :: "int \<Rightarrow> py_error + u8 list" where
  "dump_dma_alignment_shift shift = pack [(1, 5), (1, 1), (1, shift)]"

definition py_fold :: "int \<Rightarrow> int" where
  "py_fold result = (result AND 0xffff) + drop_bit 16 result"

definition checksum :: "u8 list \<Rightarrow> int" where
  "checksum content =
     (let result = foldl (\<lambda>r i. r + int (le_val [content ! (2 * i), content ! (2 * i + 1)])) 0
                     [0..<length content div 2];
          result = (if odd (length content) then result + push_bit 8 (uint (last content)) else result)
      in NOT (py_fold (py_fold result)) AND 0xffff)"

definition dump_end :: "u8 list \<Rightarrow> py_error + u8 list" where
  "dump_end content =
     (if content = [] then Inr [0, 0]
      else if odd (length content) then
        map_sum id (\<lambda>bs. [0, 3, 0] @ bs) (pack [(2, checksum (content @ [0, 3, 0]))])
      else
        map_sum id (\<lambda>bs. [0, 2] @ bs) (pack [(2, checksum (content @ [0, 2]))]))"

definition check_checksum :: "u8 list \<Rightarrow> bool" where
  "check_checksum prom_data \<longleftrightarrow> checksum prom_data = 0"

text \<open>
  One line of the configuration, after \<^verbatim>\<open>split\<close>, \<^verbatim>\<open>int\<close>, \<^verbatim>\<open>int_hex\<close> and \<^verbatim>\<open>perm_flag\<close>. Names are
  ASCII, one byte for each character.
\<close>

datatype config_line =
    Version int
  | Name "u8 list"
  | Region "u8 list" int int int
  | Mask int
  | Align_Shift int

fun dump_line :: "config_line \<Rightarrow> py_error + u8 list" where
  "dump_line (Version v) = dump_header v"
| "dump_line (Name name) = dump_device_description name"
| "dump_line (Region name perm base len) = dump_memory_description name base len perm"
| "dump_line (Mask m) = dump_dma_mask m"
| "dump_line (Align_Shift s) = dump_dma_alignment_shift s"

fun dump_lines :: "u8 list \<Rightarrow> config_line list \<Rightarrow> py_error + u8 list" where
  "dump_lines bin_data [] = Inr bin_data"
| "dump_lines bin_data (l # ls) =
     (case dump_line l of Inl e \<Rightarrow> Inl e | Inr bs \<Rightarrow> dump_lines (bin_data @ bs) ls)"

definition process_config :: "config_line list \<Rightarrow> py_error + u8 list" where
  "process_config ls =
     (case dump_lines [] ls of Inl e \<Rightarrow> Inl e
      | Inr bin_data \<Rightarrow>
          (case dump_end bin_data of Inl e \<Rightarrow> Inl e | Inr bs \<Rightarrow> Inr (bin_data @ bs)))"

text \<open>\<^verbatim>\<open>default_prom.config\<close>, and the entry a line describes to the driver.\<close>

definition default_prom_config :: "config_line list" where
  "default_prom_config =
     [Version 1,
      Name [0x61, 0x6d, 0x63, 0x35, 0x32, 0x35, 0x5f, 0x6d, 0x62, 0x66],
      Region [0x64, 0x64, 0x72, 0x30] 4 0x800000000000 0x80000000,
      Region [0x64, 0x64, 0x72, 0x31] 4 0x800080000000 0x08000000]"

fun entry_of_line :: "config_line \<Rightarrow> prom_entry" where
  "entry_of_line (Version v) = Prom_Other 0 []"
| "entry_of_line (Name name) = Prom_Device name"
| "entry_of_line (Region name perm base len) =
     (if base > 0xffffffffffff \<or> len > 0xffffffff
      then Prom_Dma_Ext (of_int base) (of_int len) (of_int perm) name
      else Prom_Dma [of_int base, of_int (base div 2 ^ 16), of_int (base div 2 ^ 32)]
             (of_int len) (of_int perm) name)"
| "entry_of_line (Mask m) = Prom_Dma_Mask (of_int m)"
| "entry_of_line (Align_Shift s) = Prom_Dma_Align (of_int s)"

text \<open>A line of an entry whose name, if it has one, holds no zero byte.\<close>

fun entry_line :: "config_line \<Rightarrow> bool" where
  "entry_line (Version v) = False"
| "entry_line (Name name) = (0 \<notin> set name)"
| "entry_line (Region name perm base len) = (0 \<notin> set name)"
| "entry_line (Mask m) = True"
| "entry_line (Align_Shift s) = True"

section \<open>The tool's checksum\<close>

lemma py_fold_oc_fold: "py_fold (int x) = int (oc_fold x)"
proof -
  have "(0xffff :: int) = mask 16" by (simp add: mask_eq_exp_minus_1)
  then have "int x AND 0xffff = int x mod 65536"
    by (simp only: flip: take_bit_eq_mask) (simp add: take_bit_eq_mod)
  then show ?thesis
    by (simp add: py_fold_def oc_fold_def drop_bit_eq_div zmod_int zdiv_int)
qed

lemma foldl_add_int: "foldl (\<lambda>r i. r + int (f i)) r xs = r + int (sum_list (map f xs))"
  by (induction xs arbitrary: r) auto

lemma checksum_sum:
  "checksum bs = NOT (py_fold (py_fold (int (word_sum bs)))) AND 0xffff"
proof -
  let ?n = "length bs div 2"
  have acc: "foldl (\<lambda>r i. r + int (le_val [bs ! (2 * i), bs ! (2 * i + 1)])) 0 [0..<?n] =
      int (word_sum (take (2 * ?n) bs))"
    by (simp only: foldl_add_int) (simp add: word_sum_take_even ptr16_def unat_le16)
  have "int (word_sum (take (2 * ?n) bs)) +
      (if odd (length bs) then push_bit 8 (uint (last bs)) else 0) = int (word_sum bs)"
  proof (cases "odd (length bs)")
    case True
    then obtain m where len: "length bs = Suc (2 * m)" by (metis oddE Suc_eq_plus1)
    have all: "take (Suc (2 * m)) bs = bs" using len by simp
    have last: "bs ! (2 * m) = last bs" using len by (subst last_conv_nth) auto
    have n: "?n = m" using len by simp
    have "word_sum (take (Suc (2 * m)) bs) = word_sum (take (2 * m) bs) + 256 * unat (bs ! (2 * m))"
      by (rule word_sum_take_odd) (simp add: len)
    then have "word_sum bs = word_sum (take (2 * ?n) bs) + 256 * unat (last bs)"
      by (simp only: all last n)
    with True show ?thesis by (simp add: push_bit_eq_mult)
  qed simp
  with acc show ?thesis unfolding checksum_def Let_def by (simp split: if_splits)
qed

interpretation tool_ck: prom_checksum "\<lambda>bs. nat (checksum bs)"
proof
  fix bs :: "u8 list"
  assume len: "length bs \<le> 131072"
  let ?f = "oc_fold (oc_fold (word_sum bs))"
  have le: "?f \<le> 65535" using word_sum_bound_u32 [OF len] by (rule oc_fold_twice_le)
  have m: "(0xffff :: int) = mask 16" by (simp add: mask_eq_exp_minus_1)
  have "NOT (int ?f) AND 0xffff = (- int ?f - 1) mod 65536"
    by (simp only: m flip: take_bit_eq_mask) (simp add: take_bit_eq_mod not_int_def)
  also have "\<dots> = 65535 - int ?f"
  proof -
    have "- int ?f - 1 = (65535 - int ?f) + (- 1) * 65536" by simp
    then have "(- int ?f - 1) mod 65536 = (65535 - int ?f) mod 65536"
      by (simp only: mod_mult_self1)
    with le show ?thesis by simp
  qed
  finally show "nat (checksum bs) = 65535 - ?f"
    by (simp add: checksum_sum py_fold_oc_fold)
qed

section \<open>Entries in an image\<close>

text \<open>An encoded entry: a tag that is not the end tag, the size of the body, the body.\<close>

definition enc_entry :: "u8 list \<Rightarrow> bool" where
  "enc_entry b \<longleftrightarrow> 2 \<le> length b \<and> b ! 0 \<noteq> 0 \<and> length b = unat (b ! 1) + 2"

fun offsets_from :: "nat \<Rightarrow> u8 list list \<Rightarrow> nat list" where
  "offsets_from p [] = []"
| "offsets_from p (b # bs) = p # offsets_from (p + length b) bs"

lemma prom_walk_encoded:
  assumes "\<forall>b \<in> set bs. enc_entry b" and "length pre + length (concat bs) < PROM_MAX_LENGTH"
  shows "prom_walk (pre @ concat bs @ 0 # post) (length pre) =
    Some (offsets_from (length pre) bs, length pre + length (concat bs))"
  using assms
proof (induction bs arbitrary: pre)
  case Nil
  then show ?case by (simp add: prom_walk_Some)
next
  case (Cons b bs)
  from Cons.prems have b: "2 \<le> length b" "b ! 0 \<noteq> 0" "length b = unat (b ! 1) + 2"
    by (auto simp: enc_entry_def)
  then have nth: "(pre @ concat (b # bs) @ 0 # post) ! length pre = b ! 0"
    "(pre @ concat (b # bs) @ 0 # post) ! (length pre + 1) = b ! 1"
    by (auto simp: nth_append)
  have "prom_walk ((pre @ b) @ concat bs @ 0 # post) (length (pre @ b)) =
      Some (offsets_from (length (pre @ b)) bs, length (pre @ b) + length (concat bs))"
    by (rule Cons.IH) (use Cons.prems in auto)
  with nth b Cons.prems(2) show ?case
    by (subst prom_walk_Some) (simp add: add.assoc)
qed

lemma le_bytes_add: "le_bytes (m + n) v = le_bytes m v @ le_bytes n (v div 256 ^ m)"
  by (induction m arbitrary: v) (auto simp: div_mult2_eq)

lemma le_bytes_mod: "le_bytes n (v mod 256 ^ n) = le_bytes n v"
proof -
  have "le_val (le_bytes n (v mod 256 ^ n)) = le_val (le_bytes n v)"
    by (simp add: le_val_le_bytes)
  then show ?thesis by (metis le_bytes_le_val length_le_bytes)
qed

lemma of_nat_le_val_le_bytes:
  "LENGTH('a) = 8 * n \<Longrightarrow> (of_nat (le_val (le_bytes n v)) :: 'a :: len word) = of_nat v"
  by (simp add: word_unat_eq_iff unat_of_nat le_val_le_bytes power_mult)

lemma field_at_here:
  "length pre = i \<Longrightarrow> length b = n \<Longrightarrow> field_at (pre @ b @ post) i n = Some b"
  by (auto simp: field_at_def)

lemma cstr_at_here:
  "length pre = i \<Longrightarrow> 0 \<notin> set name \<Longrightarrow> cstr_at (pre @ name @ 0 # post) i = Some name"
  by (auto simp: cstr_at_def takeWhile_append)


section \<open>Every dumped line is an entry the driver decodes\<close>

lemma pack_Cons_Inr:
  "pack ((n, v) # fs) = Inr bs \<longleftrightarrow>
     0 \<le> v \<and> v < 256 ^ n \<and> (\<exists>bs'. pack fs = Inr bs' \<and> bs = le_bytes n (nat v) @ bs')"
  by (auto simp: pack_uint_def split: sum.splits)

lemma map_sum_Inr: "map_sum id f r = Inr b \<longleftrightarrow> (\<exists>x. r = Inr x \<and> b = f x)"
  by (cases r) auto

lemmas field_defs = u8_at_def u16_at_def u32_at_def u64_at_def

lemma le_bytes_1: "le_bytes 1 v = [of_nat v]" "le_bytes (Suc 0) v = [of_nat v]"
  by simp_all

lemma dump_device_shape:
  assumes "dump_device_description name = Inr b"
  shows "length name < 255 \<and> b = [1, of_nat (length name + 1)] @ name @ [0]"
  using assms
  by (auto simp: dump_device_description_def py_append_def map_sum_Inr pack_Cons_Inr le_bytes_1 nat_add_distrib
      simp del: pack.simps(2))

lemma dump_dma_shape:
  assumes "dump_memory_description name base len perm = Inr b"
    and "\<not> (base > 0xffffffffffff \<or> len > 0xffffffff)"
  shows "length name < 244 \<and> 0 \<le> base \<and> 0 \<le> len \<and> 0 \<le> perm \<and>
    b = [2, of_nat (length name + 12)] @ le_bytes 2 (nat base) @ le_bytes 2 (nat base div 2 ^ 16) @
      le_bytes 2 (nat base div 2 ^ 32) @ le_bytes 4 (nat len) @ [of_nat (nat perm)] @ name @ [0]"
proof -
  from assms have range: "0 \<le> base div 2 ^ 32" "length name < 244" "0 \<le> len" "0 \<le> perm"
    and b: "b = [2, of_nat (length name + 12)] @ le_bytes 4 (nat (base mod 2 ^ 32)) @
      le_bytes 2 (nat (base div 2 ^ 32)) @ le_bytes 4 (nat len) @ [of_nat (nat perm)] @ name @ [0]"
    by (auto simp: dump_memory_description_def py_append_def map_sum_Inr pack_Cons_Inr le_bytes_1 nat_add_distrib
        simp del: pack.simps(2) split: sum.splits)
  from range(1) have base: "0 \<le> base" by (simp add: pos_imp_zdiv_nonneg_iff)
  then have "nat (base mod 2 ^ 32) = nat base mod 256 ^ 4" "nat (base div 2 ^ 32) = nat base div 2 ^ 32"
    by (simp_all add: nat_mod_distrib nat_div_distrib)
  then have "le_bytes 4 (nat (base mod 2 ^ 32)) = le_bytes (2 + 2) (nat base)"
    using le_bytes_mod [of 4 "nat base"] by simp
  then show ?thesis using range b base
    by (simp only: le_bytes_add) (simp add: nat_div_distrib)
qed

lemma dump_dma_ext_shape:
  assumes "dump_memory_description name base len perm = Inr b"
    and "base > 0xffffffffffff \<or> len > 0xffffffff"
  shows "length name < 238 \<and> 0 \<le> base \<and> 0 \<le> len \<and> 0 \<le> perm \<and>
    b = [3, of_nat (length name + 18)] @ le_bytes 8 (nat base) @ le_bytes 8 (nat len) @
      [of_nat (nat perm)] @ name @ [0]"
  using assms
  by (auto simp: dump_memory_description_def py_append_def map_sum_Inr pack_Cons_Inr le_bytes_1 nat_add_distrib
      simp del: pack.simps(2) split: sum.splits)


lemma u8_at_app: "u8_at (pre @ x # post) (length pre) = Some x"
    "u8_at (pre @ x # y # post) (Suc (length pre)) = Some y"
    "u8_at (pre @ x # y # z # post) (Suc (Suc (length pre))) = Some z"
  by (simp_all add: u8_at_def field_at_def)

lemma decode_device:
  assumes "0 \<notin> set name"
  shows "prom_entry_at (pre @ ([1, sz] @ name @ [0]) @ post) (length pre) = Some (Prom_Device name)"
proof -
  have "cstr_at ((pre @ [1, sz]) @ name @ 0 # post) (length pre + 2) = Some name"
    by (rule cstr_at_here) (use assms in auto)
  then show ?thesis
    by (simp add: prom_entry_at_def u8_at_app prom_device_entry_def)
qed

lemma decode_dma:
  assumes "0 \<notin> set name"
  shows "prom_entry_at (pre @ ([2, sz] @ le_bytes 2 b0 @ le_bytes 2 b1 @ le_bytes 2 b2 @
      le_bytes 4 len @ [perm] @ name @ [0]) @ post) (length pre) =
    Some (Prom_Dma [of_nat b0, of_nat b1, of_nat b2] (of_nat len) perm name)"
    (is "prom_entry_at ?buff _ = _")
proof -
  let ?e = "length pre"
  have "field_at ((pre @ [2, sz]) @ le_bytes 2 b0 @ le_bytes 2 b1 @ le_bytes 2 b2 @
      le_bytes 4 len @ [perm] @ name @ 0 # post) (?e + 2) 2 = Some (le_bytes 2 b0)"
    by (rule field_at_here) auto
  moreover have "field_at ((pre @ [2, sz] @ le_bytes 2 b0) @ le_bytes 2 b1 @ le_bytes 2 b2 @
      le_bytes 4 len @ [perm] @ name @ 0 # post) (?e + 4) 2 = Some (le_bytes 2 b1)"
    by (rule field_at_here) auto
  moreover have "field_at ((pre @ [2, sz] @ le_bytes 2 b0 @ le_bytes 2 b1) @ le_bytes 2 b2 @
      le_bytes 4 len @ [perm] @ name @ 0 # post) (?e + 6) 2 = Some (le_bytes 2 b2)"
    by (rule field_at_here) auto
  moreover have "field_at ((pre @ [2, sz] @ le_bytes 2 b0 @ le_bytes 2 b1 @ le_bytes 2 b2) @
      le_bytes 4 len @ [perm] @ name @ 0 # post) (?e + 8) 4 = Some (le_bytes 4 len)"
    by (rule field_at_here) auto
  moreover have "field_at ((pre @ [2, sz] @ le_bytes 2 b0 @ le_bytes 2 b1 @ le_bytes 2 b2 @
      le_bytes 4 len) @ [perm] @ name @ 0 # post) (?e + 12) 1 = Some [perm]"
    by (rule field_at_here) auto
  moreover have "cstr_at ((pre @ [2, sz] @ le_bytes 2 b0 @ le_bytes 2 b1 @ le_bytes 2 b2 @
      le_bytes 4 len @ [perm]) @ name @ 0 # post) (?e + 13) = Some name"
    by (rule cstr_at_here) (use assms in auto)
  ultimately show ?thesis
    by (simp add: prom_entry_at_def u8_at_app prom_dma_entry_def u16_at_def u32_at_def
        of_nat_le_val_le_bytes) (simp add: u8_at_def)
qed

lemma decode_dma_ext:
  assumes "0 \<notin> set name"
  shows "prom_entry_at (pre @ ([3, sz] @ le_bytes 8 base @ le_bytes 8 len @ [perm] @ name @ [0]) @ post)
      (length pre) = Some (Prom_Dma_Ext (of_nat base) (of_nat len) perm name)"
proof -
  let ?e = "length pre"
  have "field_at ((pre @ [3, sz]) @ le_bytes 8 base @ le_bytes 8 len @ [perm] @ name @ 0 # post)
      (?e + 2) 8 = Some (le_bytes 8 base)"
    by (rule field_at_here) auto
  moreover have "field_at ((pre @ [3, sz] @ le_bytes 8 base) @ le_bytes 8 len @ [perm] @ name @ 0 # post)
      (?e + 10) 8 = Some (le_bytes 8 len)"
    by (rule field_at_here) auto
  moreover have "field_at ((pre @ [3, sz] @ le_bytes 8 base @ le_bytes 8 len) @ [perm] @ name @ 0 # post)
      (?e + 18) 1 = Some [perm]"
    by (rule field_at_here) auto
  moreover have "cstr_at ((pre @ [3, sz] @ le_bytes 8 base @ le_bytes 8 len @ [perm]) @ name @ 0 # post)
      (?e + 19) = Some name"
    by (rule cstr_at_here) (use assms in auto)
  ultimately show ?thesis
    by (simp add: prom_entry_at_def u8_at_app prom_dma_ext_entry_def u64_at_def
        of_nat_le_val_le_bytes) (simp add: u8_at_def)
qed


lemma decode_line:
  assumes "entry_line l" and "dump_line l = Inr b"
  shows "enc_entry b \<and> (\<forall>pre post. prom_entry_at (pre @ b @ post) (length pre) = Some (entry_of_line l))"
proof (cases l)
  case (Name name)
  with assms dump_device_shape [of name b]
  have "length name < 255" "b = [1, of_nat (length name + 1)] @ name @ [0]" "0 \<notin> set name" by auto
  with Name decode_device show ?thesis by (simp add: enc_entry_def unat_word_ariths unat_of_nat)
next
  case (Region name perm base len)
  then have dump: "dump_memory_description name base len perm = Inr b" and nz: "0 \<notin> set name"
    using assms by auto
  show ?thesis
  proof (cases "base > 0xffffffffffff \<or> len > 0xffffffff")
    case True
    from dump_dma_ext_shape [OF dump True] decode_dma_ext [OF nz] True Region show ?thesis
      by (simp add: enc_entry_def unat_word_ariths unat_of_nat)
  next
    case False
    note shape = dump_dma_shape [OF dump False]
    then have "nat base div 65536 = nat (base div 65536)"
      "nat base div 4294967296 = nat (base div 4294967296)"
      "0 \<le> base div 65536" "0 \<le> base div 4294967296"
      by (simp_all add: nat_div_distrib pos_imp_zdiv_nonneg_iff)
    with shape decode_dma [OF nz] False Region show ?thesis
      by (simp add: enc_entry_def unat_word_ariths unat_of_nat)
  qed
next
  case (Mask m)
  with assms have b: "b = [4, 1, of_nat (nat m)]" and m: "0 \<le> m"
    by (auto simp: dump_dma_mask_def pack_Cons_Inr le_bytes_1 simp del: pack.simps(2))
  with Mask show ?thesis
    by (simp add: enc_entry_def prom_entry_at_def u8_at_app prom_dma_mask_def)
next
  case (Align_Shift m)
  with assms have b: "b = [5, 1, of_nat (nat m)]" and m: "0 \<le> m"
    by (auto simp: dump_dma_alignment_shift_def pack_Cons_Inr le_bytes_1 simp del: pack.simps(2))
  with Align_Shift show ?thesis
    by (simp add: enc_entry_def prom_entry_at_def u8_at_app prom_dma_align_def)
qed (use assms in auto)

lemma dump_lines_concat:
  "dump_lines acc ls = Inr img \<Longrightarrow>
     \<exists>bs. list_all2 (\<lambda>l b. dump_line l = Inr b) ls bs \<and> img = acc @ concat bs"
proof (induction acc ls rule: dump_lines.induct)
  case (2 acc l ls)
  then obtain b where b: "dump_line l = Inr b" and "dump_lines (acc @ b) ls = Inr img"
    by (auto split: sum.splits)
  with 2 obtain bs where "list_all2 (\<lambda>l b. dump_line l = Inr b) ls bs" "img = acc @ b @ concat bs"
    by auto
  with b show ?case by (intro exI [of _ "b # bs"]) simp
qed simp

lemma decode_offsets:
  "list_all2 (\<lambda>l b. dump_line l = Inr b) ls bs \<Longrightarrow> \<forall>l \<in> set ls. entry_line l \<Longrightarrow>
     (\<forall>b \<in> set bs. enc_entry b) \<and>
     map (prom_entry_at (pre @ concat bs @ post)) (offsets_from (length pre) bs) =
       map (Some \<circ> entry_of_line) ls"
proof (induction arbitrary: pre rule: list_all2_induct)
  case (Cons l ls b bs)
  from Cons.hyps Cons.prems decode_line [of l b]
  have b: "enc_entry b" "prom_entry_at (pre @ b @ concat bs @ post) (length pre) = Some (entry_of_line l)"
    by auto
  from Cons.IH [of "pre @ b"] Cons.prems b show ?case by simp
qed simp


section \<open>The driver loads what the tool writes\<close>

text \<open>The tail that \<open>dump_end\<close> adds makes the whole image check.\<close>

lemma dump_end_checks:
  assumes "content \<noteq> []" and "dump_end content = Inr tail" and "length (content @ tail) \<le> 131072"
  shows "\<exists>sz body. tail = 0 # sz # body \<and> (sz = 2 \<or> sz = 3) \<and> length body = unat sz \<and>
    nat (checksum (content @ tail)) = 0"
proof (cases "odd (length content)")
  case True
  then have tail: "tail = [0, 3, 0] @ le_bytes 2 (nat (checksum (content @ [0, 3, 0])))"
    using assms(1,2)
    by (auto simp: dump_end_def map_sum_Inr pack_Cons_Inr simp del: pack.simps(2) le_bytes.simps)
  have "nat (checksum ((content @ [0, 3, 0]) @ le_bytes 2 (nat (checksum (content @ [0, 3, 0]))))) = 0"
    by (rule tool_ck.ck_append) (use True assms(3) tail in auto)
  with tail show ?thesis by simp
next
  case False
  then have tail: "tail = [0, 2] @ le_bytes 2 (nat (checksum (content @ [0, 2])))"
    using assms(1,2)
    by (auto simp: dump_end_def map_sum_Inr pack_Cons_Inr simp del: pack.simps(2) le_bytes.simps)
  have "nat (checksum ((content @ [0, 2]) @ le_bytes 2 (nat (checksum (content @ [0, 2]))))) = 0"
    by (rule tool_ck.ck_append) (use False assms(3) tail in auto)
  with tail show ?thesis by simp
qed

text \<open>The two checksums agree wherever their contract speaks.\<close>

lemma checksums_agree:
  "length bs \<le> 131072 \<Longrightarrow> unat (calc_checksum16 bs (length bs)) = nat (checksum bs)"
  by (simp add: driver_ck.ck_value tool_ck.ck_value)

lemma calc_checksum16_append:
  "length bs \<le> 131072 \<Longrightarrow> calc_checksum16 (bs @ cs) (length bs) = calc_checksum16 bs (length bs)"
  by (simp add: word_unat_eq_iff calc_checksum16_value)

lemma process_config_shape:
  assumes "process_config (Version 1 # ls) = Inr img"
  shows "\<exists>bs tail. list_all2 (\<lambda>l b. dump_line l = Inr b) ls bs \<and>
    dump_end ([0x44, 0x49, 0x41, 0x47, 1] @ concat bs) = Inr tail \<and>
    img = ([0x44, 0x49, 0x41, 0x47, 1] @ concat bs) @ tail"
proof -
  have hdr: "dump_header 1 = Inr [0x44, 0x49, 0x41, 0x47, 1]"
    by (simp add: dump_header_def pack_uint_def)
  with assms obtain d where d: "dump_lines [0x44, 0x49, 0x41, 0x47, 1] ls = Inr d"
    and "(case dump_end d of Inl e \<Rightarrow> Inl e | Inr bs \<Rightarrow> Inr (d @ bs)) = Inr img"
    by (auto simp: process_config_def split: sum.splits)
  with dump_lines_concat [OF d] show ?thesis by (auto split: sum.splits)
qed

lemma image_ok_processed:
  assumes "process_config (Version 1 # ls) = Inr img" and "\<forall>l \<in> set ls. entry_line l"
    and "length img < PROM_MAX_LENGTH"
  shows "\<exists>ps e. image_ok (img @ rest) \<and>
    prom_walk (img @ rest) PROM_FIRST_ENTRY_OFFSET = Some (ps, e) \<and>
    length img = e + unat ((img @ rest) ! (e + 1)) + 2 \<and>
    map (prom_entry_at (img @ rest)) ps = map (Some \<circ> entry_of_line) ls"
proof -
  define hdr :: "u8 list" where "hdr = [0x44, 0x49, 0x41, 0x47, 1]"
  have hdr: "length hdr = 5" "hdr \<noteq> []" "hdr ! 4 = 1" by (simp_all add: hdr_def)
  from process_config_shape [OF assms(1)] obtain bs tail
    where bs: "list_all2 (\<lambda>l b. dump_line l = Inr b) ls bs"
      and tail: "dump_end (hdr @ concat bs) = Inr tail" and img: "img = (hdr @ concat bs) @ tail"
    unfolding hdr_def by blast
  from dump_end_checks [OF _ tail] assms(3) img hdr obtain sz body
    where t: "tail = 0 # sz # body" "sz = 2 \<or> sz = 3" "length body = unat sz"
      and ck: "nat (checksum img) = 0" by auto
  have all: "hdr @ concat bs @ 0 # sz # body @ rest = img @ rest" by (simp add: img t)
  note dec = decode_offsets [OF bs assms(2), of hdr "0 # sz # body @ rest", unfolded all hdr]
  let ?e = "5 + length (concat bs)"
  have len: "length img = ?e + unat sz + 2" using t hdr by (simp add: img)
  have walk: "prom_walk (img @ rest) 5 = Some (offsets_from 5 bs, ?e)"
    using prom_walk_encoded [of bs hdr "sz # body @ rest", unfolded all hdr] dec assms(3) len by simp
  have size: "(img @ rest) ! (?e + 1) = sz" and version: "(img @ rest) ! 4 = 1"
    using t hdr by (auto simp: img nth_append)
  have "calc_checksum16 (img @ rest) (length img) = 0"
    using ck assms(3) checksums_agree [of img] by (simp add: calc_checksum16_append unat_eq_0)
  then have "image_ok (img @ rest)"
    using walk size version len assms(3) t(2) by (simp add: image_ok_def)
  with walk dec size len show ?thesis by auto
qed

text \<open>Once the lines are dumped, the tool always finishes: the checksum fits its field.\<close>

lemma checksum_range: "0 \<le> checksum bs \<and> checksum bs < 65536"
proof -
  have "(0xffff :: int) = mask 16" by (simp add: mask_eq_exp_minus_1)
  then have "checksum bs = take_bit 16 (NOT (py_fold (py_fold (int (word_sum bs)))))"
    by (simp only: checksum_sum flip: take_bit_eq_mask)
  then show ?thesis by (simp add: take_bit_eq_mod)
qed

lemma process_config_total:
  assumes "dump_lines [] ls = Inr b" and "b \<noteq> []"
  shows "\<exists>t. process_config ls = Inr (b @ t) \<and> length t \<le> 5"
proof -
  have "\<exists>t. dump_end b = Inr t \<and> length t \<le> 5"
    using assms(2) checksum_range [of "b @ [0, 3, 0]"] checksum_range [of "b @ [0, 2]"]
    by (simp add: dump_end_def pack_uint_def)
  with assms show ?thesis by (auto simp: process_config_def)
qed

end
