(* ===== verification/Prom_Props.thy ===== *)
theory Prom_Props
  imports Prom_Creator
begin

text \<open>
  What the PROM components guarantee together: loading accepts exactly the images that
  check, a loaded context is valid, searches on it are safe and mean what they should, a
  corrupted image is refused, and the driver reads back what the tool writes. The KUnit
  images of \<^verbatim>\<open>test_assets\<close> serve as concrete inputs.
\<close>

section \<open>The KUnit images\<close>

definition test_prom1 :: "u8 list" where
  "test_prom1 =
     [0x44, 0x49, 0x41, 0x47, 0x01, 0x01, 0x09, 0x74, 0x65, 0x73, 0x74, 0x5f,
      0x64, 0x65, 0x76, 0x00, 0x02, 0x10, 0x00, 0x00, 0x00, 0x00, 0x00, 0x00,
      0x15, 0x14, 0x13, 0x12, 0x04, 0x6d, 0x65, 0x6d, 0x41, 0x00, 0x02, 0x10,
      0x44, 0x33, 0x22, 0x11, 0xcd, 0xab, 0x45, 0x23, 0x91, 0x08, 0x02, 0x6d,
      0x65, 0x6d, 0x42, 0x00, 0x02, 0x10, 0x63, 0x62, 0x61, 0x42, 0x00, 0x00,
      0x00, 0x01, 0x00, 0x00, 0x06, 0x6d, 0x65, 0x6d, 0x43, 0x00, 0x00, 0x02,
      0xbb, 0x17]"

definition test_prom1_corrupted :: "u8 list" where
  "test_prom1_corrupted =
     [0x44, 0x49, 0x41, 0x47, 0x01, 0x01, 0x09, 0x74, 0x65, 0x73, 0x74, 0x5f,
      0x64, 0x65, 0x77, 0x00, 0x02, 0x10, 0x00, 0x00, 0x00, 0x00, 0x00, 0x00,
      0x15, 0x14, 0x13, 0x12, 0x04, 0x6d, 0x65, 0x6d, 0x41, 0x00, 0x02, 0x10,
      0x44, 0x33, 0x22, 0x11, 0xcd, 0xab, 0x45, 0x23, 0x91, 0x08, 0x02, 0x6d,
      0x65, 0x6d, 0x42, 0x00, 0x02, 0x10, 0x63, 0x62, 0x61, 0x42, 0x00, 0x00,
      0x00, 0x01, 0x00, 0x00, 0x06, 0x6d, 0x65, 0x6d, 0x43, 0x00, 0x00, 0x02,
      0xbb, 0x17]"

definition test_prom2 :: "u8 list" where
  "test_prom2 =
     [0x44, 0x49, 0x41, 0x47, 0x01, 0x03, 0x16, 0x01, 0x02, 0x03, 0x04, 0x05,
      0x06, 0x07, 0x08, 0x0c, 0x0b, 0x0a, 0x09, 0x00, 0x00, 0x00, 0x00, 0x04,
      0x64, 0x64, 0x72, 0x30, 0x00, 0x00, 0x03, 0x00, 0x61, 0xad]"

definition test_prom3 :: "u8 list" where
  "test_prom3 =
     [0x44, 0x49, 0x41, 0x47, 0x01, 0x03, 0x16, 0x00, 0x00, 0x00, 0x00, 0x00,
      0x00, 0x00, 0x00, 0x0f, 0x0e, 0x0d, 0x0c, 0x0b, 0x0a, 0x09, 0x08, 0x04,
      0x64, 0x64, 0x72, 0x30, 0x00, 0x00, 0x03, 0x00, 0x5d, 0xa3]"

definition test_prom4 :: "u8 list" where
  "test_prom4 =
     [0x44, 0x49, 0x41, 0x47, 0x01, 0x01, 0x0a, 0x74, 0x65, 0x73, 0x74, 0x2d,
      0x6e, 0x61, 0x6d, 0x65, 0x00, 0x04, 0x01, 0x40, 0x05, 0x01, 0x06, 0x02,
      0x10, 0x00, 0x00, 0x00, 0x00, 0x00, 0x00, 0x00, 0x10, 0x00, 0x00, 0x04,
      0x72, 0x65, 0x67, 0x31, 0x00, 0x00, 0x03, 0x00, 0xb0, 0xb0]"

text \<open>
  A window of entries that run off the end of the image: version 1, then bodies of 255 bytes
  without an end marker.
\<close>

definition runaway_window :: "u8 list" where
  "runaway_window = [0x44, 0x49, 0x41, 0x47, 1] @ replicate 4091 255"

text \<open>The bytes that steer the walk: the tag and size of every entry and of the end marker.\<close>

definition steering_bytes :: "prom_context \<Rightarrow> nat list" where
  "steering_bytes context =
     (case prom_walk (prom_buff context) PROM_FIRST_ENTRY_OFFSET of None \<Rightarrow> []
      | Some (ps, e) \<Rightarrow> concat (map (\<lambda>p. [p, p + 1]) (ps @ [e])))"

section \<open>Lemmas\<close>

lemma prom_walk_append:
  assumes "prom_walk img p = Some (ps, e)" and "e + 1 < length img"
  shows "prom_walk (img @ rest) p = Some (ps, e)"
  by (rule prom_walk_cong [OF assms(1)])
    (use prom_walk_entries [OF assms(1)] assms(2) in \<open>auto simp: nth_append\<close>)

lemma calc_checksum16_take:
  "n \<le> length bs \<Longrightarrow> n \<le> 131072 \<Longrightarrow> calc_checksum16 bs n = calc_checksum16 (take n bs) n"
  by (simp add: word_unat_eq_iff calc_checksum16_value)

lemma image_ok_append:
  assumes "image_ok img" and w: "prom_walk img PROM_FIRST_ENTRY_OFFSET = Some (ps, e)"
    and len: "length img = e + unat (img ! (e + 1)) + 2" and "4 < length img"
  shows "image_ok (img @ rest)"
proof -
  from assms(1) w len have "length img < PROM_MAX_LENGTH" by (simp add: image_ok_def)
  then have "calc_checksum16 (img @ rest) (length img) = calc_checksum16 img (length img)"
    by (simp add: calc_checksum16_append)
  moreover have "prom_walk (img @ rest) PROM_FIRST_ENTRY_OFFSET = Some (ps, e)"
    using w by (rule prom_walk_append) (simp add: len)
  ultimately show ?thesis using assms by (auto simp: image_ok_def nth_append)
qed

lemma loaded_image_window_of:
  assumes "take 4 img = [0x44, 0x49, 0x41, 0x47]"
  shows "loaded_image d (window_of img) = img @ replicate (PROM_MAX_LENGTH - length img) 0 @ [0]"
proof -
  have "4 \<le> length img" using arg_cong [OF assms, of length] by simp
  then have "take 4 (window_of img) = [0x44, 0x49, 0x41, 0x47]" using assms by (simp add: window_of_def)
  then show ?thesis unfolding loaded_image_def by (simp add: window_of_def)
qed

lemma length_window_of: "length img \<le> PROM_MAX_LENGTH \<Longrightarrow> length (window_of img) = PROM_MAX_LENGTH"
  by (simp add: window_of_def)

lemma test_prom1_facts:
  "prom_walk test_prom1 PROM_FIRST_ENTRY_OFFSET = Some ([5, 16, 34, 52], 70)"
  "image_ok test_prom1" "length test_prom1 = 74" "take 4 test_prom1 = [0x44, 0x49, 0x41, 0x47]"
  "test_prom1 ! 71 = 2"
  by code_simp+

lemma image_ok_test_prom1: "image_ok (loaded_image d (window_of test_prom1))"
  unfolding loaded_image_window_of [OF test_prom1_facts(4)]
  by (rule image_ok_append [OF test_prom1_facts(2,1)]) (simp_all add: test_prom1_facts)

lemma load_prom_Inr_window:
  assumes "length w = PROM_MAX_LENGTH" and "length d \<le> PROM_MAX_LENGTH"
    and "load_prom (Ptr ()) d heap (rom_of w) = Inr c"
  shows "prom_valid c \<and> prom_buff c = loaded_image d w \<and> image_ok (loaded_image d w)"
  using load_prom_window [OF assms(1,2), of heap] assms(3) by (auto split: if_splits)

lemma load_prom_valid:
  assumes "length d \<le> PROM_MAX_LENGTH" and "load_prom k d heap base = Inr c"
  shows "prom_valid c"
proof -
  from assms(2) obtain c1 where img: "load_image d
      \<lparr>prom_base = base, prom_buff = replicate (PROM_MAX_LENGTH + 1) 0, prom_data_len = 0,
       prom_nentries = 0, prom_dma_nentries = 0, prom_nentries_with_minor = 0\<rparr> = Inr c1"
    and ent: "load_entries heap c1 = Inr c"
    by (auto simp: load_prom_def split: sum.splits)
  from load_image_length [OF _ _ img] assms(1) have "length (prom_buff c1) = PROM_MAX_LENGTH + 1"
    "prom_nentries c1 = 0" "prom_dma_nentries c1 = 0" "prom_nentries_with_minor c1 = 0" by auto
  from load_entries_valid [OF this ent] show ?thesis by simp
qed

lemma not_image_ok_update:
  assumes "length w = PROM_MAX_LENGTH"
    and walk: "prom_walk (w @ [0]) PROM_FIRST_ENTRY_OFFSET = Some (ps, e)"
    and ok: "image_ok (w @ [0])"
    and i: "i < e + unat ((w @ [0]) ! (e + 1)) + 2" "i \<notin> set (concat (map (\<lambda>p. [p, p + 1]) (ps @ [e])))"
    and "v \<noteq> w ! i"
  shows "\<not> image_ok (w[i := v] @ [0])"
proof -
  let ?n = "e + unat ((w @ [0]) ! (e + 1)) + 2"
  from ok walk have n: "?n < PROM_MAX_LENGTH" and ck: "calc_checksum16 (w @ [0]) ?n = 0"
    by (auto simp: image_ok_def)
  have same: "(w[i := v] @ [0]) ! q = (w @ [0]) ! q" if "q \<noteq> i" for q
    using that by (simp add: nth_append)
  have walk': "prom_walk (w[i := v] @ [0]) PROM_FIRST_ENTRY_OFFSET = Some (ps, e)"
    by (rule prom_walk_cong [OF walk]) (use i(2) same in auto)
  have size: "(w[i := v] @ [0]) ! (e + 1) = (w @ [0]) ! (e + 1)" using i(2) by (intro same) auto
  have "unat (calc_checksum16 (take ?n w) (length (take ?n w))) = 0"
    using ck n assms(1) calc_checksum16_take [of ?n "w @ [0]"] by simp
  then have "unat (calc_checksum16 ((take ?n w)[i := v]) (length ((take ?n w)[i := v]))) \<noteq> 0"
    by (rule driver_ck.ck_single_byte [rotated]) (use i(1) n assms(1,6) in auto)
  moreover have "take ?n (w[i := v] @ [0]) = (take ?n w)[i := v]"
    using n assms(1) by (simp add: take_update_swap)
  ultimately have "calc_checksum16 (w[i := v] @ [0]) ?n \<noteq> 0"
    using n assms(1) calc_checksum16_take [of ?n "w[i := v] @ [0]"] by auto
  with walk' size show ?thesis by (simp add: image_ok_def)
qed

lemma load_prom_base: "load_prom k d heap base = Inr c \<Longrightarrow> prom_base c = base"
  by (auto simp: load_prom_def load_image_def load_entries_def Let_def split: sum.splits if_splits
      prod.splits dest!: load_scan_spec)

text \<open>An image that checks loads, with its own bytes, offsets and length.\<close>

lemma image_loads:
  assumes d: "length d \<le> PROM_MAX_LENGTH" and magic: "take 4 img = [0x44, 0x49, 0x41, 0x47]" and ok: "image_ok img"
    and w: "prom_walk img PROM_FIRST_ENTRY_OFFSET = Some (ps, e)" and len: "length img = e + unat (img ! (e + 1)) + 2"
  obtains c where "load_prom (Ptr ()) d heap (rom_of (window_of img)) = Inr c" and "prom_valid c"
    and "prom_buff c = img @ replicate (PROM_MAX_LENGTH - length img) 0 @ [0]"
    and "prom_walk (prom_buff c) PROM_FIRST_ENTRY_OFFSET = Some (ps, e)" and "prom_data_len c = length img"
proof -
  have e: "PROM_FIRST_ENTRY_OFFSET \<le> e" using prom_walk_end [OF w] by simp
  have img: "length img < PROM_MAX_LENGTH" using ok w len by (simp add: image_ok_def)
  have full: "length (window_of img) = PROM_MAX_LENGTH" using img by (simp add: length_window_of)
  note window = loaded_image_window_of [OF magic, of d]
  have "image_ok (loaded_image d (window_of img))"
    unfolding window by (rule image_ok_append [OF ok w len]) (use e len in simp)
  with load_prom_window [OF full d, of heap] obtain c
    where c: "load_prom (Ptr ()) d heap (rom_of (window_of img)) = Inr c" "prom_valid c"
      "prom_buff c = loaded_image d (window_of img)" by auto
  have buff: "prom_buff c = img @ replicate (PROM_MAX_LENGTH - length img) 0 @ [0]" using c(3) by (simp only: window)
  have walk: "prom_walk (prom_buff c) PROM_FIRST_ENTRY_OFFSET = Some (ps, e)"
    unfolding buff by (rule prom_walk_append [OF w]) (simp add: len)
  have "prom_buff c ! (e + 1) = img ! (e + 1)" using len by (simp add: buff nth_append)
  with prom_valid_walk [OF c(2)] walk len have "prom_data_len c = length img" by auto
  with that c(1,2) buff walk show thesis by blast
qed

lemma test_prom1_loads:
  assumes "length d \<le> PROM_MAX_LENGTH"
  obtains c where "load_prom (Ptr ()) d heap (rom_of (window_of test_prom1)) = Inr c"
    and "prom_valid c" and "prom_offsets c = [5, 16, 34, 52]" and "prom_data_len c = 74"
    and "prom_buff c = window_of test_prom1 @ [0]"
    and "prom_base c = rom_of (window_of test_prom1)"
    and "steering_bytes c = [5, 6, 16, 17, 34, 35, 52, 53, 70, 71]"
proof -
  obtain c where c: "load_prom (Ptr ()) d heap (rom_of (window_of test_prom1)) = Inr c" "prom_valid c"
    and buff: "prom_buff c = test_prom1 @ replicate (PROM_MAX_LENGTH - length test_prom1) 0 @ [0]"
    and walk: "prom_walk (prom_buff c) PROM_FIRST_ENTRY_OFFSET = Some ([5, 16, 34, 52], 70)"
    and len: "prom_data_len c = length test_prom1"
    by (rule image_loads [OF assms test_prom1_facts(4,2,1), of heap]) (simp_all add: test_prom1_facts)
  show thesis
    by (rule that [OF c]) (simp_all add: prom_offsets_def steering_bytes_def walk len test_prom1_facts
        load_prom_base [OF c(1)], simp add: buff window_of_def)
qed

lemma take_window_of: "n \<le> length img \<Longrightarrow> take n (window_of img) = take n img"
  by (simp add: window_of_def)

lemma nth_window_of: "i < length img \<Longrightarrow> window_of img ! i = img ! i"
  by (simp add: window_of_def nth_append)

lemma prom_offsets_walk:
  "prom_walk (prom_buff c) PROM_FIRST_ENTRY_OFFSET = Some (ps, e) \<Longrightarrow> prom_offsets c = ps"
  by (simp add: prom_offsets_def)

text \<open>Any buffer that starts with an image of the tool loads, with the entries of the lines.\<close>

lemma load_entries_processed:
  assumes "process_config (Version 1 # ls) = Inr img" and "\<forall>l \<in> set ls. entry_line l"
    and "length img < PROM_MAX_LENGTH" and "prom_buff c = img @ rest"
    and "length (prom_buff c) = PROM_MAX_LENGTH + 1" and "prom_nentries c = 0"
    and "prom_dma_nentries c = 0" and "prom_nentries_with_minor c = 0"
  shows "\<exists>c'. load_entries heap c = Inr c' \<and> prom_valid c' \<and> prom_data_len c' = length img \<and>
    map (prom_entry_at (prom_buff c')) (prom_offsets c') = map (Some \<circ> entry_of_line) ls"
proof -
  from image_ok_processed [OF assms(1-3), of rest] obtain ps e where ok: "image_ok (img @ rest)"
    and walk: "prom_walk (img @ rest) PROM_FIRST_ENTRY_OFFSET = Some (ps, e)"
    and len: "length img = e + unat ((img @ rest) ! (e + 1)) + 2"
    and ents: "map (prom_entry_at (img @ rest)) ps = map (Some \<circ> entry_of_line) ls" by blast
  obtain c' where c': "load_entries heap c = Inr c'"
    using ok assms(4,5)
    by (cases "load_scan c PROM_FIRST_ENTRY_OFFSET") (simp add: load_entries_accepts)
  from load_entries_valid [OF assms(5-8) c'] have valid: "prom_valid c'"
    and buff: "prom_buff c' = img @ rest" by (simp_all add: assms(4))
  have "prom_offsets c' = ps" using walk by (simp add: prom_offsets_walk buff)
  moreover have "prom_data_len c' = length img"
    using prom_valid_walk [OF valid] walk len by (auto simp: buff)
  ultimately show ?thesis using c' valid ents by (simp add: buff)
qed

lemma read_prom_loop_round_from:
  "i mod 4 = 0 \<Longrightarrow>
     read_prom_loop base off i sz = read_prom_loop base off i (4 * ((sz + 3) div 4))"
proof (induction base off i sz rule: read_prom_loop.induct)
  case (1 base off i sz)
  have iff: "i < sz \<longleftrightarrow> i < 4 * ((sz + 3) div 4)" using "1.prems" by presburger
  show ?case
  proof (cases "i < sz")
    case True
    have "(i + 4) mod 4 = 0" using "1.prems" by presburger
    from "1.IH" [OF True this] True iff show ?thesis
      by (simp add: read_prom_loop.simps [of base off i])
  next
    case False
    with iff show ?thesis by (simp add: read_prom_loop.simps [of base off i])
  qed
qed

lemmas read_prom_loop_round = read_prom_loop_round_from [of 0, simplified]

section \<open>Properties\<close>

text \<open>
  C15: \<^verbatim>\<open>load_prom\<close> on a given window accepts exactly the images that check, with the image
  (or, without the magic number, the fallback) in its buffer, and returns \<^verbatim>\<open>-EIO\<close> for every
  other image. In particular the byte it may read beyond its buffer never decides.
\<close>

theorem load_prom_exact:
  assumes "length w = PROM_MAX_LENGTH" and "length d \<le> PROM_MAX_LENGTH"
  shows "load_prom (Ptr ()) d heap (rom_of w) = Inl EIO \<and> \<not> image_ok (loaded_image d w) \<or>
    (\<exists>c. load_prom (Ptr ()) d heap (rom_of w) = Inr c \<and> image_ok (loaded_image d w) \<and>
       prom_buff c = loaded_image d w \<and> prom_valid c)"
  using load_prom_window [OF assms, of heap] by (auto split: if_splits)

theorem load_prom_exact_witness:
  "length (window_of test_prom1) = 4096 \<and>
   (\<exists>c. load_prom (Ptr ()) [] (\<lambda>_. 0) (rom_of (window_of test_prom1)) = Inr c \<and> prom_valid c)"
proof -
  have len: "length (window_of test_prom1) = PROM_MAX_LENGTH"
    by (rule length_window_of) (simp add: test_prom1_facts)
  from load_prom_exact [OF len, of "[]" "\<lambda>_. 0"] image_ok_test_prom1 [of "[]"] len
  show ?thesis by auto
qed

text \<open>
  C17: a single corrupted byte of the payload is refused. When a window loads, changing any
  one byte between the version and the end of the data that is not the tag or the size of
  an entry makes the next load fail with \<^verbatim>\<open>-EIO\<close>.
\<close>

theorem payload_corruption_rejected:
  assumes "length w = PROM_MAX_LENGTH" and "length d \<le> PROM_MAX_LENGTH"
    and "take 4 w = [0x44, 0x49, 0x41, 0x47]"
    and "load_prom (Ptr ()) d heap (rom_of w) = Inr c"
    and "4 \<le> i" and "i < prom_data_len c" and "i \<notin> set (steering_bytes c)" and "v \<noteq> w ! i"
  shows "load_prom (Ptr ()) d heap' (rom_of (w[i := v])) = Inl EIO"
proof -
  have magic': "take 4 (w[i := v]) = [0x44, 0x49, 0x41, 0x47]" using assms(3,5) by simp
  from load_prom_Inr_window [OF assms(1,2,4)] assms(3)
  have valid: "prom_valid c" and buff: "prom_buff c = w @ [0]" and ok: "image_ok (w @ [0])"
    by (auto simp: loaded_image_def)
  from prom_valid_walk [OF valid] obtain e
    where walk: "prom_walk (w @ [0]) PROM_FIRST_ENTRY_OFFSET = Some (prom_offsets c, e)"
      and n: "prom_data_len c = e + unat ((w @ [0]) ! (e + 1)) + 2" by (auto simp: buff)
  have "\<not> image_ok (w[i := v] @ [0])"
    using not_image_ok_update [OF assms(1) walk ok] assms(6-8) n walk
    by (simp add: steering_bytes_def buff)
  with load_prom_window [of "w[i := v]" d heap'] assms(1,2) magic' show ?thesis
    by (simp add: loaded_image_def)
qed

theorem payload_corruption_rejected_witness:
  "test_prom1 ! 14 = 0x76 \<and>
   load_prom (Ptr ()) [] (\<lambda>_. 0) (rom_of ((window_of test_prom1)[14 := 0x77])) = Inl EIO"
proof -
  have byte: "test_prom1 ! 14 = 0x76" by code_simp
  obtain c where c: "load_prom (Ptr ()) [] (\<lambda>_. 0) (rom_of (window_of test_prom1)) = Inr c"
      "prom_data_len c = 74" "steering_bytes c = [5, 6, 16, 17, 34, 35, 52, 53, 70, 71]"
    by (rule test_prom1_loads [of "[]" "\<lambda>_. 0"]) auto
  have "load_prom (Ptr ()) [] (\<lambda>_. 0) (rom_of ((window_of test_prom1)[14 := 0x77])) = Inl EIO"
    by (rule payload_corruption_rejected [OF _ _ _ c(1)])
      (simp_all add: c length_window_of test_prom1_facts nth_window_of take_window_of byte)
  with byte show ?thesis by simp
qed

text \<open>
  C16: on a context that \<^verbatim>\<open>load_prom\<close> returned, the three searches never read outside the
  buffer and always end. \<^verbatim>\<open>prom_find_entry\<close> is the entry of that index or \<^verbatim>\<open>NULL\<close>,
  \<^verbatim>\<open>prom_find_entry_with_minor\<close> counts the device and DMA entries only, and
  \<^verbatim>\<open>prom_find_entry_by_tag\<close> is the first entry with the tag.
\<close>

theorem prom_searches:
  assumes "length d \<le> PROM_MAX_LENGTH" and "load_prom k d heap base = Inr c"
  shows "prom_find_entry c n =
      Some (if 0 \<le> n \<and> n < int (length (prom_offsets c)) then Some (prom_offsets c ! nat n) else None) \<and>
    prom_find_entry_with_minor c n =
      Some (if 0 \<le> n \<and> n < int (prom_get_nentries_with_minor c)
        then Some (filter (\<lambda>p. prom_entry_needs_minor (entry_tag c p)) (prom_offsets c) ! nat n) else None) \<and>
    prom_find_entry_by_tag c t = Some (find (\<lambda>p. entry_tag c p = t) (prom_offsets c)) \<and>
    (\<forall>p \<in> set (prom_offsets c). p + 1 < length (prom_buff c) \<and> entry_tag c p \<noteq> PROM_END_TAG)"
proof -
  from assms(1,2) have valid: "prom_valid c" by (rule load_prom_valid)
  then have "prom_get_nentries_with_minor c = length (minor_offsets c)"
    and len: "length (prom_buff c) = PROM_MAX_LENGTH + 1"
    by (auto simp: prom_valid_def prom_get_nentries_with_minor_def)
  moreover from prom_valid_walk [OF valid] obtain e
    where walk: "prom_walk (prom_buff c) PROM_FIRST_ENTRY_OFFSET = Some (prom_offsets c, e)" by auto
  ultimately show ?thesis
    using prom_walk_entries [OF walk] prom_walk_end [OF walk] valid
    by (auto simp: prom_find_entry_nth prom_find_entry_with_minor_nth prom_find_entry_by_tag_find
        minor_offsets_def entry_tag_def)
qed

theorem prom_searches_witness:
  "\<exists>c. load_prom (Ptr ()) [] (\<lambda>_. 0) (rom_of (window_of test_prom1)) = Inr c \<and>
     prom_find_entry c 2 = Some (Some 34) \<and> prom_find_entry c 4 = Some None"
proof -
  obtain c where c: "load_prom (Ptr ()) [] (\<lambda>_. 0) (rom_of (window_of test_prom1)) = Inr c"
      "prom_offsets c = [5, 16, 34, 52]"
    by (rule test_prom1_loads [of "[]" "\<lambda>_. 0"]) auto
  from prom_searches [OF _ c(1), of 2] prom_searches [OF _ c(1), of 4] c show ?thesis by simp
qed

text \<open>
  The driver reads back what the tool writes. An image that the tool produces from a
  version line and any device, region, mask and alignment lines, and that fits the window,
  loads, and the entries the driver then decodes are exactly the configured ones, in order,
  with names, bases, lengths, permissions, mask and alignment unchanged.
\<close>

lemma tool_image_roundtrip:
  assumes "process_config (Version 1 # ls) = Inr img" and "\<forall>l \<in> set ls. entry_line l"
    and "length img < PROM_MAX_LENGTH" and "length d \<le> PROM_MAX_LENGTH"
  shows "\<exists>c. load_prom (Ptr ()) d heap (rom_of (window_of img)) = Inr c \<and>
    prom_get_length c = length img \<and>
    map (prom_entry_at (prom_get_buffer c)) (prom_offsets c) = map (Some \<circ> entry_of_line) ls"
proof -
  let ?w = "window_of img"
  from process_config_shape [OF assms(1)] have magic: "take 4 img = [0x44, 0x49, 0x41, 0x47]" by auto
  have len: "length ?w = PROM_MAX_LENGTH" using assms(3) by (intro length_window_of) simp
  define c where "c = \<lparr>prom_base = rom_of ?w, prom_buff = loaded_image d ?w, prom_data_len = 0,
    prom_nentries = 0, prom_dma_nentries = 0, prom_nentries_with_minor = 0\<rparr>"
  have load: "load_prom (Ptr ()) d heap (rom_of ?w) = load_entries heap c"
    using len assms(4) by (simp add: load_prom_def load_image_window c_def)
  have "prom_buff c = img @ replicate (PROM_MAX_LENGTH - length img) 0 @ [0]"
    by (simp only: c_def prom_context.simps loaded_image_window_of [OF magic])
  moreover have "length (prom_buff c) = PROM_MAX_LENGTH + 1"
    using len assms(4) by (simp add: c_def length_loaded_image)
  ultimately show ?thesis
    using load_entries_processed [OF assms(1-3), of c _ heap]
    by (auto simp: load c_def prom_get_length_def prom_get_buffer_def)
qed

text \<open>
  Without a PROM in the window the driver falls back to the image generated from
  \<^verbatim>\<open>default_prom.config\<close>. The tool produces that image, and it loads: the device
  \<^verbatim>\<open>amc525_mbf\<close> with the two readable regions \<^verbatim>\<open>ddr0\<close> and \<^verbatim>\<open>ddr1\<close>.
\<close>

lemma default_prom_loads:
  assumes "\<not> check_magic (base 0)"
  shows "\<exists>d c. process_config default_prom_config = Inr d \<and> length d \<le> 59 \<and>
    load_prom (Ptr ()) d heap base = Inr c \<and>
    map (prom_entry_at (prom_get_buffer c)) (prom_offsets c) =
      [Some (Prom_Device [0x61, 0x6d, 0x63, 0x35, 0x32, 0x35, 0x5f, 0x6d, 0x62, 0x66]),
       Some (Prom_Dma [0, 0, 0x8000] 0x80000000 4 [0x64, 0x64, 0x72, 0x30]),
       Some (Prom_Dma [0, 0x8000, 0x8000] 0x08000000 4 [0x64, 0x64, 0x72, 0x31])]"
proof -
  have "\<exists>b. dump_lines [] default_prom_config = Inr b \<and> b \<noteq> [] \<and> length b = 54"
    by (simp add: default_prom_config_def dump_header_def dump_device_description_def
        dump_memory_description_def py_append_def pack_uint_def)
  then obtain d where d: "process_config default_prom_config = Inr d" and len: "length d \<le> 59"
    using process_config_total [of default_prom_config] by fastforce
  define c where "c = \<lparr>prom_base = base, prom_buff = d @ replicate (PROM_MAX_LENGTH + 1 - length d) 0,
    prom_data_len = 0, prom_nentries = 0, prom_dma_nentries = 0, prom_nentries_with_minor = 0\<rparr>"
  have load: "load_prom (Ptr ()) d heap base = load_entries heap c"
    using assms unfolding load_prom_def load_image_def by (simp add: memcpy_at_zeros c_def)
  have buff: "prom_buff c = d @ replicate (PROM_MAX_LENGTH + 1 - length d) 0" by (simp add: c_def)
  moreover have "length (prom_buff c) = PROM_MAX_LENGTH + 1" using len by (simp add: c_def)
  moreover have cfg: "process_config (Version 1 # tl default_prom_config) = Inr d"
    using d by (simp add: default_prom_config_def)
  moreover have "\<forall>l \<in> set (tl default_prom_config). entry_line l" by (simp add: default_prom_config_def)
  ultimately obtain c' where "load_entries heap c = Inr c'" and
    "map (prom_entry_at (prom_buff c')) (prom_offsets c') = map (Some \<circ> entry_of_line) (tl default_prom_config)"
    using load_entries_processed [of "tl default_prom_config" d c _ heap] len
    by (auto simp: c_def)
  then show ?thesis
    using d load len by (auto simp: default_prom_config_def prom_get_buffer_def)
qed

text \<open>
  \<^verbatim>\<open>read_prom\<close> in full. Beyond the PROM it is \<^verbatim>\<open>-EINVAL\<close>; otherwise it reports the bytes up
  to the end of the window and stores the window from the offset rounded down to a multiple
  of four, in whole words. For an aligned offset and count that is exactly the part asked
  for.
\<close>

theorem read_prom_window:
  assumes "length w = PROM_MAX_LENGTH" and "prom_base c = rom_of w"
  shows "read_prom c off count =
      (if off > PROM_MAX_LENGTH then Inl EINVAL
       else let sz = min (PROM_MAX_LENGTH - off div 4 * 4) count
            in Inr (take (4 * ((sz + 3) div 4)) (drop (off div 4 * 4) w), sz)) \<and>
    (off \<le> PROM_MAX_LENGTH \<and> off mod 4 = 0 \<and> count mod 4 = 0 \<longrightarrow>
       read_prom c off count = Inr (take count (drop off w), min (PROM_MAX_LENGTH - off) count))"
proof -
  have loop: "read_prom_loop (rom_of w) (off div 4 * 4) 0 sz =
      take (4 * ((sz + 3) div 4)) (drop (off div 4 * 4) w)"
    if "sz \<le> PROM_MAX_LENGTH - off div 4 * 4" "off \<le> PROM_MAX_LENGTH" for sz
  proof -
    have "off div 4 * 4 + 4 * ((sz + 3) div 4) \<le> PROM_MAX_LENGTH" using that by presburger
    then show ?thesis
      by (subst read_prom_loop_round) (simp_all add: read_prom_loop_rom assms(1))
  qed
  have full: "read_prom c off count =
      (if off > PROM_MAX_LENGTH then Inl EINVAL
       else let sz = min (PROM_MAX_LENGTH - off div 4 * 4) count
            in Inr (take (4 * ((sz + 3) div 4)) (drop (off div 4 * 4) w), sz))"
    by (simp add: read_prom_def assms(2) loop Let_def)
  have aligned: "read_prom c off count = Inr (take count (drop off w), min (PROM_MAX_LENGTH - off) count)"
    if "off \<le> PROM_MAX_LENGTH" "off mod 4 = 0" "count mod 4 = 0"
  proof -
    have al: "off div 4 * 4 = off" using that(2) by presburger
    have "4 * ((min (PROM_MAX_LENGTH - off) count + 3) div 4) = min (PROM_MAX_LENGTH - off) count"
      using that by (auto simp: min_def) presburger+
    moreover have "take (min (PROM_MAX_LENGTH - off) count) (drop off w) = take count (drop off w)"
      using assms(1) by (simp add: min_def)
    ultimately show ?thesis using full that(1) by (simp add: al Let_def)
  qed
  show ?thesis by (rule conjI [OF full]) (use aligned in simp)
qed

theorem read_prom_window_witness:
  "\<exists>c. load_prom (Ptr ()) [] (\<lambda>_. 0) (rom_of (window_of test_prom1)) = Inr c \<and>
     read_prom c 4 4 = Inr ([1, 1, 9, 0x74], 4)"
proof -
  have take: "take 4 (drop 4 (window_of test_prom1)) = [1, 1, 9, 0x74]"
    by (simp add: window_of_def test_prom1_def)
  obtain c where c: "load_prom (Ptr ()) [] (\<lambda>_. 0) (rom_of (window_of test_prom1)) = Inr c"
      "prom_base c = rom_of (window_of test_prom1)"
    by (rule test_prom1_loads [of "[]" "\<lambda>_. 0"]) auto
  from read_prom_window [OF _ c(2), of 4 4] c(1) show ?thesis
    by (simp add: length_window_of test_prom1_facts take)
qed

text \<open>
  A finding: from an offset that is not a multiple of four, \<^verbatim>\<open>read_prom\<close> delivers the bytes from
  the rounded offset on. A read of four bytes at offset 1 returns the bytes at offset 0.
\<close>

lemma read_prom_unaligned_shifts:
  "\<exists>c. load_prom (Ptr ()) [] (\<lambda>_. 0) (rom_of (window_of test_prom1)) = Inr c \<and>
     read_prom c 1 4 = Inr ([0x44, 0x49, 0x41, 0x47], 4) \<and>
     take 4 (drop 1 (prom_get_buffer c)) = [0x49, 0x41, 0x47, 1]"
proof -
  have take: "take 4 (window_of test_prom1) = [0x44, 0x49, 0x41, 0x47]"
    "take 4 (drop 1 (window_of test_prom1 @ [0])) = [0x49, 0x41, 0x47, 1]"
    by (simp_all add: window_of_def test_prom1_def)
  obtain c where c: "load_prom (Ptr ()) [] (\<lambda>_. 0) (rom_of (window_of test_prom1)) = Inr c"
      "prom_base c = rom_of (window_of test_prom1)" "prom_buff c = window_of test_prom1 @ [0]"
    by (rule test_prom1_loads [of "[]" "\<lambda>_. 0"]) auto
  have "read_prom c 1 4 = Inr (read_prom_loop (prom_base c) 0 0 4, 4)" by (simp add: read_prom_def)
  then have "read_prom c 1 4 = Inr ([0x44, 0x49, 0x41, 0x47], 4)"
    by (simp add: c(2) read_prom_loop_rom length_window_of test_prom1_facts take(1))
  with c(1,3) take(2) show ?thesis by (auto simp: prom_get_buffer_def)
qed

text \<open>
  A finding: on a window without an end marker the scan stops beyond the buffer, and the size
  byte that \<^verbatim>\<open>load_prom\<close> reads next lies outside \<^verbatim>\<open>context->buff\<close>.
\<close>

lemma load_scan_runs_past_buffer:
  assumes "prom_buff c = runaway_window @ [0]"
  shows "length (prom_buff c) \<le> snd (load_scan c PROM_FIRST_ENTRY_OFFSET) + 1"
proof -
  have nth: "prom_buff c ! i = 255" if "5 \<le> i" "i < 4096" for i
    using that by (simp add: assms runaway_window_def nth_append)
  have scan: "load_scan c' i = load_scan (count_entry c' 255) (257 + i)"
    if "prom_buff c' = prom_buff c" "5 \<le> i" "i < 4095" for c' i
    using that nth [of i] nth [of "i + 1"] by (subst load_scan.simps) simp
  have past: "PROM_MAX_LENGTH \<le> snd (load_scan c' (5 + 257 * k))"
    if "k \<le> 16" "prom_buff c' = prom_buff c" for c' k
    using that
  proof (induction arbitrary: c' rule: inc_induct)
    case base
    show ?case by (subst load_scan.simps) simp
  next
    case (step k)
    from step.IH [of "count_entry c' 255"] step.prems
    have "PROM_MAX_LENGTH \<le> snd (load_scan (count_entry c' 255) (257 + (5 + 257 * k)))"
      by (simp add: ac_simps)
    with step.hyps step.prems show ?case by (subst scan) auto
  qed
  have "length (prom_buff c) = PROM_MAX_LENGTH + 1" by (simp add: assms runaway_window_def)
  with past [of 0 c] show ?thesis by simp
qed

text \<open>
  C18: the driver and the tool compute the same checksum on every buffer of up to 128 KiB,
  although the driver adds in wrapping 32-bit arithmetic and the tool in unbounded integers;
  the value is zero exactly when the sum of the little-endian 16-bit words is a positive
  multiple of 65535.
\<close>

theorem checksum_equivalence:
  assumes "length bs \<le> 131072"
  shows "int (unat (calc_checksum16 bs (length bs))) = checksum bs \<and>
    (calc_checksum16 bs (length bs) = 0 \<longleftrightarrow> 0 < word_sum bs \<and> 65535 dvd word_sum bs)"
  using checksums_agree [OF assms] checksum_range [of bs] driver_ck.ck_zero_iff [OF assms]
  by (auto simp: unat_eq_0)

theorem checksum_equivalence_witness:
  "length test_prom1 = 74 \<and> checksum test_prom1 = 0"
proof -
  have "calc_checksum16 test_prom1 74 = 0" by code_simp
  with checksum_equivalence [of test_prom1] show ?thesis by (simp add: test_prom1_facts)
qed

end
