(* ===== verification/Core_Files.thy ===== *)
theory Core_Files
  imports Memory_Dev Prom_Props
begin

text \<open>
  The file side of \<^verbatim>\<open>amc_pci_core.c\<close>: the state of a board, the sysfs reads of the PROM, the
  access check, the open function that dispatches on the PROM entry of the minor number, and
  the creation and removal of the device nodes. It shows that the node with a minor number and
  the file that opening it gives come from the same PROM entry.
\<close>

section \<open>Data\<close>

definition MAX_MINORS_PER_BOARD :: nat where [simp]: "MAX_MINORS_PER_BOARD = 16"

text \<open>
  \<^verbatim>\<open>struct amc_pci\<close>: the numbers of the board, what the PCI layer says of BAR0, the state shared
  by the register files (with the reference count, the locking structure and the interrupt
  controller), the contexts of the memory files, the DMA controller if there is one, and the
  PROM.
\<close>

record amc_pci =
  ap_board :: nat
  ap_major :: nat
  ap_minor :: nat
  ap_bar0_start :: u64
  ap_bar0_len :: u64
  ap_reg :: reg_board
  ap_mem :: mem_contexts
  ap_dma :: "dma_control option"
  ap_prom :: prom_context

text \<open>An open file: a register file or a memory file, with the address of its context.\<close>

datatype file_private = Reg_File nat | Dma_File nat

section \<open>PROM files in sysfs\<close>



section \<open>Open\<close>

definition O_ACCMODE :: u32 where "O_ACCMODE = 3"
definition O_RDONLY :: u32 where "O_RDONLY = 0"
definition O_WRONLY :: u32 where "O_WRONLY = 1"
definition O_RDWR :: u32 where "O_RDWR = 2"

definition validate_file_permission :: "u32 \<Rightarrow> bool \<Rightarrow> bool \<Rightarrow> bool" where
  "validate_file_permission f_flags can_read can_write =
     (if can_read \<and> f_flags AND O_ACCMODE = O_RDONLY then True
      else if can_write \<and> f_flags AND O_ACCMODE = O_WRONLY then True
      else if can_read \<and> can_write \<and> f_flags AND O_ACCMODE = O_RDWR then True
      else False)"

text \<open>The base address of a short DMA entry, from its three 16-bit parts.\<close>

definition join_base :: "u16 \<Rightarrow> u16 \<Rightarrow> u16 \<Rightarrow> u64" where
  "join_base b0 b1 b2 = ucast b0 OR push_bit 16 (ucast b1) OR push_bit 32 (ucast b2)"

text \<open>
  The two DMA branches of the switch: the permission byte is read first, base and length only if
  access is allowed. \<open>None\<close> is a field outside the PROM buffer.
\<close>

definition open_dma :: "u32 \<Rightarrow> nat kptr \<Rightarrow> u8 option \<Rightarrow> u64 option \<Rightarrow> u64 option \<Rightarrow> amc_pci \<Rightarrow>
    (file_private res \<times> amc_pci) option"
where
  "open_dma f_flags kmalloc perm_at base_at len_at priv =
     do {
       perm \<leftarrow> perm_at;
       if \<not> validate_file_permission f_flags (PROM_PERM_CAN_READ perm) (PROM_PERM_CAN_WRITE perm)
       then Some (Inl EACCES, priv)
       else do {
         base \<leftarrow> base_at;
         len \<leftarrow> len_at;
         let (rc, contexts) = amc_pci_dma_open kmalloc base len (ap_mem priv);
         Some (map_sum id Dma_File rc, priv\<lparr>ap_mem := contexts\<rparr>)
       }
     }"

definition open_entry :: "nat \<Rightarrow> u32 \<Rightarrow> nat kptr \<Rightarrow> amc_pci \<Rightarrow> (file_private res \<times> amc_pci) option" where
  "open_entry pentry f_flags kmalloc priv =
     (let buff = prom_get_buffer (ap_prom priv);
          tag = entry_tag (ap_prom priv) pentry
      in if tag = PROM_DEVICE_TAG then
           (let (rc, reg) = amc_pci_reg_open (ap_bar0_start priv) (ap_bar0_len priv) kmalloc (ap_reg priv)
            in Some (map_sum id Reg_File rc, priv\<lparr>ap_reg := reg\<rparr>))
         else if tag = PROM_DMA_TAG then
           open_dma f_flags kmalloc (u8_at buff (pentry + 12))
             (do { b0 \<leftarrow> u16_at buff (pentry + 2); b1 \<leftarrow> u16_at buff (pentry + 4);
                   b2 \<leftarrow> u16_at buff (pentry + 6); Some (join_base b0 b1 b2) })
             (map_option ucast (u32_at buff (pentry + 8))) priv
         else if tag = PROM_DMA_EXT_TAG then
           open_dma f_flags kmalloc (u8_at buff (pentry + 18)) (u64_at buff (pentry + 2))
             (u64_at buff (pentry + 10)) priv
         else Some (Inl EINVAL, priv))"

definition set_refs :: "file_refs \<Rightarrow> amc_pci \<Rightarrow> amc_pci" where
  "set_refs refs priv = priv\<lparr>ap_reg := (ap_reg priv)\<lparr>rb_refs := refs\<rparr>\<rparr>"

definition amc_pci_open :: "int \<Rightarrow> u32 \<Rightarrow> nat kptr \<Rightarrow> amc_pci \<Rightarrow> (file_private res \<times> amc_pci) option" where
  "amc_pci_open iminor f_flags kmalloc priv =
     (case get_ref (rb_refs (ap_reg priv)) of
        Inl e \<Rightarrow> Some (Inl e, priv)
      | Inr refs \<Rightarrow>
          let priv = set_refs refs priv;
              minor_index = iminor - int (ap_minor priv)
          in do {
               found \<leftarrow> prom_find_entry_with_minor (ap_prom priv) minor_index;
               (rc, priv) \<leftarrow> (case found of
                   None \<Rightarrow> Some (Inl EINVAL, priv)
                 | Some pentry \<Rightarrow> open_entry pentry f_flags kmalloc priv);
               (case rc of
                  Inl e \<Rightarrow> Some (Inl e, set_refs (amc_pci_release (rb_refs (ap_reg priv))) priv)
                | Inr f \<Rightarrow> Some (Inr f, priv))
             })"

section \<open>Device nodes\<close>

text \<open>\<^verbatim>\<open>%d\<close> of a number that is not negative, and the names \<^verbatim>\<open>%s.%d.%s\<close> of the nodes.\<close>

fun dec_digits :: "nat \<Rightarrow> u8 list" where
  "dec_digits n = (if n < 10 then [0x30 + of_nat n] else dec_digits (n div 10) @ [0x30 + of_nat (n mod 10)])"

declare dec_digits.simps [simp del]

definition node_name :: "u8 list \<Rightarrow> nat \<Rightarrow> u8 list \<Rightarrow> u8 list" where
  "node_name device board suffix = device @ [0x2E] @ dec_digits board @ [0x2E] @ suffix"

definition reg_suffix :: "u8 list" where
  "reg_suffix = [0x72, 0x65, 0x67]"

text \<open>
  The state of the loop in \<^verbatim>\<open>create_device_nodes\<close>: the number of nodes made, the device name, and
  the nodes (minor number and name). A node of the model is a call of \<^verbatim>\<open>device_create\<close>: the code
  does not look at what the call returns, so that neither the loop nor the result depends on whether
  the kernel could make the node. The body fails (\<open>Inr\<close>) with an error code, or with \<open>None\<close> if a name
  runs off the buffer.
\<close>

record node_loop =
  nl_minor_off :: nat
  nl_device_name :: "u8 list option"
  nl_nodes :: "(nat \<times> u8 list) list"

definition add_node :: "amc_pci \<Rightarrow> u8 list \<Rightarrow> u8 list \<Rightarrow> node_loop \<Rightarrow> node_loop" where
  "add_node priv device suffix s =
     s\<lparr>nl_minor_off := nl_minor_off s + 1,
       nl_nodes := nl_nodes s @ [(ap_minor priv + nl_minor_off s, node_name device (ap_board priv) suffix)]\<rparr>"

definition node_body ::
    "amc_pci \<Rightarrow> nat \<Rightarrow> node_loop \<Rightarrow> node_loop + errno option \<times> (nat \<times> u8 list) list"
where
  "node_body priv pentry s =
     (let buff = prom_get_buffer (ap_prom priv);
          tag = entry_tag (ap_prom priv) pentry;
          dma_node = (\<lambda>name_at.
            (case nl_device_name s of
               None \<Rightarrow> Inr (Some EINVAL, nl_nodes s)
             | Some device \<Rightarrow>
                 (case name_at of
                    None \<Rightarrow> Inr (None, nl_nodes s)
                  | Some name \<Rightarrow> Inl (add_node priv device name s))))
      in if tag = PROM_DEVICE_TAG then
           (if nl_device_name s \<noteq> None then Inr (Some EINVAL, nl_nodes s)
            else (case cstr_at buff (pentry + 2) of
                    None \<Rightarrow> Inr (None, nl_nodes s)
                  | Some name \<Rightarrow> Inl (add_node priv name reg_suffix (s\<lparr>nl_device_name := Some name\<rparr>))))
         else if tag = PROM_DMA_TAG then dma_node (cstr_at buff (pentry + 13))
         else if tag = PROM_DMA_EXT_TAG then dma_node (cstr_at buff (pentry + 19))
         else Inl s)"

definition node_resources :: "(nat \<times> u8 list) list \<Rightarrow> ledger" where
  "node_resources nodes = Res_Node ` fst ` set nodes"

text \<open>
  The result with the nodes that exist afterwards and the ledger. After an error in the loop the
  character device is removed and the nodes made so far stay.
\<close>

definition create_device_nodes ::
    "unit res \<Rightarrow> amc_pci \<Rightarrow> ledger \<Rightarrow> (unit res \<times> (nat \<times> u8 list) list \<times> ledger) option"
where
  "create_device_nodes cdev_add priv held =
     (if \<not> prom_get_nentries_with_minor (ap_prom priv) > 0 then Some (Inl EINVAL, [], held)
      else (case cdev_add of
        Inl e \<Rightarrow> Some (Inl e, [], held)
      | Inr _ \<Rightarrow>
          let held = insert Res_Cdev held
          in do {
               r \<leftarrow> prom_for_each_entry (ap_prom priv) (node_body priv)
                      \<lparr>nl_minor_off = 0, nl_device_name = None, nl_nodes = []\<rparr>;
               (case r of
                  Inl s \<Rightarrow> Some (Inr (), nl_nodes s, held \<union> node_resources (nl_nodes s))
                | Inr (Some e, nodes) \<Rightarrow> Some (Inl e, nodes, (held \<union> node_resources nodes) - {Res_Cdev})
                | Inr (None, _) \<Rightarrow> None)
             }))"

definition destroy_device_nodes :: "amc_pci \<Rightarrow> ledger \<Rightarrow> ledger" where
  "destroy_device_nodes priv held =
     (held - (\<lambda>i. Res_Node (ap_minor priv + i)) ` {..<prom_get_nentries (ap_prom priv)}) - {Res_Cdev}"

section \<open>Well-formed PROMs\<close>

text \<open>
  The body an entry needs for the fields the driver reads. The driver relies on it without a
  check; the image tool writes such entries.
\<close>

definition min_body :: "u8 \<Rightarrow> nat" where
  "min_body tag =
     (if tag = PROM_DMA_TAG then 11 else if tag = PROM_DMA_EXT_TAG then 17
      else if tag = PROM_DMA_MASK_TAG \<or> tag = PROM_DMA_ALIGN_TAG then 1 else 0)"

definition prom_wf :: "prom_context \<Rightarrow> bool" where
  "prom_wf c \<longleftrightarrow> prom_valid c \<and>
     (\<forall>p \<in> set (prom_offsets c). min_body (entry_tag c p) \<le> unat (prom_buff c ! (p + 1)))"

text \<open>
  The entries that become nodes start with the one device entry: what \<^verbatim>\<open>create_device_nodes\<close>
  accepts.
\<close>

definition device_first :: "prom_context \<Rightarrow> bool" where
  "device_first c \<longleftrightarrow>
     (case minor_offsets c of
        [] \<Rightarrow> False
      | p # ps \<Rightarrow> entry_tag c p = PROM_DEVICE_TAG \<and> (\<forall>q \<in> set ps. entry_tag c q \<noteq> PROM_DEVICE_TAG))"

text \<open>The name of the node of an entry.\<close>

definition entry_suffix :: "prom_context \<Rightarrow> nat \<Rightarrow> u8 list" where
  "entry_suffix c p =
     (if entry_tag c p = PROM_DEVICE_TAG then reg_suffix
      else if entry_tag c p = PROM_DMA_TAG then the (cstr_at (prom_buff c) (p + 13))
      else the (cstr_at (prom_buff c) (p + 19)))"

definition device_name :: "prom_context \<Rightarrow> u8 list" where
  "device_name c = the (cstr_at (prom_buff c) (hd (minor_offsets c) + 2))"

section \<open>Lemmas on entries\<close>

lemma prom_walk_bodies:
  "prom_walk buff p = Some (ps, e) \<Longrightarrow> \<forall>q \<in> set ps. q + unat (buff ! (q + 1)) + 2 \<le> e"
  by (induction rule: prom_walk_induct) (auto dest: prom_walk_end)

text \<open>The end marker is a zero byte behind every entry, so every name that starts before it ends.\<close>

lemma prom_wf_end:
  assumes "prom_wf c"
  shows "\<exists>e < PROM_MAX_LENGTH. prom_buff c ! e = 0 \<and> length (prom_buff c) = PROM_MAX_LENGTH + 1 \<and>
    (\<forall>p \<in> set (prom_offsets c). p + min_body (entry_tag c p) + 2 \<le> e)"
proof -
  have valid: "prom_valid c" using assms by (simp add: prom_wf_def)
  then obtain e where walk: "prom_walk (prom_buff c) PROM_FIRST_ENTRY_OFFSET = Some (prom_offsets c, e)"
    using prom_valid_walk by blast
  show ?thesis
    using prom_walk_end [OF walk] prom_walk_bodies [OF walk] assms valid
    by (intro exI [of _ e]) (fastforce simp: prom_wf_def prom_valid_def)
qed

lemma cstr_at_before_zero:
  assumes "i \<le> e" and "e < length buff" and "buff ! e = 0"
  shows "\<exists>name. cstr_at buff i = Some name"
proof -
  have "drop i buff ! (e - i) = 0" "e - i < length (drop i buff)" using assms by simp_all
  then have "0 \<in> set (drop i buff)" by (metis nth_mem)
  then show ?thesis by (simp add: cstr_at_def)
qed

lemma field_at_within: "i + n \<le> length buff \<Longrightarrow> field_at buff i n = Some (take n (drop i buff))"
  by (simp add: field_at_def)

lemma fields_within:
  "i + 1 \<le> length buff \<Longrightarrow> \<exists>v. u8_at buff i = Some v"
  "i + 2 \<le> length buff \<Longrightarrow> \<exists>v. u16_at buff i = Some v"
  "i + 4 \<le> length buff \<Longrightarrow> \<exists>v. u32_at buff i = Some v"
  "i + 8 \<le> length buff \<Longrightarrow> \<exists>v. u64_at buff i = Some v"
  by (simp_all add: u8_at_def u16_at_def u32_at_def u64_at_def field_at_within)

lemma minor_offsets_subset: "p \<in> set (minor_offsets c) \<Longrightarrow> p \<in> set (prom_offsets c)"
  by (simp add: minor_offsets_def)

text \<open>The names of a well-formed PROM.\<close>

lemma prom_wf_names:
  assumes "prom_wf c" and "p \<in> set (prom_offsets c)"
  shows "\<exists>name. cstr_at (prom_buff c) (p + 2) = Some name"
    and "entry_tag c p = PROM_DMA_TAG \<Longrightarrow> \<exists>name. cstr_at (prom_buff c) (p + 13) = Some name"
    and "entry_tag c p = PROM_DMA_EXT_TAG \<Longrightarrow> \<exists>name. cstr_at (prom_buff c) (p + 19) = Some name"
proof -
  obtain e where e: "e < PROM_MAX_LENGTH" "prom_buff c ! e = 0" "length (prom_buff c) = PROM_MAX_LENGTH + 1"
    and b: "p + min_body (entry_tag c p) + 2 \<le> e"
    using prom_wf_end [OF assms(1)] assms(2) by blast
  show "\<exists>name. cstr_at (prom_buff c) (p + 2) = Some name"
    by (rule cstr_at_before_zero [where e = e]) (use e b in simp_all)
  show "\<exists>name. cstr_at (prom_buff c) (p + 13) = Some name" if "entry_tag c p = PROM_DMA_TAG"
    by (rule cstr_at_before_zero [where e = e]) (use e b that in \<open>simp_all add: min_body_def\<close>)
  show "\<exists>name. cstr_at (prom_buff c) (p + 19) = Some name" if "entry_tag c p = PROM_DMA_EXT_TAG"
    by (rule cstr_at_before_zero [where e = e]) (use e b that in \<open>simp_all add: min_body_def\<close>)
qed

section \<open>Lemmas on the node loop\<close>

text \<open>The nodes for a list of entries, numbered from \<open>n\<close>.\<close>

definition nodes_for :: "amc_pci \<Rightarrow> u8 list \<Rightarrow> nat \<Rightarrow> nat list \<Rightarrow> (nat \<times> u8 list) list" where
  "nodes_for priv device n ps =
     map (\<lambda>(i, p). (ap_minor priv + i, node_name device (ap_board priv) (entry_suffix (ap_prom priv) p)))
       (enumerate n ps)"

lemma nodes_for_simps [simp]:
  "nodes_for priv d n [] = []"
  "nodes_for priv d n (p # ps) =
     (ap_minor priv + n, node_name d (ap_board priv) (entry_suffix (ap_prom priv) p)) # nodes_for priv d (Suc n) ps"
  by (simp_all add: nodes_for_def)

lemma node_body_dma:
  assumes "prom_wf (ap_prom priv)" and "p \<in> set (prom_offsets (ap_prom priv))"
    and "entry_tag (ap_prom priv) p \<noteq> PROM_DEVICE_TAG"
    and "prom_entry_needs_minor (entry_tag (ap_prom priv) p)" and "nl_device_name s = Some d"
  shows "node_body priv p s = Inl (add_node priv d (entry_suffix (ap_prom priv) p) s)"
  using prom_wf_names [OF assms(1,2)] assms(3-5)
  by (auto simp: node_body_def Let_def prom_entry_needs_minor_def entry_suffix_def prom_get_buffer_def)

lemma node_body_skip:
  "\<not> prom_entry_needs_minor (entry_tag (ap_prom priv) p) \<Longrightarrow> node_body priv p s = Inl s"
  by (simp add: node_body_def Let_def prom_entry_needs_minor_def)

text \<open>Once the device is known every further entry with a minor number adds its node.\<close>

lemma node_loop_rest:
  assumes "prom_wf (ap_prom priv)" and "set ps \<subseteq> set (prom_offsets (ap_prom priv))"
    and "\<forall>p \<in> set ps. entry_tag (ap_prom priv) p \<noteq> PROM_DEVICE_TAG" and "nl_device_name s = Some d"
  shows "\<exists>s'. for_list (node_body priv) ps s = Inl s' \<and>
    nl_nodes s' = nl_nodes s @ nodes_for priv d (nl_minor_off s)
      (filter (\<lambda>p. prom_entry_needs_minor (entry_tag (ap_prom priv) p)) ps)"
  using assms(2-4)
proof (induction ps arbitrary: s)
  case (Cons p ps)
  show ?case
  proof (cases "prom_entry_needs_minor (entry_tag (ap_prom priv) p)")
    case True
    have body: "node_body priv p s = Inl (add_node priv d (entry_suffix (ap_prom priv) p) s)"
      using Cons.prems True by (intro node_body_dma [OF assms(1)]) auto
    have "nl_device_name (add_node priv d (entry_suffix (ap_prom priv) p) s) = Some d"
      using Cons.prems(3) by (simp add: add_node_def)
    from Cons.IH [OF _ _ this] Cons.prems(1,2) body True show ?thesis by (auto simp: add_node_def)
  next
    case False
    with Cons show ?thesis by (simp add: node_body_skip)
  qed
qed simp

lemma node_loop_all:
  assumes "prom_wf (ap_prom priv)" and "set ps \<subseteq> set (prom_offsets (ap_prom priv))"
    and "filter (\<lambda>p. prom_entry_needs_minor (entry_tag (ap_prom priv) p)) ps = q # qs"
    and "entry_tag (ap_prom priv) q = PROM_DEVICE_TAG"
    and "\<forall>p \<in> set qs. entry_tag (ap_prom priv) p \<noteq> PROM_DEVICE_TAG" and "nl_device_name s = None"
  shows "\<exists>s'. for_list (node_body priv) ps s = Inl s' \<and>
    nl_nodes s' = nl_nodes s @ nodes_for priv (the (cstr_at (prom_buff (ap_prom priv)) (q + 2))) (nl_minor_off s) (q # qs)"
  using assms(2-6)
proof (induction ps arbitrary: s)
  case (Cons p ps)
  show ?case
  proof (cases "prom_entry_needs_minor (entry_tag (ap_prom priv) p)")
    case False
    with Cons show ?thesis by (simp add: node_body_skip)
  next
    case True
    with Cons.prems(2) have q: "p = q" and qs: "qs = filter (\<lambda>p. prom_entry_needs_minor (entry_tag (ap_prom priv) p)) ps"
      by simp_all
    obtain name where name: "cstr_at (prom_buff (ap_prom priv)) (q + 2) = Some name"
      using prom_wf_names(1) [OF assms(1)] Cons.prems(1) q by auto
    let ?s = "add_node priv name reg_suffix (s\<lparr>nl_device_name := Some name\<rparr>)"
    have body: "node_body priv p s = Inl ?s"
      using Cons.prems name q by (simp add: node_body_def Let_def prom_get_buffer_def)
    have "\<forall>p \<in> set ps. entry_tag (ap_prom priv) p \<noteq> PROM_DEVICE_TAG"
      using Cons.prems(4) qs by (auto simp: prom_entry_needs_minor_def)
    then obtain s' where "for_list (node_body priv) ps ?s = Inl s'"
      "nl_nodes s' = nl_nodes ?s @ nodes_for priv name (nl_minor_off ?s) qs"
      using node_loop_rest [OF assms(1), of ps ?s name] Cons.prems(1) qs by (auto simp: add_node_def)
    then show ?thesis
      using body name Cons.prems(3) q by (simp add: add_node_def entry_suffix_def)
  qed
qed simp

lemma create_device_nodes_ok:
  assumes "prom_wf (ap_prom priv)" and "device_first (ap_prom priv)"
  defines "nodes \<equiv> nodes_for priv (device_name (ap_prom priv)) 0 (minor_offsets (ap_prom priv))"
  shows "create_device_nodes (Inr ()) priv held = Some (Inr (), nodes, insert Res_Cdev held \<union> node_resources nodes)"
proof -
  let ?c = "ap_prom priv"
  obtain q qs where m: "minor_offsets ?c = q # qs" and q: "entry_tag ?c q = PROM_DEVICE_TAG"
    "\<forall>p \<in> set qs. entry_tag ?c p \<noteq> PROM_DEVICE_TAG"
    using assms(2) by (auto simp: device_first_def split: list.splits)
  have valid: "prom_valid ?c" using assms(1) by (simp add: prom_wf_def)
  have "\<exists>s'. for_list (node_body priv) (prom_offsets ?c) \<lparr>nl_minor_off = 0, nl_device_name = None, nl_nodes = []\<rparr> = Inl s' \<and>
      nl_nodes s' = nodes"
    using node_loop_all [OF assms(1) subset_refl m [unfolded minor_offsets_def] q,
        of "\<lparr>nl_minor_off = 0, nl_device_name = None, nl_nodes = []\<rparr>"]
    by (simp add: nodes_def device_name_def m)
  moreover have "0 < prom_get_nentries_with_minor ?c"
    using valid m by (simp add: prom_valid_def prom_get_nentries_with_minor_def)
  ultimately show ?thesis
    by (auto simp: create_device_nodes_def prom_for_each_entry_list [OF valid] Let_def)
qed

text \<open>The nodes are numbered like the entries, and named after what the search finds.\<close>

lemma create_device_nodes_entries:
  assumes "prom_wf (ap_prom priv)" and "device_first (ap_prom priv)"
  shows "\<exists>nodes. create_device_nodes (Inr ()) priv held =
      Some (Inr (), nodes, insert Res_Cdev held \<union> node_resources nodes) \<and>
    map fst nodes = [ap_minor priv ..< ap_minor priv + prom_get_nentries_with_minor (ap_prom priv)] \<and>
    (\<forall>i < length nodes. \<exists>p.
       prom_find_entry_with_minor (ap_prom priv) (int (fst (nodes ! i)) - int (ap_minor priv)) = Some (Some p) \<and>
       snd (nodes ! i) = node_name (device_name (ap_prom priv)) (ap_board priv) (entry_suffix (ap_prom priv) p))"
proof -
  let ?c = "ap_prom priv"
  let ?nodes = "nodes_for priv (device_name ?c) 0 (minor_offsets ?c)"
  have valid: "prom_valid ?c" using assms(1) by (simp add: prom_wf_def)
  have len: "length ?nodes = prom_get_nentries_with_minor ?c"
    using valid by (simp add: nodes_for_def prom_valid_def prom_get_nentries_with_minor_def)
  have node: "?nodes ! i = (ap_minor priv + i, node_name (device_name ?c) (ap_board priv) (entry_suffix ?c (minor_offsets ?c ! i)))"
    if "i < length (minor_offsets ?c)" for i
    using that by (simp add: nodes_for_def nth_enumerate_eq)
  have "map fst ?nodes = [ap_minor priv ..< ap_minor priv + prom_get_nentries_with_minor ?c]"
    using len node by (auto intro!: nth_equalityI simp: nodes_for_def nth_enumerate_eq)
  moreover have "\<exists>p. prom_find_entry_with_minor ?c (int (fst (?nodes ! i)) - int (ap_minor priv)) = Some (Some p) \<and>
       snd (?nodes ! i) = node_name (device_name ?c) (ap_board priv) (entry_suffix ?c p)" if "i < length ?nodes" for i
    using that node [of i] by (auto simp: prom_find_entry_with_minor_nth [OF valid] nodes_for_def)
  ultimately show ?thesis using create_device_nodes_ok [OF assms] by blast
qed

section \<open>Opening by decoded entries\<close>

text \<open>
  The specification of open: what a decoded entry of the PROM gives. The three 16-bit parts of the
  base of a DMA entry are the digits of a number, the lowest first.
\<close>

definition window_base :: "u16 \<Rightarrow> u16 \<Rightarrow> u16 \<Rightarrow> u64" where
  "window_base b0 b1 b2 = of_nat (unat b0 + 2 ^ 16 * unat b1 + 2 ^ 32 * unat b2)"

definition open_window :: "u32 \<Rightarrow> nat kptr \<Rightarrow> u8 \<Rightarrow> u64 \<Rightarrow> u64 \<Rightarrow> amc_pci \<Rightarrow> file_private res \<times> amc_pci" where
  "open_window f_flags kmalloc perm base len priv =
     (if validate_file_permission f_flags (PROM_PERM_CAN_READ perm) (PROM_PERM_CAN_WRITE perm)
      then (case kmalloc of
              Ptr a \<Rightarrow> (Inr (Dma_File a), priv\<lparr>ap_mem := (ap_mem priv)(a \<mapsto> \<lparr>mc_base = base, mc_length = len\<rparr>)\<rparr>)
            | ErrPtr e \<Rightarrow> (Inl e, priv)
            | Null \<Rightarrow> (Inl ENOMEM, priv))
      else (Inl EACCES, priv))"

fun open_decoded :: "prom_entry \<Rightarrow> u32 \<Rightarrow> nat kptr \<Rightarrow> amc_pci \<Rightarrow> file_private res \<times> amc_pci" where
  "open_decoded (Prom_Device _) f_flags kmalloc priv =
     (let (rc, reg) = amc_pci_reg_open (ap_bar0_start priv) (ap_bar0_len priv) kmalloc (ap_reg priv)
      in (map_sum id Reg_File rc, priv\<lparr>ap_reg := reg\<rparr>))"
| "open_decoded (Prom_Dma [b0, b1, b2] len perm _) f_flags kmalloc priv =
     open_window f_flags kmalloc perm (window_base b0 b1 b2) (ucast len) priv"
| "open_decoded (Prom_Dma_Ext base len perm _) f_flags kmalloc priv =
     open_window f_flags kmalloc perm base len priv"
| "open_decoded _ f_flags kmalloc priv = (Inl EINVAL, priv)"

text \<open>The decoded entries that have a minor number, in the order of their numbers.\<close>

definition minor_entries :: "prom_context \<Rightarrow> prom_entry list" where
  "minor_entries c = map (\<lambda>p. the (prom_entry_at (prom_buff c) p)) (minor_offsets c)"

lemma join_base_window: "join_base b0 b1 b2 = window_base b0 b1 b2"
proof -
  have "ucast b0 OR push_bit 16 (ucast b1) OR push_bit 32 (ucast b2) =
      (ucast b0 + push_bit 16 (ucast b1) + push_bit 32 (ucast b2) :: u64)"
    by (subst disjunctive_add_eq_or, (rule bit_word_eqI, auto simp: bit_simps dest: bit_imp_le_length)[])+
      (simp add: or.assoc)
  also have "\<dots> = window_base b0 b1 b2"
    by (simp add: window_base_def push_bit_eq_mult mult.commute)
  finally show ?thesis by (simp add: join_base_def)
qed

lemma open_dma_window:
  "open_dma f_flags kmalloc (Some perm) (Some base) (Some len) priv =
     Some (open_window f_flags kmalloc perm base len priv)"
  by (cases kmalloc) (auto simp: open_dma_def open_window_def amc_pci_dma_open_def)

lemma open_entry_decoded:
  assumes "prom_wf (ap_prom priv)" and "p \<in> set (minor_offsets (ap_prom priv))"
  shows "open_entry p f_flags kmalloc priv =
    Some (open_decoded (the (prom_entry_at (prom_buff (ap_prom priv)) p)) f_flags kmalloc priv)"
proof -
  let ?c = "ap_prom priv" and ?b = "prom_buff (ap_prom priv)"
  have p: "p \<in> set (prom_offsets ?c)" and minor: "prom_entry_needs_minor (entry_tag ?c p)"
    using assms(2) by (simp_all add: minor_offsets_def)
  obtain e where e: "e < PROM_MAX_LENGTH" "length ?b = PROM_MAX_LENGTH + 1" "p + min_body (entry_tag ?c p) + 2 \<le> e"
    using prom_wf_end [OF assms(1)] p by blast
  have tag: "u8_at ?b p = Some (entry_tag ?c p)"
    using e by (simp add: u8_at_def field_at_def entry_tag_def hd_drop_conv_nth take_Suc)
  obtain sz where sz: "u8_at ?b (p + 1) = Some sz" using fields_within(1) [of "p + 1" ?b] e by auto
  have names: "\<exists>n. cstr_at ?b (p + 2) = Some n" "entry_tag ?c p = 2 \<Longrightarrow> \<exists>n. cstr_at ?b (p + 13) = Some n"
    "entry_tag ?c p = 3 \<Longrightarrow> \<exists>n. cstr_at ?b (p + 19) = Some n"
    using prom_wf_names [OF assms(1) p] by simp_all
  consider "entry_tag ?c p = 1" | "entry_tag ?c p = 2" | "entry_tag ?c p = 3"
    using minor by (auto simp: prom_entry_needs_minor_def)
  then show ?thesis
  proof cases
    case 1
    then show ?thesis using names tag sz
      by (auto simp: open_entry_def prom_entry_at_def prom_device_entry_def Let_def split: prod.split)
  next
    case 2
    have "\<exists>v. u16_at ?b (p + 2) = Some v" "\<exists>v. u16_at ?b (p + 4) = Some v" "\<exists>v. u16_at ?b (p + 6) = Some v"
      "\<exists>v. u32_at ?b (p + 8) = Some v" "\<exists>v. u8_at ?b (p + 12) = Some v"
      using e 2 by (auto intro!: fields_within simp: min_body_def)
    with 2 names(2) [OF 2] tag sz show ?thesis
      by (auto simp: open_entry_def prom_entry_at_def prom_dma_entry_def Let_def prom_get_buffer_def open_dma_window
          join_base_window)
  next
    case 3
    have "\<exists>v. u64_at ?b (p + 2) = Some v" "\<exists>v. u64_at ?b (p + 10) = Some v" "\<exists>v. u8_at ?b (p + 18) = Some v"
      using e 3 by (auto intro!: fields_within simp: min_body_def)
    with 3 names(3) [OF 3] tag sz show ?thesis
      by (auto simp: open_entry_def prom_entry_at_def prom_dma_ext_entry_def Let_def prom_get_buffer_def open_dma_window)
  qed
qed

lemma release_after_get:
  "get_ref refs = Inr refs' \<Longrightarrow> amc_pci_release refs' = refs"
  using get_ref_cases [of refs] by (cases refs) (auto simp: amc_pci_release_eq)

lemma set_refs_simps [simp]:
  "ap_prom (set_refs r p) = ap_prom p" "ap_minor (set_refs r p) = ap_minor p"
  "rb_refs (ap_reg (set_refs r p)) = r" "ap_mem (set_refs r p) = ap_mem p"
  "set_refs r (set_refs r' p) = set_refs r p" "set_refs (rb_refs (ap_reg p)) p = p"
  by (simp_all add: set_refs_def)

lemma open_decoded_refs:
  "open_decoded ent f_flags kmalloc priv = (r, priv') \<Longrightarrow>
     rb_refs (ap_reg priv') = rb_refs (ap_reg priv) \<and> ap_prom priv' = ap_prom priv"
  by (induction ent f_flags kmalloc priv rule: open_decoded.induct)
    (auto simp: open_window_def amc_pci_reg_open_def Let_def
      split: if_splits kptr.splits prod.splits option.splits sum.splits)

text \<open>Open, in terms of the decoded entries.\<close>

lemma amc_pci_open_entries:
  assumes "prom_wf (ap_prom priv)"
  shows "amc_pci_open iminor f_flags kmalloc priv =
    (case get_ref (rb_refs (ap_reg priv)) of
       Inl e \<Rightarrow> Some (Inl ENXIO, priv)
     | Inr refs \<Rightarrow>
         let i = iminor - int (ap_minor priv); es = minor_entries (ap_prom priv)
         in if 0 \<le> i \<and> i < int (length es) then
              (case open_decoded (es ! nat i) f_flags kmalloc (set_refs refs priv) of
                 (Inr f, priv') \<Rightarrow> Some (Inr f, priv')
               | (Inl e, priv') \<Rightarrow> Some (Inl e, set_refs (rb_refs (ap_reg priv)) priv'))
            else Some (Inl EINVAL, priv))"
proof (cases "get_ref (rb_refs (ap_reg priv))")
  case (Inl e)
  then show ?thesis using get_ref_cases [of "rb_refs (ap_reg priv)"] by (auto simp: amc_pci_open_def)
next
  case (Inr refs)
  let ?i = "iminor - int (ap_minor priv)" and ?c = "ap_prom priv"
  have valid: "prom_valid ?c" using assms by (simp add: prom_wf_def)
  note rel = release_after_get [OF Inr]
  show ?thesis
  proof (cases "0 \<le> ?i \<and> ?i < int (length (minor_offsets ?c))")
    case False
    then show ?thesis
      using Inr by (auto simp: amc_pci_open_def prom_find_entry_with_minor_nth [OF valid] Let_def rel minor_entries_def)
  next
    case True
    let ?p = "minor_offsets ?c ! nat ?i"
    have p: "?p \<in> set (minor_offsets (ap_prom (set_refs refs priv)))" using True by (simp add: nat_less_iff)
    obtain r priv' where o: "open_decoded (minor_entries ?c ! nat ?i) f_flags kmalloc (set_refs refs priv) = (r, priv')"
      by fastforce
    have entry: "open_entry ?p f_flags kmalloc (set_refs refs priv) = Some (r, priv')"
      using open_entry_decoded [OF _ p] assms True o by (simp add: minor_entries_def nat_less_iff)
    have found: "prom_find_entry_with_minor ?c ?i = Some (Some ?p)"
      using True by (simp add: prom_find_entry_with_minor_nth [OF valid])
    have refs: "rb_refs (ap_reg priv') = refs" using open_decoded_refs [OF o] by simp
    have len: "length (minor_entries ?c) = length (minor_offsets ?c)" by (simp add: minor_entries_def)
    show ?thesis
      unfolding amc_pci_open_def Inr sum.case Let_def set_refs_simps found len
      using True by (cases r) (simp_all add: entry o refs rel)
  qed
qed

section \<open>An example board\<close>

definition demo_amc :: "prom_context \<Rightarrow> amc_pci" where
  "demo_amc c = \<lparr>ap_board = 0, ap_major = 240, ap_minor = 0, ap_bar0_start = 0x4000, ap_bar0_len = 0x2000,
     ap_reg = demo_board, ap_mem = \<lambda>_. None, ap_dma = Some demo_control, ap_prom = c\<rparr>"

lemma test_prom1_wf:
  assumes "length d \<le> PROM_MAX_LENGTH"
  obtains c where "load_prom (Ptr ()) d heap (rom_of (window_of test_prom1)) = Inr c"
    and "prom_wf c" and "device_first c" and "minor_offsets c = [5, 16, 34, 52]"
    and "prom_offsets c = [5, 16, 34, 52]" and "dma_offsets c = [16, 34, 52]"
proof -
  obtain c where c: "load_prom (Ptr ()) d heap (rom_of (window_of test_prom1)) = Inr c" "prom_valid c"
    "prom_offsets c = [5, 16, 34, 52]" "prom_buff c = window_of test_prom1 @ [0]"
    by (rule test_prom1_loads [OF assms, of heap])
  have b: "prom_buff c ! i = test_prom1 ! i" if "i < 74" for i
    using that by (simp add: c(4) window_of_def nth_append test_prom1_facts)
  have tags: "test_prom1 ! 5 = 1" "test_prom1 ! 16 = 2" "test_prom1 ! 34 = 2" "test_prom1 ! 52 = 2"
    by code_simp+
  have sizes: "test_prom1 ! 17 = 16" "test_prom1 ! 35 = 16" "test_prom1 ! 53 = 16" by code_simp+
  have t: "entry_tag c 5 = 1" "entry_tag c 16 = 2" "entry_tag c 34 = 2" "entry_tag c 52 = 2"
    by (simp_all add: entry_tag_def b tags)
  have "prom_wf c" using c(2) by (simp add: prom_wf_def c(3) t min_body_def b sizes)
  moreover have m: "minor_offsets c = [5, 16, 34, 52]"
    by (simp add: minor_offsets_def c(3) t prom_entry_needs_minor_def)
  moreover have "device_first c" by (simp add: device_first_def m t)
  moreover have "dma_offsets c = [16, 34, 52]" by (simp add: dma_offsets_def c(3) t is_dma_tag_def)
  ultimately show thesis using that c(1,3) by blast
qed

section \<open>Properties\<close>

text \<open>
  C4: Open refines its specification. On a live board with a well-formed PROM, opening the node
  with minor number \<open>i\<close> of the board does what the \<open>i\<close>th decoded entry with a minor number says:
  a register file, or a memory file on the window of the entry if its permissions allow the
  access mode. A number without an entry gives \<^verbatim>\<open>EINVAL\<close>. The file count goes up by one exactly
  if the open succeeds and is unchanged otherwise; a board that is gone gives \<^verbatim>\<open>ENXIO\<close>.
\<close>

theorem open_refines_entries:
  assumes "prom_wf (ap_prom priv)"
  shows "amc_pci_open iminor f_flags kmalloc priv =
    (case get_ref (rb_refs (ap_reg priv)) of
       Inl e \<Rightarrow> Some (Inl ENXIO, priv)
     | Inr refs \<Rightarrow>
         let i = iminor - int (ap_minor priv); es = minor_entries (ap_prom priv)
         in if 0 \<le> i \<and> i < int (length es) then
              (case open_decoded (es ! nat i) f_flags kmalloc (set_refs refs priv) of
                 (Inr f, priv') \<Rightarrow> Some (Inr f, priv')
               | (Inl e, priv') \<Rightarrow> Some (Inl e, set_refs (rb_refs (ap_reg priv)) priv'))
            else Some (Inl EINVAL, priv))"
  using assms by (rule amc_pci_open_entries)

theorem open_refines_entries_witness:
  "\<exists>c. prom_wf c \<and> amc_pci_open 4 0 (Ptr 9) (demo_amc c) = Some (Inl EINVAL, demo_amc c)"
proof -
  obtain c where c: "prom_wf c" "minor_offsets c = [5, 16, 34, 52]"
    by (rule test_prom1_wf [of "[]" "\<lambda>_. 0"]) auto
  have "ap_prom (demo_amc c) = c" "ap_minor (demo_amc c) = 0" "rb_refs (ap_reg (demo_amc c)) = new_refs"
    "get_ref new_refs = Inr (new_refs\<lparr>fr_refcount := 2\<rparr>)"
    by (simp_all add: demo_amc_def demo_board_def get_ref_def atomic_inc_not_zero_def new_refs_def)
  then show ?thesis
    using open_refines_entries [of "demo_amc c" 4 0 "Ptr 9"] c by (auto simp: minor_entries_def)
qed

text \<open>
  C9: Nodes and files agree. For a well-formed PROM whose first entry with a minor number is its
  only device entry, creating the nodes succeeds if the character device is added. The nodes
  are numbered without gaps from the first minor number of the board, one for each entry with a
  minor number, and the search that open uses finds under the number of a node the entry
  after which the node is named.
\<close>

theorem nodes_match_entries:
  assumes "prom_wf (ap_prom priv)" and "device_first (ap_prom priv)"
  shows "\<exists>nodes. create_device_nodes (Inr ()) priv held =
      Some (Inr (), nodes, insert Res_Cdev held \<union> node_resources nodes) \<and>
    map fst nodes = [ap_minor priv ..< ap_minor priv + prom_get_nentries_with_minor (ap_prom priv)] \<and>
    (\<forall>i < length nodes. \<exists>p.
       prom_find_entry_with_minor (ap_prom priv) (int (fst (nodes ! i)) - int (ap_minor priv)) = Some (Some p) \<and>
       snd (nodes ! i) = node_name (device_name (ap_prom priv)) (ap_board priv) (entry_suffix (ap_prom priv) p))"
  by (rule create_device_nodes_entries [OF assms])

theorem nodes_match_entries_witness:
  "\<exists>c nodes. create_device_nodes (Inr ()) (demo_amc c) {} = Some (Inr (), nodes, {Res_Cdev} \<union> node_resources nodes) \<and>
     map fst nodes = [0, 1, 2, 3]"
proof -
  obtain c where c: "prom_wf c" "device_first c" "minor_offsets c = [5, 16, 34, 52]"
    by (rule test_prom1_wf [of "[]" "\<lambda>_. 0"]) auto
  then have "prom_get_nentries_with_minor c = 4"
    by (simp add: prom_wf_def prom_valid_def prom_get_nentries_with_minor_def)
  moreover have "ap_prom (demo_amc c) = c" "ap_minor (demo_amc c) = 0" by (simp_all add: demo_amc_def)
  moreover have "[0..<4] = [0, 1, 2, 3]" by (simp add: upt_rec)
  ultimately show ?thesis
    using nodes_match_entries [of "demo_amc c" "{}"] c by (intro exI [of _ c]) auto
qed

text \<open>
  Access modes. The check allows read-only access exactly with read permission, write-only
  access exactly with write permission, read-write access exactly with both, and nothing else;
  so a memory file that open hands out has the permission for its access mode.
\<close>

theorem access_modes:
  "(validate_file_permission f_flags can_read can_write \<longleftrightarrow>
     f_flags AND O_ACCMODE = O_RDONLY \<and> can_read \<or> f_flags AND O_ACCMODE = O_WRONLY \<and> can_write \<or>
      f_flags AND O_ACCMODE = O_RDWR \<and> can_read \<and> can_write) \<and>
   (open_window f_flags kmalloc perm base len priv = (Inr (Dma_File a), priv') \<longrightarrow>
      (f_flags AND O_ACCMODE \<noteq> O_WRONLY \<longrightarrow> PROM_PERM_CAN_READ perm) \<and>
      (f_flags AND O_ACCMODE \<noteq> O_RDONLY \<longrightarrow> PROM_PERM_CAN_WRITE perm) \<and>
      ap_mem priv' a = Some \<lparr>mc_base = base, mc_length = len\<rparr>)"
proof -
  have distinct: "O_RDONLY \<noteq> O_WRONLY" "O_RDONLY \<noteq> O_RDWR" "O_WRONLY \<noteq> O_RDWR"
    by (simp_all add: O_RDONLY_def O_WRONLY_def O_RDWR_def)
  then show ?thesis
    by (auto simp: validate_file_permission_def open_window_def split: if_splits kptr.splits)
qed

theorem access_modes_witness:
  "PROM_PERM_CAN_WRITE 2 \<and>
   (\<forall>c. fst (open_window O_WRONLY (Ptr 5) 2 0x1000 0x800 (demo_amc c)) = Inr (Dma_File 5))"
proof -
  have op: "fst (open_window O_WRONLY (Ptr 5) 2 0x1000 0x800 (demo_amc c)) = Inr (Dma_File 5)" for c
    by (simp add: open_window_def validate_file_permission_def O_ACCMODE_def O_WRONLY_def O_RDONLY_def
        PROM_PERM_CAN_WRITE_def)
  then show ?thesis
    using access_modes [of O_WRONLY True True "Ptr 5" 2 "0x1000" "0x800" "demo_amc c" 5
        "snd (open_window O_WRONLY (Ptr 5) 2 0x1000 0x800 (demo_amc c))" for c]
    by (simp add: prod_eq_iff O_ACCMODE_def O_WRONLY_def O_RDONLY_def)
qed



end
