(* ===== verification/Core_Board.thy ===== *)
theory Core_Board
  imports Core_Files
begin

text \<open>
  The board side of \<^verbatim>\<open>amc_pci_core.c\<close>: board numbers, enabling the PCI device, setting up and
  shutting down a board, probe and remove, and loading and unloading of the module, each with
  the order of its steps and of its error exits. What a step takes from the kernel is entered
  in the ledger, so that what an error exit forgets to give back is visible there.
\<close>

section \<open>Data\<close>

definition MAX_BOARDS :: nat where [simp]: "MAX_BOARDS = 4"
definition MAX_MINORS :: nat where [simp]: "MAX_MINORS = MAX_BOARDS * MAX_MINORS_PER_BOARD"
definition BAR2_LENGTH :: int where "BAR2_LENGTH = 16384"
definition DMA_DEFAULT_MASK :: u8 where "DMA_DEFAULT_MASK = 47"
definition DMA_DEFAULT_ALIGNMENT_SHIFT :: u8 where "DMA_DEFAULT_ALIGNMENT_SHIFT = 5"

text \<open>What kernel and device answer while a board is probed.\<close>

record probe_env =
  pe_kmalloc :: "unit kptr"
  pe_enable_device :: "unit res"
  pe_request_regions :: "unit res"
  pe_enable_msi :: "unit res"
  pe_bar0_start :: u64
  pe_bar0_len :: u64
  pe_bar2_length :: int
  pe_iomap :: "unit kptr"
  pe_prom_kzalloc :: "unit kptr"
  pe_default_prom :: "u8 list"
  pe_heap :: "nat \<Rightarrow> u8"
  pe_window :: "nat \<Rightarrow> u32"
  pe_platform :: platform
  pe_dma_kernel :: dma_kernel
  pe_intc_kzalloc :: "unit kptr"
  pe_request_irq :: "unit res"
  pe_major :: nat
  pe_cdev_add :: "unit res"
  pe_sysfs_prom_used :: "unit res"
  pe_sysfs_prom :: "unit res"

text \<open>The state of the driver: the bitmap of boards, the bus trace and the ledger of one device.\<close>

record driver_state =
  ds_boards :: u64
  ds_bus :: bus
  ds_held :: ledger

section \<open>Board numbers\<close>

function get_free_from :: "nat \<Rightarrow> u64 \<Rightarrow> nat res \<times> u64" where
  "get_free_from n boards =
     (if n < MAX_BOARDS then
        (let (was_set, boards) = test_and_set_bit n boards
         in if \<not> was_set then (Inr n, boards) else get_free_from (Suc n) boards)
      else (Inl EIO, boards))"
  by auto
termination by (relation "measure (\<lambda>(n, _). MAX_BOARDS - n)") auto

declare get_free_from.simps [simp del]

definition get_free_board :: "u64 \<Rightarrow> nat res \<times> u64" where
  "get_free_board boards = get_free_from 0 boards"

definition release_board :: "nat \<Rightarrow> u64 \<Rightarrow> u64" where
  "release_board board boards = clear_bit board boards"

section \<open>The PCI device\<close>

definition enable_board :: "probe_env \<Rightarrow> ledger \<Rightarrow> unit res \<times> ledger" where
  "enable_board env held =
     (case pe_enable_device env of
        Inl e \<Rightarrow> (Inl e, held)
      | Inr _ \<Rightarrow>
          let held = insert Res_Pci_Device held
          in (case pe_request_regions env of
                Inl e \<Rightarrow> (Inl e, held - {Res_Pci_Device})
              | Inr _ \<Rightarrow>
                  let held = insert Res_Master (insert Res_Regions held)
                  in (case pe_enable_msi env of
                        Inl e \<Rightarrow> (Inl e, held - {Res_Master} - {Res_Regions} - {Res_Pci_Device})
                      | Inr _ \<Rightarrow> (Inr (), insert Res_Msi held))))"

definition disable_board :: "ledger \<Rightarrow> ledger" where
  "disable_board held = held - {Res_Msi} - {Res_Master} - {Res_Regions} - {Res_Pci_Device}"

section \<open>The board\<close>

text \<open>
  The DMA parameters: mask and alignment shift from the PROM, or the defaults. \<open>None\<close> is a field
  outside the PROM buffer.
\<close>

definition dma_param :: "prom_context \<Rightarrow> u8 \<Rightarrow> u8 \<Rightarrow> u8 option" where
  "dma_param prom tag standard =
     do {
       found \<leftarrow> prom_find_entry_by_tag prom tag;
       (case found of None \<Rightarrow> Some standard | Some pentry \<Rightarrow> u8_at (prom_get_buffer prom) (pentry + 2))
     }"

text \<open>
  \<^verbatim>\<open>initialise_board\<close>: the PROM, the DMA controller if the PROM has DMA entries, and the interrupt
  controller. The exit after a failed DMA set-up unmaps the BAR and does nothing else.
\<close>

type_synonym board_parts = "prom_context \<times> dma_control option \<times> interrupt_control"

definition initialise_dma :: "probe_env \<Rightarrow> prom_context \<Rightarrow> bus \<times> ledger \<Rightarrow>
    (dma_control option res \<times> bus \<times> ledger) option"
where
  "initialise_dma env prom s =
     (if prom_get_dma_nentries prom \<noteq> 0 then do {
        mask \<leftarrow> dma_param prom PROM_DMA_MASK_TAG DMA_DEFAULT_MASK;
        alignment_shift \<leftarrow> dma_param prom PROM_DMA_ALIGN_TAG DMA_DEFAULT_ALIGNMENT_SHIFT;
        (r, s) \<leftarrow> initialise_dma_control (pe_platform env) (pe_dma_kernel env) mask alignment_shift s;
        Some (map_sum id Some r, s)
      } else Some (Inr None, s))"

definition terminate_dma :: "prom_context \<Rightarrow> bus \<times> ledger \<Rightarrow> bus \<times> ledger" where
  "terminate_dma prom s = (if prom_get_dma_nentries prom \<noteq> 0 then terminate_dma_control s else s)"

definition release_res :: "resource \<Rightarrow> bus \<times> ledger \<Rightarrow> bus \<times> ledger" where
  "release_res r s = (fst s, snd s - {r})"

definition take_res :: "resource \<Rightarrow> bus \<times> ledger \<Rightarrow> bus \<times> ledger" where
  "take_res r s = (fst s, insert r (snd s))"

definition release_prom_context :: "bus \<times> ledger \<Rightarrow> bus \<times> ledger" where
  [simp]: "release_prom_context s = release_res Res_Prom s"

definition initialise_board ::
    "probe_env \<Rightarrow> bus \<times> ledger \<Rightarrow> (board_parts res \<times> bus \<times> ledger) option"
where
  "initialise_board env s =
     (if \<not> pe_bar2_length env \<ge> BAR2_LENGTH then Some (Inl EINVAL, s)
      else (case test_ptr (pe_iomap env) of
        Inl e \<Rightarrow> Some (Inl e, s)
      | Inr _ \<Rightarrow>
          let s = take_res Res_Bar2 s
          in (case load_prom (pe_prom_kzalloc env) (pe_default_prom env) (pe_heap env) (pe_window env) of
                Inl e \<Rightarrow> Some (Inl e, release_res Res_Bar2 s)
              | Inr prom \<Rightarrow>
                  let s = take_res Res_Prom s
                  in if \<not> prom_get_nentries prom \<le> MAX_MINORS_PER_BOARD
                     then Some (Inl E2BIG, release_res Res_Bar2 (release_prom_context s))
                     else do {
                       (r, s) \<leftarrow> initialise_dma env prom s;
                       (case r of
                          Inl e \<Rightarrow> Some (Inl e, release_res Res_Bar2 s)
                        | Inr dma \<Rightarrow>
                            (case initialise_interrupt_control (pe_intc_kzalloc env) (pe_request_irq env) dma s of
                               (Inl e, s) \<Rightarrow>
                                 Some (Inl e, release_res Res_Bar2 (release_prom_context (terminate_dma prom s)))
                             | (Inr intc, s) \<Rightarrow> Some (Inr (prom, dma, intc), s)))
                     })))"

definition terminate_board :: "amc_pci \<Rightarrow> bus \<times> ledger \<Rightarrow> bus \<times> ledger" where
  "terminate_board priv s =
     release_res Res_Bar2 (release_prom_context (terminate_dma (ap_prom priv) (terminate_interrupt_control s)))"

section \<open>Probe and remove\<close>

definition new_amc_pci :: "probe_env \<Rightarrow> nat \<Rightarrow> board_parts \<Rightarrow> amc_pci" where
  "new_amc_pci env board = (\<lambda>(prom, dma, intc).
     \<lparr>ap_board = board, ap_major = pe_major env, ap_minor = board * MAX_MINORS_PER_BOARD,
      ap_bar0_start = pe_bar0_start env, ap_bar0_len = pe_bar0_len env,
      ap_reg = \<lparr>rb_locking = \<lparr>lk_mutex = False, lk_reference_count = 0, lk_locked_by = None\<rparr>,
                rb_interrupts = intc, rb_contexts = \<lambda>_. None, rb_refs = new_refs\<rparr>,
      ap_mem = \<lambda>_. None, ap_dma = dma, ap_prom = prom\<rparr>)"

text \<open>
  The labels at the end of probe, from the last to the first: \<^verbatim>\<open>no_memory\<close>, \<^verbatim>\<open>no_enable\<close>,
  \<^verbatim>\<open>no_initialise\<close>, and \<^verbatim>\<open>no_cdev\<close> together with \<^verbatim>\<open>sysfs_error\<close>.
\<close>

definition no_memory :: "nat \<Rightarrow> u64 \<Rightarrow> bus \<times> ledger \<Rightarrow> driver_state" where
  "no_memory board boards s =
     \<lparr>ds_boards = release_board board boards, ds_bus = fst s, ds_held = snd s\<rparr>"

definition no_enable :: "nat \<Rightarrow> u64 \<Rightarrow> bus \<times> ledger \<Rightarrow> driver_state" where
  "no_enable board boards s = no_memory board boards (release_res Res_Priv s)"

definition no_initialise :: "nat \<Rightarrow> u64 \<Rightarrow> bus \<times> ledger \<Rightarrow> driver_state" where
  "no_initialise board boards s = no_enable board boards (fst s, disable_board (snd s))"

definition no_cdev :: "amc_pci \<Rightarrow> nat \<Rightarrow> u64 \<Rightarrow> bus \<times> ledger \<Rightarrow> driver_state" where
  "no_cdev priv board boards s = no_initialise board boards (terminate_board priv s)"

definition amc_pci_probe :: "probe_env \<Rightarrow> driver_state \<Rightarrow> (amc_pci res \<times> driver_state) option" where
  "amc_pci_probe env d =
     (case get_free_board (ds_boards d) of
        (Inl e, boards) \<Rightarrow> Some (Inl e, d\<lparr>ds_boards := boards\<rparr>)
      | (Inr board, boards) \<Rightarrow>
          let s = (ds_bus d, ds_held d)
          in (case test_ptr (pe_kmalloc env) of
                Inl e \<Rightarrow> Some (Inl e, no_memory board boards s)
              | Inr _ \<Rightarrow>
                  let s = take_res Res_Priv s
                  in (case enable_board env (snd s) of
                        (Inl e, held) \<Rightarrow> Some (Inl e, no_enable board boards (fst s, held))
                      | (Inr _, held) \<Rightarrow> do {
                          (r, s) \<leftarrow> initialise_board env (fst s, held);
                          (case r of
                             Inl e \<Rightarrow> Some (Inl e, no_initialise board boards s)
                           | Inr parts \<Rightarrow>
                               let priv = new_amc_pci env board parts
                               in do {
                                    (r, _, held) \<leftarrow> create_device_nodes (pe_cdev_add env) priv (snd s);
                                    let s = (fst s, held);
                                    (case r of
                                       Inl e \<Rightarrow> Some (Inl e, no_cdev priv board boards s)
                                     | Inr _ \<Rightarrow>
                                         (case pe_sysfs_prom_used env of
                                            Inl e \<Rightarrow> Some (Inl e, no_cdev priv board boards s)
                                          | Inr _ \<Rightarrow>
                                              let s = take_res Res_Sysfs_Prom_Used s
                                              in (case pe_sysfs_prom env of
                                                    Inl e \<Rightarrow> Some (Inl e, no_cdev priv board boards s)
                                                  | Inr _ \<Rightarrow>
                                                      let s = take_res Res_Sysfs_Prom s
                                                      in Some (Inr priv, \<lparr>ds_boards = boards, ds_bus = fst s,
                                                                ds_held = snd s\<rparr>))))
                                  })
                        })))"

text \<open>
  Removal while \<open>closes\<close> handles are closed; \<open>None\<close> if it waits for ever.
\<close>

definition amc_pci_remove :: "nat \<Rightarrow> amc_pci \<Rightarrow> driver_state \<Rightarrow> driver_state option" where
  "amc_pci_remove closes priv d =
     (let held = destroy_device_nodes priv (ds_held d)
      in do {
           _ \<leftarrow> wait_for_clients closes (rb_refs (ap_reg priv));
           let s = terminate_board priv (ds_bus d, held);
           let held = disable_board (snd s);
           let boards = release_board (ap_board priv) (ds_boards d);
           let held = held - {Res_Sysfs_Prom_Used} - {Res_Sysfs_Prom};
           Some \<lparr>ds_boards = boards, ds_bus = fst s, ds_held = held - {Res_Priv}\<rparr>
         })"

section \<open>The module\<close>

fun amc_pci_init :: "unit res \<times> unit kptr \<times> unit res \<Rightarrow> ledger \<Rightarrow> unit res \<times> ledger" where
  "amc_pci_init (alloc_region, class_create, register_driver) held =
     (case alloc_region of
        Inl e \<Rightarrow> (Inl e, held)
      | Inr _ \<Rightarrow>
          let held = insert Res_Chrdev held
          in (case test_ptr class_create of
                Inl e \<Rightarrow> (Inl e, held - {Res_Chrdev})
              | Inr _ \<Rightarrow>
                  let held = insert Res_Class held
                  in (case register_driver of
                        Inl e \<Rightarrow> (Inl e, held - {Res_Class} - {Res_Chrdev})
                      | Inr _ \<Rightarrow> (Inr (), insert Res_Driver held))))"

definition amc_pci_exit :: "ledger \<Rightarrow> ledger" where
  "amc_pci_exit held = held - {Res_Driver} - {Res_Class} - {Res_Chrdev}"

section \<open>Resources of a board\<close>

definition module_resources :: ledger where
  "module_resources = {Res_Chrdev, Res_Class, Res_Driver}"

definition dma_resources :: "prom_context \<Rightarrow> ledger" where
  "dma_resources prom =
     (if prom_get_dma_nentries prom \<noteq> 0 then {Res_Dma_Control, Res_Dma_Pages, Res_Dma_Mapping} else {})"

definition board_resources :: "amc_pci \<Rightarrow> ledger" where
  "board_resources priv =
     {Res_Priv, Res_Pci_Device, Res_Regions, Res_Master, Res_Msi, Res_Bar2, Res_Prom, Res_Intc, Res_Irq,
      Res_Cdev, Res_Sysfs_Prom_Used, Res_Sysfs_Prom} \<union> dma_resources (ap_prom priv)"

definition boards_set :: "u64 \<Rightarrow> nat set" where
  "boards_set boards = {n. bit boards n}"

section \<open>Board numbers as slots\<close>

lemma get_free_from_cases:
  "(\<forall>i. n \<le> i \<and> i < MAX_BOARDS \<longrightarrow> bit w i) \<and> get_free_from n w = (Inl EIO, w) \<or>
   (\<exists>m. n \<le> m \<and> m < MAX_BOARDS \<and> \<not> bit w m \<and> (\<forall>i. n \<le> i \<and> i < m \<longrightarrow> bit w i) \<and>
      get_free_from n w = (Inr m, snd (test_and_set_bit m w)))"
proof (induction n w rule: get_free_from.induct)
  case (1 n w)
  show ?case
  proof (cases "n < MAX_BOARDS")
    case False
    then show ?thesis by (intro disjI1) (auto simp: get_free_from.simps)
  next
    case n: True
    show ?thesis
    proof (cases "bit w n")
      case False
      then have "fst (test_and_set_bit n w) = False" by (simp add: bitmap_simps)
      with n have "get_free_from n w = (Inr n, snd (test_and_set_bit n w))"
        by (subst get_free_from.simps) (simp add: split_beta)
      with n False show ?thesis by auto
    next
      case True
      with n have eq: "get_free_from n w = get_free_from (Suc n) w"
        by (subst get_free_from.simps) (simp add: test_and_set_again)
      have skip: "(\<forall>i. n \<le> i \<and> i < k \<longrightarrow> bit w i) \<longleftrightarrow> (\<forall>i. Suc n \<le> i \<and> i < k \<longrightarrow> bit w i)" for k
      proof (intro iffI allI impI)
        fix i
        assume "\<forall>i. Suc n \<le> i \<and> i < k \<longrightarrow> bit w i" "n \<le> i \<and> i < k"
        with True show "bit w i" by (cases "i = n") simp_all
      qed simp
      have "(\<forall>i. Suc n \<le> i \<and> i < MAX_BOARDS \<longrightarrow> bit w i) \<and> get_free_from (Suc n) w = (Inl EIO, w) \<or>
          (\<exists>m. Suc n \<le> m \<and> m < MAX_BOARDS \<and> \<not> bit w m \<and> (\<forall>i. Suc n \<le> i \<and> i < m \<longrightarrow> bit w i) \<and>
             get_free_from (Suc n) w = (Inr m, snd (test_and_set_bit m w)))"
        using "1.IH" [OF n test_and_set_again [OF True, symmetric]] by simp
      then show ?thesis
      proof (elim disjE exE)
        fix m
        assume "Suc n \<le> m \<and> m < MAX_BOARDS \<and> \<not> bit w m \<and> (\<forall>i. Suc n \<le> i \<and> i < m \<longrightarrow> bit w i) \<and>
             get_free_from (Suc n) w = (Inr m, snd (test_and_set_bit m w))"
        then show ?thesis unfolding eq skip by (intro disjI2 exI [of _ m]) (simp add: Suc_leD)
      qed (simp add: eq skip)
    qed
  qed
qed

lemmas get_free_board_cases = get_free_from_cases [of 0, folded get_free_board_def]

lemma get_free_board_Inr:
  "get_free_board w = (Inr m, w') \<Longrightarrow>
     m < MAX_BOARDS \<and> m \<notin> boards_set w \<and> {..<m} \<subseteq> boards_set w \<and> boards_set w' = insert m (boards_set w)"
  using get_free_board_cases [of w] by (auto simp: boards_set_def bitmap_simps)

lemma get_free_board_Inl:
  "get_free_board w = (Inl e, w') \<Longrightarrow> w' = w \<and> e = EIO \<and> {..<MAX_BOARDS} \<subseteq> boards_set w"
  using get_free_board_cases [of w] by (auto simp: boards_set_def)

lemma boards_set_release: "boards_set (release_board n w) = boards_set w - {n}"
  by (auto simp: boards_set_def release_board_def bitmap_simps)

interpretation boards: bit_slots boards_set MAX_BOARDS
  "\<lambda>w. case get_free_board w of (Inr n, w') \<Rightarrow> Some (n, w') | (Inl _, _) \<Rightarrow> None" release_board
proof (unfold_locales, goal_cases)
  case (1 w)
  show ?case
  proof (cases "get_free_board w")
    case (Pair r w')
    show ?thesis
    proof (cases r)
      case (Inl e)
      with Pair get_free_board_Inl [of w e w'] show ?thesis by auto
    next
      case (Inr m)
      with Pair get_free_board_Inr [of w m w'] have "m \<in> {..<MAX_BOARDS} - boards_set w" by simp
      with Pair Inr show ?thesis by auto
    qed
  qed
next
  case (2 w n w')
  then have "get_free_board w = (Inr n, w')" by (auto split: prod.splits sum.splits)
  from get_free_board_Inr [OF this] show ?case by simp
next
  case (3 n w)
  show ?case by (rule boards_set_release)
qed

lemma free_board_exists:
  assumes "\<not> {..<MAX_BOARDS} \<subseteq> boards_set w"
  shows "\<exists>b w'. get_free_board w = (Inr b, w') \<and> b = (LEAST n. n \<notin> boards_set w)"
proof -
  from boards.alloc_total [OF assms] obtain b w' where
    alloc: "(case get_free_board w of (Inr n, w') \<Rightarrow> Some (n, w') | (Inl _, _) \<Rightarrow> None) = Some (b, w')" by blast
  then have "get_free_board w = (Inr b, w')" by (auto split: prod.splits sum.splits)
  with boards.alloc_first [OF alloc] show ?thesis by blast
qed

section \<open>The stages\<close>

interpretation module_stage: resource_stage
  "\<lambda>e s. Some (amc_pci_init e s)" "\<lambda>_. amc_pci_exit" id module_resources
proof (unfold_locales, goal_cases)
  case (1 e s a s')
  then show ?case
    by (cases e) (auto simp: module_resources_def Let_def split: sum.splits)
next
  case (2 e s err s')
  then show ?case
    by (cases e) (auto simp: module_resources_def Let_def split: sum.splits)
next
  case (3 e s)
  then show ?case by (auto simp: module_resources_def amc_pci_exit_def)
qed

interpretation pci_stage: resource_stage
  "\<lambda>env s. Some (enable_board env s)" "\<lambda>_. disable_board" id
  "{Res_Pci_Device, Res_Regions, Res_Master, Res_Msi}"
proof (unfold_locales, goal_cases)
  case (1 e s a s')
  then show ?case by (auto simp: enable_board_def Let_def split: sum.splits)
next
  case (2 e s err s')
  then show ?case by (auto simp: enable_board_def Let_def split: sum.splits)
next
  case (3 e s)
  then show ?case by (auto simp: disable_board_def)
qed

lemma initialise_dma_held:
  assumes "initialise_dma env prom s = Some (r, s')"
    and "snd s \<inter> {Res_Dma_Control, Res_Dma_Pages, Res_Dma_Mapping} = {}"
  shows "case r of
      Inl _ \<Rightarrow> snd s' = snd s \<and> prom_get_dma_nentries prom \<noteq> 0
    | Inr dma \<Rightarrow> snd s' = snd s \<union> dma_resources prom \<and> (dma = None \<longleftrightarrow> prom_get_dma_nentries prom = 0)"
proof (cases "prom_get_dma_nentries prom = 0")
  case True
  with assms(1) show ?thesis by (auto simp: initialise_dma_def dma_resources_def)
next
  case False
  with assms(1) obtain mask shift r1 where
    set_up: "initialise_dma_control (pe_platform env) (pe_dma_kernel env) mask shift s = Some (r1, s')"
    and r: "r = map_sum id Some r1"
    by (auto simp: initialise_dma_def simp del: initialise_dma_control.simps split: bind_splits)
  have "snd s' = (case r1 of Inl _ \<Rightarrow> snd s | Inr _ \<Rightarrow> snd s \<union> {Res_Dma_Control, Res_Dma_Pages, Res_Dma_Mapping})"
    using dma_stage.set_up_balanced [of "(pe_platform env, pe_dma_kernel env, mask, shift)" s r1 s'] set_up assms(2)
    by (simp del: initialise_dma_control.simps)
  with False r show ?thesis by (cases r1) (auto simp: dma_resources_def)
qed

lemma terminate_dma_held: "snd (terminate_dma prom s) = snd s - dma_resources prom"
  by (cases s) (auto simp: terminate_dma_def dma_resources_def)

lemma terminate_intc_held: "snd (terminate_interrupt_control s) = snd s - {Res_Intc, Res_Irq}"
  by (cases s) auto

lemma res_simps [simp]: "snd (take_res r s) = insert r (snd s)" "snd (release_res r s) = snd s - {r}"
  by (simp_all add: take_res_def release_res_def)

text \<open>What a board holds before and after it has been set up.\<close>

definition board_free :: "ledger \<Rightarrow> bool" where
  "board_free held \<longleftrightarrow> held \<inter> ({Res_Bar2, Res_Prom, Res_Dma_Control, Res_Dma_Pages, Res_Dma_Mapping,
     Res_Intc, Res_Irq, Res_Cdev, Res_Sysfs_Prom_Used, Res_Sysfs_Prom} \<union> range Res_Node) = {}"

definition set_up_resources :: "prom_context \<Rightarrow> ledger" where
  "set_up_resources prom = {Res_Bar2, Res_Prom, Res_Intc, Res_Irq} \<union> dma_resources prom"

lemma initialise_board_held:
  assumes "initialise_board env s = Some (r, s')" and "board_free (snd s)"
  shows "case r of
      Inl _ \<Rightarrow> snd s' = snd s \<or>
        snd s' = insert Res_Prom (snd s) \<and>
        (\<exists>prom e t. load_prom (pe_prom_kzalloc env) (pe_default_prom env) (pe_heap env) (pe_window env) = Inr prom \<and>
           prom_get_dma_nentries prom \<noteq> 0 \<and>
           initialise_dma env prom (take_res Res_Prom (take_res Res_Bar2 s)) = Some (Inl e, t))
    | Inr (prom, dma, intc) \<Rightarrow>
        snd s' = snd s \<union> set_up_resources prom \<and> prom_get_nentries prom \<le> MAX_MINORS_PER_BOARD \<and>
        load_prom (pe_prom_kzalloc env) (pe_default_prom env) (pe_heap env) (pe_window env) = Inr prom \<and>
        (dma = None \<longleftrightarrow> prom_get_dma_nentries prom = 0)"
proof (cases "\<not> pe_bar2_length env \<ge> BAR2_LENGTH \<or> (\<exists>e. test_ptr (pe_iomap env) = Inl e)")
  case True
  with assms(1) show ?thesis by (cases "test_ptr (pe_iomap env)") (auto simp: initialise_board_def split: if_splits)
next
  case False
  let ?s1 = "take_res Res_Bar2 s"
  obtain u where bar: "pe_bar2_length env \<ge> BAR2_LENGTH" "test_ptr (pe_iomap env) = Inr u"
    using False by (cases "test_ptr (pe_iomap env)") auto
  have free: "snd s \<inter> {Res_Bar2, Res_Prom, Res_Dma_Control, Res_Dma_Pages, Res_Dma_Mapping, Res_Intc, Res_Irq} = {}"
    using assms(2) by (auto simp: board_free_def)
  show ?thesis
  proof (cases "load_prom (pe_prom_kzalloc env) (pe_default_prom env) (pe_heap env) (pe_window env)")
    case (Inl e)
    with assms(1) bar free show ?thesis by (auto simp: initialise_board_def)
  next
    case load: (Inr prom)
    let ?s2 = "take_res Res_Prom ?s1"
    show ?thesis
    proof (cases "prom_get_nentries prom \<le> MAX_MINORS_PER_BOARD")
      case False
      with assms(1) bar load free show ?thesis by (auto simp: initialise_board_def)
    next
      case few: True
      obtain r1 s3 where dma: "initialise_dma env prom ?s2 = Some (r1, s3)"
        using assms(1) bar load few by (auto simp: initialise_board_def Let_def split: bind_splits)
      have held3: "case r1 of
          Inl _ \<Rightarrow> snd s3 = snd ?s2 \<and> prom_get_dma_nentries prom \<noteq> 0
        | Inr dma \<Rightarrow> snd s3 = snd ?s2 \<union> dma_resources prom \<and> (dma = None \<longleftrightarrow> prom_get_dma_nentries prom = 0)"
        using free by (intro initialise_dma_held [OF dma]) auto
      show ?thesis
      proof (cases r1)
        case (Inl e)
        with assms(1) bar load few dma have r: "r = Inl e" "s' = release_res Res_Bar2 s3"
          by (auto simp: initialise_board_def)
        moreover have "snd s' = insert Res_Prom (snd s)" using held3 Inl free r by auto
        ultimately show ?thesis using load dma held3 Inl by auto
      next
        case (Inr d)
        obtain r4 s4 where intc: "initialise_interrupt_control (pe_intc_kzalloc env) (pe_request_irq env) d s3 = (r4, s4)"
          by (metis surj_pair)
        have "snd s3 \<inter> {Res_Intc, Res_Irq} = {}" using held3 Inr free by (auto simp: dma_resources_def split: if_splits)
        then have held4: "snd s4 = (case r4 of Inl _ \<Rightarrow> snd s3 | Inr _ \<Rightarrow> snd s3 \<union> {Res_Intc, Res_Irq})"
          using intc_stage.set_up_balanced [of "(pe_intc_kzalloc env, pe_request_irq env, d)" s3 r4 s4] intc
          by simp
        show ?thesis
        proof (cases r4)
          case (Inl e)
          with assms(1) bar load few dma \<open>r1 = Inr d\<close> intc
          have r: "r = Inl e" "s' = release_res Res_Bar2 (release_res Res_Prom (terminate_dma prom s4))"
            by (auto simp: initialise_board_def)
          then have "snd s' = snd s"
            using held3 held4 Inl \<open>r1 = Inr d\<close> free by (auto simp: terminate_dma_held dma_resources_def split: if_splits)
          then show ?thesis using r by simp
        next
          case i: (Inr intc')
          with assms(1) bar load few dma \<open>r1 = Inr d\<close> intc have "r = Inr (prom, d, intc')" "s' = s4"
            by (auto simp: initialise_board_def)
          then show ?thesis
            using held3 held4 i \<open>r1 = Inr d\<close> load few by (auto simp: set_up_resources_def)
        qed
      qed
    qed
  qed
qed

section \<open>The specification of failing probes\<close>

text \<open>
  The steps of a probe in order, each with the error it ends the probe with, if it does, and with
  what the ledger then has that it had not before. The first step that fails decides. Most leave
  nothing. A failing DMA set-up leaves the copy of the PROM. Entries in the wrong order leave the
  nodes made before the offending entry. A failing sysfs file leaves all nodes, the character
  device and the sysfs file made before.
\<close>

fun first_failure :: "(errno option \<times> ledger) list \<Rightarrow> (errno \<times> ledger) option" where
  "first_failure [] = None"
| "first_failure ((None, _) # steps) = first_failure steps"
| "first_failure ((Some e, left) # _) = Some (e, left)"

definition error_of :: "'a res \<Rightarrow> errno option" where
  "error_of r = (case r of Inl e \<Rightarrow> Some e | Inr _ \<Rightarrow> None)"

definition fails_unless :: "bool \<Rightarrow> errno \<Rightarrow> errno option" where
  "fails_unless ok e = (if ok then None else Some e)"

text \<open>The lowest clear bit below four, or four. How many nodes are made until an entry is refused.\<close>

definition lowest_free :: "u64 \<Rightarrow> nat" where
  "lowest_free boards = length (takeWhile (bit boards) [0..<MAX_BOARDS])"

definition nodes_made :: "prom_context \<Rightarrow> nat" where
  "nodes_made c =
     (case minor_offsets c of
        [] \<Rightarrow> 0
      | p # ps \<Rightarrow>
          if entry_tag c p = PROM_DEVICE_TAG
          then Suc (length (takeWhile (\<lambda>q. entry_tag c q \<noteq> PROM_DEVICE_TAG) ps)) else 0)"

definition nodes_left :: "nat \<Rightarrow> prom_context \<Rightarrow> ledger" where
  "nodes_left board prom = (\<lambda>i. Res_Node (board * MAX_MINORS_PER_BOARD + i)) ` {..<nodes_made prom}"

text \<open>
  The steps before the PROM is known; and those after it, on the trace of the bus before the probe:
  setting up the board, and the nodes with sysfs.
\<close>

definition early_steps :: "probe_env \<Rightarrow> u64 \<Rightarrow> (errno option \<times> ledger) list" where
  "early_steps env boards =
     [(fails_unless (lowest_free boards < MAX_BOARDS) EIO, {}),
      (error_of (test_ptr (pe_kmalloc env)), {}),
      (error_of (pe_enable_device env), {}),
      (error_of (pe_request_regions env), {}),
      (error_of (pe_enable_msi env), {}),
      (fails_unless (BAR2_LENGTH \<le> pe_bar2_length env) EINVAL, {}),
      (error_of (test_ptr (pe_iomap env)), {})]"

definition dma_error :: "probe_env \<Rightarrow> prom_context \<Rightarrow> bus \<Rightarrow> errno option" where
  "dma_error env prom tr = (case initialise_dma env prom (tr, {}) of Some (r, _) \<Rightarrow> error_of r | None \<Rightarrow> None)"

definition set_up_steps :: "probe_env \<Rightarrow> prom_context \<Rightarrow> bus \<Rightarrow> (errno option \<times> ledger) list" where
  "set_up_steps env prom tr =
     [(fails_unless (prom_get_nentries prom \<le> MAX_MINORS_PER_BOARD) E2BIG, {}),
      (dma_error env prom tr, {Res_Prom}),
      (error_of (test_ptr (pe_intc_kzalloc env)), {}),
      (error_of (pe_request_irq env), {})]"

definition node_steps :: "probe_env \<Rightarrow> prom_context \<Rightarrow> nat \<Rightarrow> (errno option \<times> ledger) list" where
  "node_steps env prom board =
     [(fails_unless (minor_offsets prom \<noteq> []) EINVAL, {}),
      (error_of (pe_cdev_add env), {}),
      (fails_unless (device_first prom) EINVAL, nodes_left board prom),
      (error_of (pe_sysfs_prom_used env), insert Res_Cdev (nodes_left board prom)),
      (error_of (pe_sysfs_prom env), {Res_Cdev, Res_Sysfs_Prom_Used} \<union> nodes_left board prom)]"

text \<open>How a probe fails, and what it leaves; \<open>None\<close> if it succeeds.\<close>

definition probe_failure :: "probe_env \<Rightarrow> driver_state \<Rightarrow> (errno \<times> ledger) option" where
  "probe_failure env d =
     (case first_failure (early_steps env (ds_boards d)) of
        Some failure \<Rightarrow> Some failure
      | None \<Rightarrow>
          (case load_prom (pe_prom_kzalloc env) (pe_default_prom env) (pe_heap env) (pe_window env) of
             Inl e \<Rightarrow> Some (e, {})
           | Inr prom \<Rightarrow>
               first_failure (set_up_steps env prom (ds_bus d) @
                 node_steps env prom (lowest_free (ds_boards d)))))"

section \<open>Lemmas on probe\<close>

text \<open>The numbers of the nodes that the loop has made, however it ends.\<close>

lemma node_body_nodes:
  "case node_body priv p s of
     Inl s' \<Rightarrow> (s' = s \<or> nl_minor_off s' = Suc (nl_minor_off s) \<and>
       fst ` set (nl_nodes s') = insert (ap_minor priv + nl_minor_off s) (fst ` set (nl_nodes s)))
   | Inr (_, nodes) \<Rightarrow> nodes = nl_nodes s"
  by (auto simp: node_body_def Let_def add_node_def split: option.split)

lemma node_loop_numbers:
  "fst ` set (case for_list (node_body priv) ps s of Inl s' \<Rightarrow> nl_nodes s' | Inr (_, nodes) \<Rightarrow> nodes) \<subseteq>
     fst ` set (nl_nodes s) \<union> {ap_minor priv + nl_minor_off s ..< ap_minor priv + nl_minor_off s + length ps}"
proof (induction ps arbitrary: s)
  case (Cons p ps)
  show ?case
  proof (cases "node_body priv p s")
    case (Inl s')
    with node_body_nodes [where priv = priv and p = p and s = s]
    have "s' = s \<or> nl_minor_off s' = Suc (nl_minor_off s) \<and>
        fst ` set (nl_nodes s') = insert (ap_minor priv + nl_minor_off s) (fst ` set (nl_nodes s))" by simp
    then have "fst ` set (nl_nodes s') \<union> {ap_minor priv + nl_minor_off s' ..< ap_minor priv + nl_minor_off s' + length ps}
        \<subseteq> fst ` set (nl_nodes s) \<union> {ap_minor priv + nl_minor_off s ..< ap_minor priv + nl_minor_off s + length (p # ps)}"
      by (elim disjE conjE) auto
    with Cons.IH [of s'] show ?thesis by (simp only: for_list.simps Inl sum.case)
  next
    case (Inr x)
    with node_body_nodes [where priv = priv and p = p and s = s] show ?thesis by (cases x) auto
  qed
qed simp

lemma create_device_nodes_held:
  assumes "create_device_nodes cdev_add priv held = Some (r, nodes, held')"
    and "prom_valid (ap_prom priv)" and "Res_Cdev \<notin> held"
  shows "held' = held \<union> node_resources nodes \<union> (case r of Inr _ \<Rightarrow> {Res_Cdev} | Inl _ \<Rightarrow> {}) \<and>
    node_resources nodes \<subseteq> (\<lambda>i. Res_Node (ap_minor priv + i)) ` {..<prom_get_nentries (ap_prom priv)}"
proof -
  let ?s = "\<lparr>nl_minor_off = 0, nl_device_name = None, nl_nodes = []\<rparr>"
  let ?res = "for_list (node_body priv) (prom_offsets (ap_prom priv)) ?s"
  have cdev: "Res_Cdev \<notin> node_resources nodes'" for nodes' by (auto simp: node_resources_def)
  have "prom_get_nentries (ap_prom priv) = length (prom_offsets (ap_prom priv))"
    using assms(2) by (simp add: prom_valid_def prom_get_nentries_def)
  then have num: "fst ` set (case ?res of Inl s' \<Rightarrow> nl_nodes s' | Inr (_, nodes) \<Rightarrow> nodes) \<subseteq>
      {ap_minor priv ..< ap_minor priv + prom_get_nentries (ap_prom priv)}"
    using node_loop_numbers [of priv "prom_offsets (ap_prom priv)" ?s] by simp
  have img: "Res_Node ` {m ..< m + n} = (\<lambda>i. Res_Node (m + i)) ` {..<n}" for m n
  proof -
    have "{m ..< m + n} = (+) m ` {..<n}"
      using image_add_atLeastLessThan [of m 0 n] by (simp add: lessThan_atLeast0 add.commute)
    then show ?thesis by (simp add: image_image)
  qed
  have "nodes = [] \<or> nodes = (case ?res of Inl s' \<Rightarrow> nl_nodes s' | Inr (_, nodes) \<Rightarrow> nodes)"
    using assms(1)
    by (auto simp: create_device_nodes_def prom_for_each_entry_list [OF assms(2)] Let_def
        split: if_splits sum.splits option.splits)
  then have sub: "node_resources nodes \<subseteq> (\<lambda>i. Res_Node (ap_minor priv + i)) ` {..<prom_get_nentries (ap_prom priv)}"
    unfolding img [symmetric] using num by (auto simp: node_resources_def)
  have "held' = held \<union> node_resources nodes \<union> (case r of Inr _ \<Rightarrow> {Res_Cdev} | Inl _ \<Rightarrow> {})"
  proof (cases r)
    case (Inl e)
    then consider "nodes = []" "held' = held"
      | "held' = (insert Res_Cdev held \<union> node_resources nodes) - {Res_Cdev}"
      using assms(1)
      by (auto simp: create_device_nodes_def prom_for_each_entry_list [OF assms(2)] Let_def
          split: if_splits sum.splits option.splits)
    then show ?thesis using Inl assms(3) cdev [of nodes] by cases (auto simp: node_resources_def)
  next
    case (Inr u)
    then have "held' = insert Res_Cdev held \<union> node_resources nodes"
      using assms(1)
      by (auto simp: create_device_nodes_def prom_for_each_entry_list [OF assms(2)] Let_def
          split: if_splits sum.splits option.splits)
    then show ?thesis using Inr by auto
  qed
  with sub show ?thesis by blast
qed

text \<open>The loop over the entries, however it ends: how many nodes it has made, and whether it fails.\<close>

definition nodes_numbered :: "amc_pci \<Rightarrow> nat \<Rightarrow> (nat \<times> u8 list) list \<Rightarrow> bool" where
  "nodes_numbered priv n nodes \<longleftrightarrow> fst ` set nodes = {ap_minor priv ..< ap_minor priv + n}"

lemma nodes_numbered_add:
  "nodes_numbered priv (nl_minor_off s) (nl_nodes s) \<Longrightarrow>
     nodes_numbered priv (Suc (nl_minor_off s)) (nl_nodes (add_node priv d x s)) \<and>
     nl_minor_off (add_node priv d x s) = Suc (nl_minor_off s) \<and>
     nl_device_name (add_node priv d x s) = nl_device_name s"
  by (auto simp: nodes_numbered_def add_node_def)

lemma node_loop_after_device:
  fixes priv :: amc_pci
  assumes "nl_device_name s = Some d" and "nodes_numbered priv (nl_minor_off s) (nl_nodes s)"
  defines "is_device \<equiv> \<lambda>p. entry_tag (ap_prom priv) p = PROM_DEVICE_TAG"
    and "minors \<equiv> filter (\<lambda>p. prom_entry_needs_minor (entry_tag (ap_prom priv) p))"
  shows "case for_list (node_body priv) ps s of
      Inl s' \<Rightarrow> (\<forall>p \<in> set ps. \<not> is_device p) \<and>
        nodes_numbered priv (nl_minor_off s + length (takeWhile (\<lambda>p. \<not> is_device p) (minors ps))) (nl_nodes s')
    | Inr (Some e, nodes) \<Rightarrow> e = EINVAL \<and> (\<exists>p \<in> set ps. is_device p) \<and>
        nodes_numbered priv (nl_minor_off s + length (takeWhile (\<lambda>p. \<not> is_device p) (minors ps))) nodes
    | Inr (None, _) \<Rightarrow> True"
  using assms(1,2)
proof (induction ps arbitrary: s)
  case Nil
  then show ?case by (simp add: minors_def)
next
  case (Cons p ps)
  consider (device) "is_device p" | (skip) "\<not> prom_entry_needs_minor (entry_tag (ap_prom priv) p)"
    | (node) "\<not> is_device p" "prom_entry_needs_minor (entry_tag (ap_prom priv) p)" by blast
  then show ?case
  proof cases
    case device
    then show ?thesis using Cons.prems
      by (simp add: node_body_def Let_def is_device_def minors_def prom_entry_needs_minor_def)
  next
    case skip
    then have "\<not> is_device p" by (auto simp: is_device_def prom_entry_needs_minor_def)
    with skip Cons.IH [OF Cons.prems] show ?thesis
      by (auto simp: node_body_skip minors_def split: sum.splits option.splits)
  next
    case node
    consider x where "node_body priv p s = Inl (add_node priv d x s)" | "node_body priv p s = Inr (None, nl_nodes s)"
      using node Cons.prems(1)
      by (cases "cstr_at (prom_get_buffer (ap_prom priv)) (p + 13)";
          cases "cstr_at (prom_get_buffer (ap_prom priv)) (p + 19)")
        (auto simp: node_body_def Let_def is_device_def prom_entry_needs_minor_def)
    then show ?thesis
    proof cases
      case (1 x)
      note add = nodes_numbered_add [OF Cons.prems(2), of d x]
      from Cons.IH [of "add_node priv d x s"] add Cons.prems(1) 1 node show ?thesis
        by (auto simp: minors_def split: sum.splits option.splits)
    qed simp
  qed
qed

lemma node_loop_exact:
  fixes priv :: amc_pci
  assumes "nl_device_name s = None" and "nl_minor_off s = 0" and "nl_nodes s = []"
  defines "is_device \<equiv> \<lambda>p. entry_tag (ap_prom priv) p = PROM_DEVICE_TAG"
    and "minors \<equiv> filter (\<lambda>p. prom_entry_needs_minor (entry_tag (ap_prom priv) p))"
  defines "made \<equiv> \<lambda>ps. case minors ps of [] \<Rightarrow> 0
      | q # qs \<Rightarrow> if is_device q then Suc (length (takeWhile (\<lambda>p. \<not> is_device p) qs)) else 0"
    and "good \<equiv> \<lambda>ps. case minors ps of [] \<Rightarrow> True | q # qs \<Rightarrow> is_device q \<and> (\<forall>p \<in> set qs. \<not> is_device p)"
  shows "case for_list (node_body priv) ps s of
      Inl s' \<Rightarrow> good ps \<and> nodes_numbered priv (made ps) (nl_nodes s')
    | Inr (Some e, nodes) \<Rightarrow> e = EINVAL \<and> \<not> good ps \<and> nodes_numbered priv (made ps) nodes
    | Inr (None, _) \<Rightarrow> True"
proof (induction ps)
  case Nil
  then show ?case using assms(3) by (simp add: good_def made_def minors_def nodes_numbered_def)
next
  case (Cons p ps)
  consider (device) "is_device p" | (skip) "\<not> prom_entry_needs_minor (entry_tag (ap_prom priv) p)"
    | (dma) "\<not> is_device p" "prom_entry_needs_minor (entry_tag (ap_prom priv) p)" by blast
  then show ?case
  proof cases
    case device
    have needs: "prom_entry_needs_minor (entry_tag (ap_prom priv) p)"
      using device by (simp add: is_device_def prom_entry_needs_minor_def)
    have minor: "(\<forall>q \<in> set (minors ps). \<not> is_device q) \<longleftrightarrow> (\<forall>q \<in> set ps. \<not> is_device q)"
      by (auto simp: minors_def is_device_def prom_entry_needs_minor_def)
    consider x where "node_body priv p s = Inl (add_node priv x reg_suffix (s\<lparr>nl_device_name := Some x\<rparr>))"
      | "node_body priv p s = Inr (None, [])"
      using device assms(1,3)
      by (cases "cstr_at (prom_get_buffer (ap_prom priv)) (p + 2)") (auto simp: node_body_def Let_def is_device_def)
    then show ?thesis
    proof cases
      case (1 x)
      let ?s = "add_node priv x reg_suffix (s\<lparr>nl_device_name := Some x\<rparr>)"
      have "nl_device_name ?s = Some x" "nl_minor_off ?s = Suc 0" "nodes_numbered priv (nl_minor_off ?s) (nl_nodes ?s)"
        using assms(2,3) by (auto simp: add_node_def nodes_numbered_def)
      note rest = node_loop_after_device [OF this(1,3), of ps, folded minors_def, unfolded this(2)]
      have "minors (p # ps) = p # minors ps" using needs by (simp add: minors_def)
      with rest 1 device minor show ?thesis
        by (auto simp: good_def made_def is_device_def split: sum.splits option.splits)
    qed simp
  next
    case skip
    then have "good (p # ps) = good ps" "made (p # ps) = made ps" by (simp_all add: good_def made_def minors_def)
    with skip Cons.IH show ?thesis by (auto simp: node_body_skip split: sum.splits option.splits)
  next
    case dma
    then have "node_body priv p s = Inr (Some EINVAL, [])"
      using assms(1,3) by (auto simp: node_body_def Let_def is_device_def prom_entry_needs_minor_def)
    with dma show ?thesis by (simp add: good_def made_def minors_def nodes_numbered_def)
  qed
qed

lemma create_device_nodes_exact:
  assumes "create_device_nodes cdev_add priv held = Some (r, nodes, held')" and "prom_valid (ap_prom priv)"
  shows "if minor_offsets (ap_prom priv) = [] then r = Inl EINVAL \<and> nodes = []
    else case cdev_add of
      Inl e \<Rightarrow> r = Inl e \<and> nodes = []
    | Inr _ \<Rightarrow>
        r = (if device_first (ap_prom priv) then Inr () else Inl EINVAL) \<and>
        node_resources nodes = (\<lambda>i. Res_Node (ap_minor priv + i)) ` {..<nodes_made (ap_prom priv)}"
proof -
  let ?c = "ap_prom priv" and ?s = "\<lparr>nl_minor_off = 0, nl_device_name = None, nl_nodes = []\<rparr>"
  have n: "prom_get_nentries_with_minor ?c = length (minor_offsets ?c)"
    using assms(2) by (simp add: prom_valid_def prom_get_nentries_with_minor_def)
  have res: "node_resources nodes = (\<lambda>i. Res_Node (ap_minor priv + i)) ` {..<k}" if "nodes_numbered priv k nodes" for k nodes
  proof -
    have "{ap_minor priv ..< ap_minor priv + k} = (+) (ap_minor priv) ` {..<k}"
      using image_add_atLeastLessThan [of "ap_minor priv" 0 k] by (simp add: lessThan_atLeast0 add.commute)
    with that show ?thesis by (simp add: nodes_numbered_def node_resources_def image_image)
  qed
  have good: "(case minor_offsets ?c of [] \<Rightarrow> True
      | q # qs \<Rightarrow> entry_tag ?c q = PROM_DEVICE_TAG \<and> (\<forall>p \<in> set qs. entry_tag ?c p \<noteq> PROM_DEVICE_TAG)) \<longleftrightarrow>
      device_first ?c \<or> minor_offsets ?c = []"
    by (simp add: device_first_def split: list.split)
  note loop = node_loop_exact [of ?s priv "prom_offsets ?c", folded minor_offsets_def,
      folded nodes_made_def, unfolded good, simplified]
  show ?thesis
    using assms(1) loop res
    by (cases "minor_offsets ?c = []"; cases cdev_add)
      (auto simp: create_device_nodes_def prom_for_each_entry_list [OF assms(2)] Let_def n
        split: if_splits sum.splits option.splits)
qed

lemma probe_ok_parts:
  assumes "amc_pci_probe env d = Some (Inr priv, d')"
  obtains board boards held1 parts s2 nodes held3 where
    "get_free_board (ds_boards d) = (Inr board, boards)"
    "enable_board env (insert Res_Priv (ds_held d)) = (Inr (), held1)"
    "initialise_board env (ds_bus d, held1) = Some (Inr parts, s2)"
    "priv = new_amc_pci env board parts"
    "create_device_nodes (pe_cdev_add env) priv (snd s2) = Some (Inr (), nodes, held3)"
    "d' = \<lparr>ds_boards = boards, ds_bus = fst s2,
       ds_held = insert Res_Sysfs_Prom (insert Res_Sysfs_Prom_Used held3)\<rparr>"
  using assms
  by (auto simp: amc_pci_probe_def Let_def take_res_def split: prod.splits sum.splits bind_splits)

lemma load_prom_new: "new_amc_pci env board (prom, dma, intc) = priv \<Longrightarrow> ap_prom priv = prom"
  by (auto simp: new_amc_pci_def)

lemma new_amc_pci_simps [simp]:
  "ap_board (new_amc_pci env board parts) = board"
  "ap_minor (new_amc_pci env board parts) = board * MAX_MINORS_PER_BOARD"
  "ap_prom (new_amc_pci env board parts) = fst parts"
  "ap_dma (new_amc_pci env board parts) = fst (snd parts)"
  "rb_refs (ap_reg (new_amc_pci env board parts)) = new_refs"
  by (simp_all add: new_amc_pci_def split_beta)

text \<open>What is held when a board starts to be set up, and when its nodes have been made.\<close>

lemma probe_enabled:
  assumes "enable_board env (insert Res_Priv (ds_held d)) = (Inr (), held1)" and "ds_held d \<subseteq> module_resources"
  shows "held1 = insert Res_Priv (ds_held d) \<union> {Res_Pci_Device, Res_Regions, Res_Master, Res_Msi}" "board_free held1"
proof -
  show held1: "held1 = insert Res_Priv (ds_held d) \<union> {Res_Pci_Device, Res_Regions, Res_Master, Res_Msi}"
    using pci_stage.set_up_ok [of env "insert Res_Priv (ds_held d)" "()" held1] assms
    by (auto simp: module_resources_def)
  show "board_free held1" using assms(2) by (auto simp: held1 board_free_def module_resources_def)
qed

lemma probe_noded:
  assumes "initialise_board env (bus, held1) = Some (Inr parts, s2)" and "board_free held1"
    and "create_device_nodes (pe_cdev_add env) (new_amc_pci env board parts) (snd s2) = Some (r, nodes, held3)"
    and "length (pe_default_prom env) \<le> PROM_MAX_LENGTH"
  shows "held3 = held1 \<union> set_up_resources (fst parts) \<union> node_resources nodes \<union>
      (case r of Inr _ \<Rightarrow> {Res_Cdev} | Inl _ \<Rightarrow> {})"
    "node_resources nodes \<subseteq>
      (\<lambda>i. Res_Node (board * MAX_MINORS_PER_BOARD + i)) ` {..<prom_get_nentries (fst parts)}"
    "prom_get_nentries (fst parts) \<le> MAX_MINORS_PER_BOARD" "prom_valid (fst parts)"
    "fst (snd parts) = None \<longleftrightarrow> prom_get_dma_nentries (fst parts) = 0"
proof -
  obtain prom dma intc where parts: "parts = (prom, dma, intc)" by (metis prod_cases3)
  have i: "snd s2 = held1 \<union> set_up_resources prom" "prom_get_nentries prom \<le> MAX_MINORS_PER_BOARD"
    "load_prom (pe_prom_kzalloc env) (pe_default_prom env) (pe_heap env) (pe_window env) = Inr prom"
    "dma = None \<longleftrightarrow> prom_get_dma_nentries prom = 0"
    using initialise_board_held [OF assms(1)] assms(2) parts by simp_all
  have valid: "prom_valid prom" by (rule load_prom_valid [OF assms(4) i(3)])
  have "Res_Cdev \<notin> snd s2"
    using assms(2) by (auto simp: i(1) set_up_resources_def dma_resources_def board_free_def split: if_splits)
  from create_device_nodes_held [OF assms(3) _ this] valid i parts
  show "held3 = held1 \<union> set_up_resources (fst parts) \<union> node_resources nodes \<union>
      (case r of Inr _ \<Rightarrow> {Res_Cdev} | Inl _ \<Rightarrow> {})"
    "node_resources nodes \<subseteq>
      (\<lambda>i. Res_Node (board * MAX_MINORS_PER_BOARD + i)) ` {..<prom_get_nentries (fst parts)}"
    "prom_get_nentries (fst parts) \<le> MAX_MINORS_PER_BOARD" "prom_valid (fst parts)"
    "fst (snd parts) = None \<longleftrightarrow> prom_get_dma_nentries (fst parts) = 0"
    by simp_all
qed

text \<open>
  What holds after a successful probe: the resources, the numbers, the PROM and the references.
\<close>

lemma probe_ok:
  assumes "amc_pci_probe env d = Some (Inr priv, d')" and "ds_held d \<subseteq> module_resources"
    and "length (pe_default_prom env) \<le> PROM_MAX_LENGTH"
  shows "\<exists>nodes. ds_held d' = ds_held d \<union> board_resources priv \<union> node_resources nodes \<and>
    node_resources nodes \<subseteq> (\<lambda>i. Res_Node (ap_minor priv + i)) ` {..<prom_get_nentries (ap_prom priv)} \<and>
    ap_board priv < MAX_BOARDS \<and> ap_board priv \<notin> boards_set (ds_boards d) \<and>
    boards_set (ds_boards d') = insert (ap_board priv) (boards_set (ds_boards d)) \<and>
    ap_minor priv = ap_board priv * MAX_MINORS_PER_BOARD \<and>
    prom_get_nentries (ap_prom priv) \<le> MAX_MINORS_PER_BOARD \<and>
    prom_valid (ap_prom priv) \<and> rb_refs (ap_reg priv) = new_refs \<and>
    (ap_dma priv = None \<longleftrightarrow> prom_get_dma_nentries (ap_prom priv) = 0)"
  using assms(1)
proof (rule probe_ok_parts)
  fix board boards held1 parts s2 nodes held3
  assume board: "get_free_board (ds_boards d) = (Inr board, boards)"
    and pci: "enable_board env (insert Res_Priv (ds_held d)) = (Inr (), held1)"
    and init: "initialise_board env (ds_bus d, held1) = Some (Inr parts, s2)"
    and priv: "priv = new_amc_pci env board parts"
    and nodes: "create_device_nodes (pe_cdev_add env) priv (snd s2) = Some (Inr (), nodes, held3)"
    and d': "d' = \<lparr>ds_boards = boards, ds_bus = fst s2,
       ds_held = insert Res_Sysfs_Prom (insert Res_Sysfs_Prom_Used held3)\<rparr>"
  note enabled = probe_enabled [OF pci assms(2)]
  note noded = probe_noded [OF init enabled(2) nodes [unfolded priv] assms(3)]
  have "ds_held d' = ds_held d \<union> board_resources priv \<union> node_resources nodes"
    by (auto simp: d' noded(1) enabled(1) board_resources_def set_up_resources_def priv)
  with noded(2-5) get_free_board_Inr [OF board] show ?thesis
    by (intro exI [of _ nodes]) (auto simp: d' priv)
qed

lemma wait_for_no_clients: "\<exists>refs. wait_for_clients 0 new_refs = Some refs"
  by (simp add: wait_for_clients_def drop_own_ref_eq amc_pci_release_eq new_refs_def wait_for_completion_def)

lemma terminate_board_held:
  "snd (terminate_board priv s) = snd s - {Res_Bar2, Res_Prom, Res_Intc, Res_Irq} - dma_resources (ap_prom priv)"
  by (auto simp: terminate_board_def terminate_dma_held terminate_intc_held)

text \<open>The ways in which a probe fails, with the state each error exit starts from.\<close>

lemma probe_fail_parts:
  assumes "amc_pci_probe env d = Some (Inl e, d')"
  obtains (board) boards where
    "get_free_board (ds_boards d) = (Inl e, boards)" "d' = d\<lparr>ds_boards := boards\<rparr>"
  | (memory) board boards where
    "get_free_board (ds_boards d) = (Inr board, boards)" "d' = no_memory board boards (ds_bus d, ds_held d)"
    "test_ptr (pe_kmalloc env) = Inl e"
  | (pci) board boards held1 where
    "get_free_board (ds_boards d) = (Inr board, boards)"
    "enable_board env (insert Res_Priv (ds_held d)) = (Inl e, held1)"
    "d' = no_enable board boards (ds_bus d, held1)"
    "pe_kmalloc env = Ptr ()"
  | (initialise) board boards held1 s2 where
    "get_free_board (ds_boards d) = (Inr board, boards)"
    "enable_board env (insert Res_Priv (ds_held d)) = (Inr (), held1)"
    "initialise_board env (ds_bus d, held1) = Some (Inl e, s2)"
    "d' = no_initialise board boards s2"
    "pe_kmalloc env = Ptr ()"
  | (nodes) board boards held1 parts s2 nodes held3 where
    "get_free_board (ds_boards d) = (Inr board, boards)"
    "enable_board env (insert Res_Priv (ds_held d)) = (Inr (), held1)"
    "initialise_board env (ds_bus d, held1) = Some (Inr parts, s2)"
    "create_device_nodes (pe_cdev_add env) (new_amc_pci env board parts) (snd s2) = Some (Inl e, nodes, held3)"
    "d' = no_cdev (new_amc_pci env board parts) board boards (fst s2, held3)"
    "pe_kmalloc env = Ptr ()"
  | (sysfs) board boards held1 parts s2 nodes held3 held4 where
    "get_free_board (ds_boards d) = (Inr board, boards)"
    "enable_board env (insert Res_Priv (ds_held d)) = (Inr (), held1)"
    "initialise_board env (ds_bus d, held1) = Some (Inr parts, s2)"
    "create_device_nodes (pe_cdev_add env) (new_amc_pci env board parts) (snd s2) = Some (Inr (), nodes, held3)"
    "held4 = held3 \<and> pe_sysfs_prom_used env = Inl e \<or>
     held4 = insert Res_Sysfs_Prom_Used held3 \<and> pe_sysfs_prom_used env = Inr () \<and> pe_sysfs_prom env = Inl e"
    "d' = no_cdev (new_amc_pci env board parts) board boards (fst s2, held4)"
    "pe_kmalloc env = Ptr ()"
proof (cases "get_free_board (ds_boards d)")
  case (Pair rb boards)
  show thesis
  proof (cases rb)
    case (Inl e')
    with Pair assms show thesis by (intro board [of boards]) (simp_all add: amc_pci_probe_def)
  next
    case (Inr b)
    note free = Pair [unfolded Inr]
    show thesis
    proof (cases "test_ptr (pe_kmalloc env)")
      case (Inl e')
      with free assms show thesis by (intro memory [OF free]) (simp_all add: amc_pci_probe_def)
    next
      case mem: (Inr u)
      obtain rp held1 where pci1: "enable_board env (insert Res_Priv (ds_held d)) = (rp, held1)" by fastforce
      show thesis
      proof (cases rp)
        case (Inl e')
        with free mem pci1 assms show thesis
          by (intro pci [OF free, of held1]) (simp_all add: amc_pci_probe_def Let_def take_res_def)
      next
        case (Inr u')
        note pci2 = pci1 [unfolded Inr, simplified]
        obtain ri s2 where init: "initialise_board env (ds_bus d, held1) = Some (ri, s2)"
          using free mem pci2 assms
          by (auto simp: amc_pci_probe_def Let_def take_res_def split: bind_splits)
        show thesis
        proof (cases ri)
          case (Inl e')
          with free mem pci2 init assms show thesis
            by (intro initialise [OF free, of held1 s2]) (simp_all add: amc_pci_probe_def Let_def take_res_def)
        next
          case (Inr parts)
          note init2 = init [unfolded Inr]
          obtain rn ns held3 where cn: "create_device_nodes (pe_cdev_add env) (new_amc_pci env b parts) (snd s2) = Some (rn, ns, held3)"
            using free mem pci2 init2 assms
            by (auto simp: amc_pci_probe_def Let_def take_res_def split: bind_splits)
          show thesis
          proof (cases rn)
            case (Inl e')
            with free mem pci2 init2 cn assms show thesis
              by (intro nodes [OF free pci2 init2, of ns held3]) (simp_all add: amc_pci_probe_def Let_def take_res_def)
          next
            case (Inr u'')
            with free mem pci2 init2 cn assms show thesis
              by (intro sysfs [OF free pci2 init2, of ns held3
                    "if pe_sysfs_prom_used env = Inl e then held3 else insert Res_Sysfs_Prom_Used held3"])
                (auto simp: amc_pci_probe_def Let_def take_res_def split: sum.splits)
          qed
        qed
      qed
    qed
  qed
qed

lemma probe_ok_grants:
  "amc_pci_probe env d = Some (Inr priv, d') \<Longrightarrow>
     pe_kmalloc env = Ptr () \<and> pe_sysfs_prom_used env = Inr () \<and> pe_sysfs_prom env = Inr ()"
  by (auto simp: amc_pci_probe_def Let_def split: prod.splits sum.splits bind_splits)

text \<open>What the error exits give back.\<close>

lemma exit_simps [simp]:
  "ds_boards (no_memory b w s) = release_board b w" "ds_held (no_memory b w s) = snd s"
  "ds_boards (no_enable b w s) = release_board b w" "ds_held (no_enable b w s) = snd s - {Res_Priv}"
  "ds_boards (no_initialise b w s) = release_board b w"
  "ds_held (no_initialise b w s) = disable_board (snd s) - {Res_Priv}"
  "ds_boards (no_cdev p b w s) = release_board b w"
  "ds_held (no_cdev p b w s) = disable_board (snd (terminate_board p s)) - {Res_Priv}"
  by (simp_all add: no_memory_def no_enable_def no_initialise_def no_cdev_def)

lemma no_cdev_held:
  assumes "ds_held d \<subseteq> module_resources"
    and "held1 = insert Res_Priv (ds_held d) \<union> {Res_Pci_Device, Res_Regions, Res_Master, Res_Msi}"
    and "extra \<subseteq> {Res_Cdev, Res_Sysfs_Prom_Used}"
  shows "ds_held (no_cdev (new_amc_pci env board parts) b w
      (bus, held1 \<union> set_up_resources (fst parts) \<union> node_resources nodes \<union> extra)) =
    extra \<union> ds_held d \<union> node_resources nodes"
proof -
  have "node_resources nodes \<subseteq> range Res_Node" by (auto simp: node_resources_def)
  with assms show ?thesis
    by (auto simp: terminate_board_held disable_board_def set_up_resources_def module_resources_def dma_resources_def
        split: if_splits)
qed

section \<open>Lemmas on failing probes\<close>

lemma first_failure_append:
  "first_failure (steps @ rest) =
     (case first_failure steps of None \<Rightarrow> first_failure rest | Some failure \<Rightarrow> Some failure)"
  by (induction steps rule: first_failure.induct) simp_all

lemma error_of_simps [simp]: "error_of (Inl e) = Some e" "error_of (Inr a) = None" "error_of r = None \<longleftrightarrow> (\<exists>a. r = Inr a)"
  by (auto simp: error_of_def split: sum.splits)

lemma fails_unless_simps [simp]: "fails_unless True e = None" "fails_unless False e = Some e"
  by (simp_all add: fails_unless_def)

lemma lowest_free_board:
  "get_free_board w = (Inr b, w') \<Longrightarrow> lowest_free w = b \<and> b < MAX_BOARDS"
  "get_free_board w = (Inl e, w') \<Longrightarrow> lowest_free w = MAX_BOARDS"
proof -
  assume "get_free_board w = (Inr b, w')"
  from get_free_board_Inr [OF this] have b: "b < MAX_BOARDS" "\<not> bit w b" "\<forall>i < b. bit w i"
    by (auto simp: boards_set_def)
  moreover from this(1) have "b = 0 \<or> b = 1 \<or> b = 2 \<or> b = 3" by auto
  ultimately show "lowest_free w = b \<and> b < MAX_BOARDS"
    by (elim disjE) (simp_all add: lowest_free_def upt_rec numeral_2_eq_2 numeral_3_eq_3)
next
  assume "get_free_board w = (Inl e, w')"
  from get_free_board_Inl [OF this] have "\<forall>i \<in> set [0..<MAX_BOARDS]. bit w i" by (auto simp: boards_set_def)
  then have "takeWhile (bit w) [0..<MAX_BOARDS] = [0..<MAX_BOARDS]" by (subst takeWhile_eq_all_conv) blast
  then show "lowest_free w = MAX_BOARDS" by (simp only: lowest_free_def length_upt)
qed

text \<open>The outcome of the DMA set-up does not depend on the ledger.\<close>

lemma initialise_dma_control_ledger:
  "map_option fst (initialise_dma_control pf k m shift (tr, held)) =
   map_option fst (initialise_dma_control pf k m shift (tr, held'))"
  by (cases "reset_dma_controller pf (tr @ [MapSingle DMA_BIDIRECTIONAL])")
    (auto simp: Let_def split: sum.splits option.splits)

lemma initialise_dma_error:
  assumes "initialise_dma env prom s = Some (r, s')"
  shows "dma_error env prom (fst s) = error_of r"
proof -
  have fst_bind: "map_option fst (do { (r, s) \<leftarrow> x; Some (map_sum id Some r, s) }) =
      map_option (map_sum id Some) (map_option fst x)" for x :: "(('e + 'a) \<times> 's) option"
    by (cases x) auto
  have "map_option fst (initialise_dma env prom s) = map_option fst (initialise_dma env prom (fst s, {}))"
    using initialise_dma_control_ledger [of _ _ _ _ "fst s" "snd s" "{}"]
    by (cases "dma_param prom PROM_DMA_MASK_TAG DMA_DEFAULT_MASK";
        cases "dma_param prom PROM_DMA_ALIGN_TAG DMA_DEFAULT_ALIGNMENT_SHIFT")
      (simp_all add: initialise_dma_def fst_bind del: initialise_dma_control.simps)
  with assms show ?thesis by (auto simp: dma_error_def split: option.splits)
qed

text \<open>The stages of a probe against the specification.\<close>

lemma enable_board_exact:
  "first_failure [(error_of (pe_enable_device env), {}), (error_of (pe_request_regions env), {}),
       (error_of (pe_enable_msi env), {})] =
     (case fst (enable_board env held) of Inl e \<Rightarrow> Some (e, {}) | Inr _ \<Rightarrow> None)"
  by (cases "pe_enable_device env"; cases "pe_request_regions env"; cases "pe_enable_msi env")
    (auto simp: enable_board_def Let_def)

lemma first_failure_early:
  assumes "enable_board env held = (r, held')" and "lowest_free boards < MAX_BOARDS" and "pe_kmalloc env = Ptr ()"
  shows "first_failure (early_steps env boards) =
    (case r of
       Inl e \<Rightarrow> Some (e, {})
     | Inr _ \<Rightarrow> first_failure [(fails_unless (BAR2_LENGTH \<le> pe_bar2_length env) EINVAL, {}),
         (error_of (test_ptr (pe_iomap env)), {})])"
proof -
  have "early_steps env boards = [(fails_unless (lowest_free boards < MAX_BOARDS) EIO, {}),
      (error_of (test_ptr (pe_kmalloc env)), {})] @
    [(error_of (pe_enable_device env), {}), (error_of (pe_request_regions env), {}), (error_of (pe_enable_msi env), {})] @
    [(fails_unless (BAR2_LENGTH \<le> pe_bar2_length env) EINVAL, {}), (error_of (test_ptr (pe_iomap env)), {})]"
    by (simp add: early_steps_def)
  then show ?thesis
    using assms(2,3) enable_board_exact [of env held] assms(1)
    by (simp only: first_failure_append) (cases r; simp)
qed

lemma initialise_board_exact:
  assumes "initialise_board env s = Some (r, s')" and "board_free (snd s)"
  shows "(case first_failure [(fails_unless (BAR2_LENGTH \<le> pe_bar2_length env) EINVAL, {}),
        (error_of (test_ptr (pe_iomap env)), {})] of
      Some failure \<Rightarrow> Some failure
    | None \<Rightarrow>
        (case load_prom (pe_prom_kzalloc env) (pe_default_prom env) (pe_heap env) (pe_window env) of
           Inl e \<Rightarrow> Some (e, {})
         | Inr prom \<Rightarrow> first_failure (set_up_steps env prom (fst s)))) =
    (case r of Inl e \<Rightarrow> Some (e, snd s' - snd s) | Inr _ \<Rightarrow> None)"
proof (cases "pe_bar2_length env \<ge> BAR2_LENGTH \<and> pe_iomap env = Ptr ()")
  case False
  with assms(1) show ?thesis
    by (cases "test_ptr (pe_iomap env)") (auto simp: initialise_board_def split: if_splits)
next
  case bar: True
  show ?thesis
  proof (cases "load_prom (pe_prom_kzalloc env) (pe_default_prom env) (pe_heap env) (pe_window env)")
    case (Inl e)
    with assms bar show ?thesis by (auto simp: initialise_board_def)
  next
    case load: (Inr prom)
    let ?s2 = "take_res Res_Prom (take_res Res_Bar2 s)"
    show ?thesis
    proof (cases "prom_get_nentries prom \<le> MAX_MINORS_PER_BOARD")
      case False
      with assms bar load show ?thesis by (auto simp: initialise_board_def set_up_steps_def)
    next
      case few: True
      obtain r1 s3 where dma: "initialise_dma env prom ?s2 = Some (r1, s3)"
        using assms(1) bar load few by (auto simp: initialise_board_def Let_def split: bind_splits)
      have err: "dma_error env prom (fst s) = error_of r1"
        using initialise_dma_error [OF dma] by (simp add: take_res_def)
      show ?thesis
      proof (cases r1)
        case (Inl e)
        have free: "snd ?s2 \<inter> {Res_Dma_Control, Res_Dma_Pages, Res_Dma_Mapping} = {}"
          "Res_Prom \<notin> snd s" "Res_Bar2 \<notin> snd s"
          using assms(2) by (auto simp: board_free_def)
        from assms(1) bar load few dma Inl have r: "r = Inl e" "s' = release_res Res_Bar2 s3"
          by (auto simp: initialise_board_def)
        have "snd s' = insert Res_Prom (snd s)"
          using initialise_dma_held [OF dma free(1)] Inl free(2,3) r(2) by auto
        then have "snd s' - snd s = {Res_Prom}" using free(2) by auto
        then show ?thesis using bar load few err Inl r(1) by (simp add: set_up_steps_def)
      next
        case (Inr d)
        obtain r4 s4 where intc: "initialise_interrupt_control (pe_intc_kzalloc env) (pe_request_irq env) d s3 = (r4, s4)"
          by (metis surj_pair)
        have unsuccessful: "snd s' = snd s" if "r = Inl e" for e
        proof -
          have "\<nexists>e t. initialise_dma env prom ?s2 = Some (Inl e, t)" using dma Inr by simp
          with initialise_board_held [OF assms] load that show ?thesis by (simp del: split_paired_Ex)
        qed
        have r4: "first_failure [(error_of (test_ptr (pe_intc_kzalloc env)), {}), (error_of (pe_request_irq env), {})] =
            (case r4 of Inl e \<Rightarrow> Some (e, {}) | Inr _ \<Rightarrow> None)"
          using intc by (cases s3) (auto simp: Let_def split: sum.splits)
        have "r = (case r4 of Inl e \<Rightarrow> Inl e | Inr i \<Rightarrow> Inr (prom, d, i))"
          using assms(1) bar load few dma Inr intc by (auto simp: initialise_board_def split: sum.splits)
        then show ?thesis
          using bar load few err Inr r4 unsuccessful by (cases r4) (simp_all add: set_up_steps_def)
      qed
    qed
  qed
qed

text \<open>What the specification says once the board number and the PCI device have been granted.\<close>

lemma probe_failure_stages:
  assumes "get_free_board (ds_boards d) = (Inr b, w)" and "pe_kmalloc env = Ptr ()"
    and "enable_board env held = (Inr (), held1)"
    and "initialise_board env (ds_bus d, held1) = Some (r, s2)" and "board_free held1"
  shows "probe_failure env d =
    (case r of Inl e \<Rightarrow> Some (e, snd s2 - held1) | Inr parts \<Rightarrow> first_failure (node_steps env (fst parts) b))"
proof -
  let ?bar = "first_failure [(fails_unless (BAR2_LENGTH \<le> pe_bar2_length env) EINVAL, {}),
    (error_of (test_ptr (pe_iomap env)), {})]"
  let ?load = "load_prom (pe_prom_kzalloc env) (pe_default_prom env) (pe_heap env) (pe_window env)"
  have b: "lowest_free (ds_boards d) = b" "b < MAX_BOARDS" using lowest_free_board(1) [OF assms(1)] by simp_all
  have early: "first_failure (early_steps env (ds_boards d)) = ?bar"
    using first_failure_early [OF assms(3) _ assms(2), of "ds_boards d"] b by simp
  have exact: "(case ?bar of Some failure \<Rightarrow> Some failure
    | None \<Rightarrow> (case ?load of Inl e \<Rightarrow> Some (e, {})
         | Inr prom \<Rightarrow> first_failure (set_up_steps env prom (ds_bus d)))) =
    (case r of Inl e \<Rightarrow> Some (e, snd s2 - held1) | Inr _ \<Rightarrow> None)"
    using initialise_board_exact [OF assms(4), unfolded fst_conv snd_conv, OF assms(5)] .
  have load: "?load = Inr (fst parts)" if "r = Inr parts" for parts
    using initialise_board_held [OF assms(4)] assms(5) that by (cases parts) simp
  show ?thesis
    using exact load by (auto simp: probe_failure_def early b(1) first_failure_append
        split: option.splits sum.splits)
qed

lemma probe_fail_nodes:
  assumes "initialise_board env (bus, held1) = Some (Inr parts, s2)" and "board_free held1"
    and "create_device_nodes (pe_cdev_add env) (new_amc_pci env b parts) (snd s2) = Some (r, nodes, held3)"
    and "length (pe_default_prom env) \<le> PROM_MAX_LENGTH"
  shows "case r of
      Inl e \<Rightarrow> first_failure (node_steps env (fst parts) b) = Some (e, node_resources nodes)
    | Inr _ \<Rightarrow> node_resources nodes = nodes_left b (fst parts) \<and>
        first_failure (node_steps env (fst parts) b) =
          first_failure [(error_of (pe_sysfs_prom_used env), insert Res_Cdev (nodes_left b (fst parts))),
            (error_of (pe_sysfs_prom env), {Res_Cdev, Res_Sysfs_Prom_Used} \<union> nodes_left b (fst parts))]"
proof -
  have "node_resources [] = {}" by (simp add: node_resources_def)
  moreover have "prom_valid (ap_prom (new_amc_pci env b parts))" using probe_noded(4) [OF assms] by simp
  note create_device_nodes_exact [OF assms(3) this]
  ultimately show ?thesis
    by (cases "minor_offsets (fst parts) = []"; cases "pe_cdev_add env"; cases "device_first (fst parts)")
      (simp_all add: node_steps_def nodes_left_def)
qed

lemma probe_fail_exact:
  assumes "amc_pci_probe env d = Some (Inl e, d')" and "ds_held d \<subseteq> module_resources"
    and "length (pe_default_prom env) \<le> PROM_MAX_LENGTH"
  shows "\<exists>left. probe_failure env d = Some (e, left) \<and> ds_held d' = ds_held d \<union> left \<and>
    boards_set (ds_boards d') = boards_set (ds_boards d)"
  using assms(1)
proof (cases rule: probe_fail_parts)
  case (board w)
  from get_free_board_Inl [OF board(1)] lowest_free_board(2) [OF board(1)] board(2) show ?thesis
    by (simp add: probe_failure_def early_steps_def)
next
  case (memory b w)
  from get_free_board_Inr [OF memory(1)] lowest_free_board(1) [OF memory(1)] memory(2,3) show ?thesis
    by (auto simp: probe_failure_def early_steps_def boards_set_release)
next
  case (pci b w held1)
  have "held1 = insert Res_Priv (ds_held d)"
    using pci_stage.set_up_fail [of env "insert Res_Priv (ds_held d)" e held1] pci(2) assms(2)
    by (auto simp: module_resources_def)
  moreover have "probe_failure env d = Some (e, {})"
    using first_failure_early [OF pci(2) _ pci(4)] lowest_free_board(1) [OF pci(1)]
    by (simp add: probe_failure_def)
  ultimately show ?thesis
    using pci get_free_board_Inr [OF pci(1)] assms(2) by (auto simp: boards_set_release module_resources_def)
next
  case (initialise b w held1 s2)
  note enabled = probe_enabled [OF initialise(2) assms(2)]
  have "snd s2 = held1 \<or> snd s2 = insert Res_Prom held1"
    using initialise_board_held [OF initialise(3)] enabled(2) by (simp del: split_paired_Ex) blast
  moreover have "disable_board held1 - {Res_Priv} = ds_held d"
    "disable_board (insert Res_Prom held1) - {Res_Priv} = insert Res_Prom (ds_held d)" "Res_Prom \<notin> held1"
    using assms(2) by (auto simp: enabled(1) disable_board_def module_resources_def)
  ultimately have "disable_board (snd s2) - {Res_Priv} = ds_held d \<union> (snd s2 - held1)"
    by (elim disjE) (simp_all add: insert_Diff_if)
  then have "ds_held d' = ds_held d \<union> (snd s2 - held1)" by (simp add: initialise(4))
  moreover have "boards_set (ds_boards d') = boards_set (ds_boards d)"
    using initialise(4) get_free_board_Inr [OF initialise(1)] by (simp add: boards_set_release)
  ultimately show ?thesis using probe_failure_stages [OF initialise(1,5,2,3) enabled(2)] by simp
next
  case (nodes b w held1 parts s2 nodes' held3)
  note enabled = probe_enabled [OF nodes(2) assms(2)]
  note noded = probe_noded [OF nodes(3) enabled(2) nodes(4) assms(3)]
  have "ds_held d' = ds_held d \<union> node_resources nodes'"
    using no_cdev_held [OF assms(2) enabled(1), where parts = parts and nodes = nodes' and extra = "{}"] noded(1) nodes(5)
    by simp
  moreover have "boards_set (ds_boards d') = boards_set (ds_boards d)"
    using nodes(5) get_free_board_Inr [OF nodes(1)] by (simp add: boards_set_release)
  ultimately show ?thesis
    using probe_failure_stages [OF nodes(1,6,2,3) enabled(2)] probe_fail_nodes [OF nodes(3) enabled(2) nodes(4) assms(3)]
    by simp
next
  case (sysfs b w held1 parts s2 nodes' held3 held4)
  note enabled = probe_enabled [OF sysfs(2) assms(2)]
  note noded = probe_noded [OF sysfs(3) enabled(2) sysfs(4) assms(3)]
  note exact = probe_fail_nodes [OF sysfs(3) enabled(2) sysfs(4) assms(3)]
  have "ds_held d' = insert Res_Cdev (ds_held d) \<union> node_resources nodes'" if "held4 = held3"
    using no_cdev_held [OF assms(2) enabled(1), where parts = parts and nodes = nodes' and extra = "{Res_Cdev}"]
      noded(1) sysfs(6) that by simp
  moreover have "ds_held d' = {Res_Cdev, Res_Sysfs_Prom_Used} \<union> ds_held d \<union> node_resources nodes'"
    if "held4 = insert Res_Sysfs_Prom_Used held3"
    using no_cdev_held [OF assms(2) enabled(1), where parts = parts and nodes = nodes'
        and extra = "{Res_Cdev, Res_Sysfs_Prom_Used}"] noded(1) sysfs(6) that
    by (simp add: insert_commute)
  moreover have "probe_failure env d = first_failure (node_steps env (fst parts) b)"
    using probe_failure_stages [OF sysfs(1,7,2,3) enabled(2)] by simp
  moreover have "boards_set (ds_boards d') = boards_set (ds_boards d)"
    using sysfs(6) get_free_board_Inr [OF sysfs(1)] by (simp add: boards_set_release)
  ultimately show ?thesis using sysfs(5) exact by auto
qed

section \<open>Lemmas on a probe that is granted everything\<close>

text \<open>
  The engine answers a reset at once, the kernel grants what the DMA controller asks for, and
  everything the board asks for.
\<close>

definition engine_resets :: "platform \<Rightarrow> bool" where
  "engine_resets pf \<longleftrightarrow> (\<forall>tr. hw pf tr (Cdma CDMACR) AND CDMACR_Reset = 0)"

definition dma_grants :: "dma_kernel \<Rightarrow> bool" where
  "dma_grants k \<longleftrightarrow> 12 \<le> k_block_shift k \<and> (\<forall>m. k_set_mask k m = Inr ()) \<and> k_kmalloc k = Ptr () \<and>
     (\<exists>mem. k_get_free_pages k = Ptr mem) \<and> (\<exists>a. k_map_single k = Some a)"

definition env_grants :: "probe_env \<Rightarrow> prom_context \<Rightarrow> bool" where
  "env_grants env prom \<longleftrightarrow>
     pe_kmalloc env = Ptr () \<and> pe_enable_device env = Inr () \<and> pe_request_regions env = Inr () \<and>
     pe_enable_msi env = Inr () \<and> BAR2_LENGTH \<le> pe_bar2_length env \<and> pe_iomap env = Ptr () \<and>
     load_prom (pe_prom_kzalloc env) (pe_default_prom env) (pe_heap env) (pe_window env) = Inr prom \<and>
     prom_wf prom \<and> device_first prom \<and> prom_get_nentries prom \<le> MAX_MINORS_PER_BOARD \<and>
     engine_resets (pe_platform env) \<and> dma_grants (pe_dma_kernel env) \<and>
     pe_intc_kzalloc env = Ptr () \<and> pe_request_irq env = Inr () \<and> pe_cdev_add env = Inr ()"

lemma reset_granted:
  assumes "engine_resets pf"
  shows "\<exists>tr'. reset_dma_controller pf tr = Some (Inr (), tr')"
proof -
  have "reset_poll pf dl tr = Some (hw pf tr (Cdma CDMACR), tr @ [Readl (Cdma CDMACR) (hw pf tr (Cdma CDMACR))])" for dl tr
    using assms by (subst reset_poll.simps) (simp add: engine_resets_def readl_def Let_def)
  with assms show ?thesis by (simp add: reset_dma_controller_def Let_def engine_resets_def)
qed

lemma dma_control_granted:
  assumes "engine_resets pf" and "dma_grants k"
  shows "\<exists>dma s'. initialise_dma_control pf k m shift s = Some (Inr dma, s')"
proof (cases s)
  case (Pair tr held)
  obtain tr' where "reset_dma_controller pf (tr @ [MapSingle DMA_BIDIRECTIONAL]) = Some (Inr (), tr')"
    using reset_granted [OF assms(1)] by blast
  with assms(2) Pair show ?thesis by (auto simp: dma_grants_def Let_def)
qed

lemma dma_param_wf:
  assumes "prom_wf prom" and "tag = PROM_DMA_MASK_TAG \<or> tag = PROM_DMA_ALIGN_TAG"
  shows "\<exists>v. dma_param prom tag x = Some v"
proof -
  have valid: "prom_valid prom" using assms(1) by (simp add: prom_wf_def)
  show ?thesis
  proof (cases "find (\<lambda>p. entry_tag prom p = tag) (prom_offsets prom)")
    case None
    then show ?thesis by (simp add: dma_param_def prom_find_entry_by_tag_find [OF valid])
  next
    case (Some p)
    then have p: "p \<in> set (prom_offsets prom)" "entry_tag prom p = tag" by (auto simp: find_Some_iff)
    obtain e where "e < PROM_MAX_LENGTH" "length (prom_buff prom) = PROM_MAX_LENGTH + 1"
      "p + min_body (entry_tag prom p) + 2 \<le> e" using prom_wf_end [OF assms(1)] p by blast
    then have "\<exists>v. u8_at (prom_buff prom) (p + 2) = Some v"
      using assms(2) p by (intro fields_within) (auto simp: min_body_def)
    with Some show ?thesis by (simp add: dma_param_def prom_find_entry_by_tag_find [OF valid] prom_get_buffer_def)
  qed
qed

lemma initialise_dma_granted:
  assumes "env_grants env prom"
  shows "\<exists>dma s'. initialise_dma env prom s = Some (Inr dma, s')"
proof -
  have wf: "prom_wf prom" and dma: "engine_resets (pe_platform env)" "dma_grants (pe_dma_kernel env)"
    using assms by (simp_all add: env_grants_def)
  obtain m sh where "dma_param prom PROM_DMA_MASK_TAG DMA_DEFAULT_MASK = Some m"
    "dma_param prom PROM_DMA_ALIGN_TAG DMA_DEFAULT_ALIGNMENT_SHIFT = Some sh"
    using dma_param_wf [OF wf, of PROM_DMA_MASK_TAG DMA_DEFAULT_MASK]
      dma_param_wf [OF wf, of PROM_DMA_ALIGN_TAG DMA_DEFAULT_ALIGNMENT_SHIFT] by auto
  moreover obtain d s' where "initialise_dma_control (pe_platform env) (pe_dma_kernel env) m sh s = Some (Inr d, s')"
    using dma_control_granted [OF dma] by blast
  ultimately show ?thesis by (auto simp: initialise_dma_def simp del: initialise_dma_control.simps)
qed

text \<open>
  A probe that is granted everything gets as far as sysfs, with the character device and all nodes.
\<close>

lemma probe_granted:
  assumes "env_grants env prom" and "get_free_board (ds_boards d) = (Inr b, w)"
  shows "\<exists>priv s nodes. priv = new_amc_pci env b (prom, ap_dma priv, rb_interrupts (ap_reg priv)) \<and>
    Res_Cdev \<in> snd s \<and> node_resources nodes \<subseteq> snd s \<and>
    map fst nodes = [ap_minor priv ..< ap_minor priv + prom_get_nentries_with_minor prom] \<and>
    amc_pci_probe env d =
      (case pe_sysfs_prom_used env of
         Inl e \<Rightarrow> Some (Inl e, no_cdev priv b w s)
       | Inr _ \<Rightarrow>
           (case pe_sysfs_prom env of
              Inl e \<Rightarrow> Some (Inl e, no_cdev priv b w (take_res Res_Sysfs_Prom_Used s))
            | Inr _ \<Rightarrow> Some (Inr priv, \<lparr>ds_boards = w, ds_bus = fst s,
                ds_held = insert Res_Sysfs_Prom (insert Res_Sysfs_Prom_Used (snd s))\<rparr>)))"
proof -
  note g = assms(1) [unfolded env_grants_def]
  obtain held1 where pci: "enable_board env (insert Res_Priv (ds_held d)) = (Inr (), held1)"
    using g by (simp add: enable_board_def Let_def)
  obtain dma s3 where dma: "initialise_dma env prom (take_res Res_Prom (take_res Res_Bar2 (ds_bus d, held1))) =
      Some (Inr dma, s3)" using initialise_dma_granted [OF assms(1)] by blast
  obtain intc s4 where intc: "initialise_interrupt_control (Ptr ()) (Inr ()) dma s3 = (Inr intc, s4)"
    by (cases s3) (simp add: Let_def)
  have init: "initialise_board env (ds_bus d, held1) = Some (Inr (prom, dma, intc), s4)"
    using g dma intc by (simp add: initialise_board_def Let_def)
  define priv where "priv = new_amc_pci env b (prom, dma, intc)"
  have ap: "ap_prom priv = prom" "ap_dma priv = dma" "rb_interrupts (ap_reg priv) = intc"
    by (simp_all add: priv_def new_amc_pci_def)
  obtain nodes where nodes: "create_device_nodes (Inr ()) priv (snd s4) =
      Some (Inr (), nodes, insert Res_Cdev (snd s4) \<union> node_resources nodes)"
    "map fst nodes = [ap_minor priv ..< ap_minor priv + prom_get_nentries_with_minor prom]"
    using create_device_nodes_entries [of priv "snd s4"] g ap by auto
  let ?s = "(fst s4, insert Res_Cdev (snd s4) \<union> node_resources nodes)"
  have "amc_pci_probe env d =
      (case pe_sysfs_prom_used env of
         Inl e \<Rightarrow> Some (Inl e, no_cdev priv b w ?s)
       | Inr _ \<Rightarrow>
           (case pe_sysfs_prom env of
              Inl e \<Rightarrow> Some (Inl e, no_cdev priv b w (take_res Res_Sysfs_Prom_Used ?s))
            | Inr _ \<Rightarrow> Some (Inr priv, \<lparr>ds_boards = w, ds_bus = fst ?s,
                ds_held = insert Res_Sysfs_Prom (insert Res_Sysfs_Prom_Used (snd ?s))\<rparr>)))"
    using g assms(2) pci init nodes(1) priv_def
    by (simp add: amc_pci_probe_def Let_def take_res_def split: sum.split)
  then show ?thesis
    using nodes(2) ap priv_def
    by (intro exI [of _ priv] exI [of _ ?s] exI [of _ nodes]) auto
qed

section \<open>An example\<close>

definition demo_env :: probe_env where
  "demo_env =
     \<lparr>pe_kmalloc = Ptr (), pe_enable_device = Inr (), pe_request_regions = Inr (), pe_enable_msi = Inr (),
      pe_bar0_start = 0x4000, pe_bar0_len = 0x2000, pe_bar2_length = 16384, pe_iomap = Ptr (),
      pe_prom_kzalloc = Ptr (), pe_default_prom = [], pe_heap = \<lambda>_. 0,
      pe_window = rom_of (window_of test_prom1), pe_platform = copying_platform demo_mem 0x10000,
      pe_dma_kernel = granting_kernel, pe_intc_kzalloc = Ptr (), pe_request_irq = Inr (), pe_major = 240,
      pe_cdev_add = Inr (), pe_sysfs_prom_used = Inr (), pe_sysfs_prom = Inr ()\<rparr>"

definition demo_driver :: driver_state where
  "demo_driver = \<lparr>ds_boards = 0, ds_bus = [], ds_held = module_resources\<rparr>"

lemma demo_env_grants: "\<exists>prom. env_grants demo_env prom \<and> prom_get_nentries_with_minor prom = 4 \<and>
    prom_get_dma_nentries prom = 3 \<and> prom_offsets prom = [5, 16, 34, 52]"
proof -
  obtain c where c: "load_prom (Ptr ()) [] (\<lambda>_. 0) (rom_of (window_of test_prom1)) = Inr c" "prom_wf c" "device_first c"
    "minor_offsets c = [5, 16, 34, 52]" "prom_offsets c = [5, 16, 34, 52]" "dma_offsets c = [16, 34, 52]"
    by (rule test_prom1_wf [of "[]" "\<lambda>_. 0"]) auto
  have n: "prom_get_nentries c = 4" "prom_get_nentries_with_minor c = 4" "prom_get_dma_nentries c = 3"
    using c(2,4-6)
    by (simp_all add: prom_wf_def prom_valid_def prom_get_nentries_def prom_get_nentries_with_minor_def
        prom_get_dma_nentries_def)
  have "engine_resets (copying_platform demo_mem 0x10000)" by (simp add: engine_resets_def copying_platform_def)
  moreover have "dma_grants granting_kernel" by (simp add: dma_grants_def granting_kernel_def)
  ultimately have "env_grants demo_env c"
    using c n by (simp add: env_grants_def demo_env_def BAR2_LENGTH_def)
  with n c(5) show ?thesis by blast
qed

lemma demo_no_boards: "boards_set (ds_boards demo_driver) = {}"
  by (simp add: boards_set_def demo_driver_def)

lemma demo_boards_free: "\<not> {..<MAX_BOARDS} \<subseteq> boards_set (ds_boards demo_driver)"
proof -
  have "0 \<in> {..<MAX_BOARDS}" by simp
  then show ?thesis unfolding demo_no_boards by blast
qed

lemma demo_free_board: "get_free_board (ds_boards demo_driver) = (Inr 0, snd (test_and_set_bit 0 0))"
proof -
  have "\<not> (\<forall>i. i < MAX_BOARDS \<longrightarrow> bit (0 :: u64) i)" by (auto intro: exI [of _ 0])
  with get_free_board_cases [of 0] show ?thesis by (auto simp: demo_driver_def)
qed

lemma demo_probe: "\<exists>priv d'. amc_pci_probe demo_env demo_driver = Some (Inr priv, d')"
proof -
  obtain prom where "env_grants demo_env prom" using demo_env_grants by blast
  from probe_granted [OF this demo_free_board] show ?thesis by (auto simp: demo_env_def)
qed

section \<open>Properties\<close>

text \<open>
  C5: Probe and remove are a round trip. Starting from the resources of the module alone, a probe
  that succeeds holds exactly the resources of the board and its device nodes; removing the
  board when the open files have been closed gives back all of it, and the board number.
\<close>

theorem probe_remove_roundtrip:
  assumes "amc_pci_probe env d = Some (Inr priv, d')" and "ds_held d \<subseteq> module_resources"
    and "length (pe_default_prom env) \<le> PROM_MAX_LENGTH"
  shows "board_resources priv \<subseteq> ds_held d' \<and>
    ds_held d' - board_resources priv - range Res_Node = ds_held d \<and>
    (\<exists>d''. amc_pci_remove 0 priv d' = Some d'' \<and> ds_held d'' = ds_held d \<and>
       boards_set (ds_boards d'') = boards_set (ds_boards d))"
proof -
  from probe_ok [OF assms] obtain nodes where
    held: "ds_held d' = ds_held d \<union> board_resources priv \<union> node_resources nodes" and
    nodes: "node_resources nodes \<subseteq> (\<lambda>i. Res_Node (ap_minor priv + i)) ` {..<prom_get_nentries (ap_prom priv)}" and
    board: "ap_board priv \<notin> boards_set (ds_boards d)"
      "boards_set (ds_boards d') = insert (ap_board priv) (boards_set (ds_boards d))" and
    refs: "rb_refs (ap_reg priv) = new_refs" by blast
  have disj: "ds_held d \<inter> board_resources priv = {}" "ds_held d \<inter> range Res_Node = {}"
    "node_resources nodes \<subseteq> range Res_Node"
    using assms(2) by (auto simp: module_resources_def board_resources_def dma_resources_def node_resources_def)
  have "board_resources priv \<subseteq> ds_held d'" using held by blast
  moreover have "ds_held d' - board_resources priv - range Res_Node = ds_held d" using held disj by blast
  moreover obtain r where w: "wait_for_clients 0 (rb_refs (ap_reg priv)) = Some r"
    using wait_for_no_clients refs by auto
  then have "\<exists>d''. amc_pci_remove 0 priv d' = Some d'' \<and> ds_held d'' = ds_held d \<and>
       boards_set (ds_boards d'') = boards_set (ds_boards d)"
    using held disj nodes board
    by (auto simp: amc_pci_remove_def Let_def terminate_board_held disable_board_def destroy_device_nodes_def
        boards_set_release board_resources_def)
  ultimately show ?thesis by blast
qed



theorem probe_remove_roundtrip_witness:
  "\<exists>priv d' d''. amc_pci_probe demo_env demo_driver = Some (Inr priv, d') \<and>
     amc_pci_remove 0 priv d' = Some d'' \<and> ds_held d'' = module_resources"
proof -
  obtain priv d' where p: "amc_pci_probe demo_env demo_driver = Some (Inr priv, d')" using demo_probe by blast
  from probe_remove_roundtrip [OF p] p show ?thesis by (auto simp: demo_driver_def demo_env_def)
qed

text \<open>
  C8: Probe of a good board. If the kernel grants what is asked for, the engine answers its reset
  and the PROM is well formed with its device entry first and at most sixteen entries, probe
  returns with success as long as one of the four board numbers is free: it takes the lowest
  one, and makes a node for every entry with a minor number, in the sixteen minor numbers of
  that board.
\<close>

theorem probe_succeeds:
  assumes "env_grants env prom" and "pe_sysfs_prom_used env = Inr ()" and "pe_sysfs_prom env = Inr ()"
    and "\<not> {..<MAX_BOARDS} \<subseteq> boards_set (ds_boards d)"
  shows "\<exists>priv d'. amc_pci_probe env d = Some (Inr priv, d') \<and> ap_prom priv = prom \<and>
    ap_board priv = (LEAST n. n \<notin> boards_set (ds_boards d)) \<and> ap_board priv < MAX_BOARDS \<and>
    ap_minor priv = ap_board priv * MAX_MINORS_PER_BOARD \<and>
    Res_Node ` {ap_minor priv ..< ap_minor priv + prom_get_nentries_with_minor prom} \<subseteq> ds_held d' \<and>
    Res_Cdev \<in> ds_held d'"
proof -
  from free_board_exists [OF assms(4)] obtain b w where
    free: "get_free_board (ds_boards d) = (Inr b, w)" and least: "b = (LEAST n. n \<notin> boards_set (ds_boards d))" by blast
  from probe_granted [OF assms(1) free] obtain priv s nodes where
    priv: "priv = new_amc_pci env b (prom, ap_dma priv, rb_interrupts (ap_reg priv))"
    and s: "Res_Cdev \<in> snd s" "node_resources nodes \<subseteq> snd s"
    and nodes: "map fst nodes = [ap_minor priv ..< ap_minor priv + prom_get_nentries_with_minor prom]"
    and pr: "amc_pci_probe env d = Some (Inr priv, \<lparr>ds_boards = w, ds_bus = fst s,
        ds_held = insert Res_Sysfs_Prom (insert Res_Sysfs_Prom_Used (snd s))\<rparr>)"
    using assms(2,3) by auto
  have "fst ` set nodes = {ap_minor priv ..< ap_minor priv + prom_get_nentries_with_minor prom}"
    using arg_cong [OF nodes, of set] by simp
  moreover have "ap_board priv = b" "ap_prom priv = prom" "ap_minor priv = b * MAX_MINORS_PER_BOARD"
    using arg_cong [OF priv, of ap_board] arg_cong [OF priv, of ap_prom] arg_cong [OF priv, of ap_minor] by simp_all
  ultimately show ?thesis
    using pr s least get_free_board_Inr [OF free] by (auto simp: node_resources_def)
qed

theorem probe_succeeds_witness:
  "\<exists>priv d'. amc_pci_probe demo_env demo_driver = Some (Inr priv, d') \<and> ap_minor priv = 0 \<and>
     Res_Node ` {0, 1, 2, 3} \<subseteq> ds_held d'"
proof -
  obtain prom where g: "env_grants demo_env prom" "prom_get_nentries_with_minor prom = 4"
    using demo_env_grants by blast
  have "{0 ..< (4 :: nat)} = {0, 1, 2, 3}" by auto
  moreover have "pe_sysfs_prom_used demo_env = Inr ()" "pe_sysfs_prom demo_env = Inr ()" by (simp_all add: demo_env_def)
  ultimately show ?thesis
    using probe_succeeds [OF g(1) _ _ demo_boards_free] g(2) demo_no_boards by (auto simp: Least_eq_0)
qed

text \<open>
  C7: How a probe fails, and what it leaves. The specification goes through the steps of a probe in
  order: the first step that fails gives the error of the probe, and with it exactly what stays in
  the ledger. So a probe fails if and only if one of these steps does; it leaves the copy of the
  PROM if the DMA set-up failed, the nodes made so far if an entry was refused, all nodes with the
  character device (and the first sysfs file) if a sysfs file could not be made, and nothing
  otherwise; and a probe that fails always gives the board number back.
\<close>

theorem probe_failure_exact:
  assumes "amc_pci_probe env d = Some (r, d')" and "ds_held d \<subseteq> module_resources"
    and "length (pe_default_prom env) \<le> PROM_MAX_LENGTH"
  shows "case probe_failure env d of
      None \<Rightarrow> \<exists>priv. r = Inr priv
    | Some (e, left) \<Rightarrow> r = Inl e \<and> ds_held d' = ds_held d \<union> left \<and>
        boards_set (ds_boards d') = boards_set (ds_boards d)"
proof (cases r)
  case (Inr priv)
  note p = assms(1) [unfolded Inr]
  from p show ?thesis
  proof (rule probe_ok_parts)
    fix b w held1 parts s2 nodes held3
    assume free: "get_free_board (ds_boards d) = (Inr b, w)"
      and pci: "enable_board env (insert Res_Priv (ds_held d)) = (Inr (), held1)"
      and init: "initialise_board env (ds_bus d, held1) = Some (Inr parts, s2)"
      and priv: "priv = new_amc_pci env b parts"
      and nodes: "create_device_nodes (pe_cdev_add env) priv (snd s2) = Some (Inr (), nodes, held3)"
    note enabled = probe_enabled [OF pci assms(2)] and grants = probe_ok_grants [OF p]
    note valid = probe_noded(4) [OF init enabled(2) nodes [unfolded priv] assms(3)]
    have "first_failure (node_steps env (fst parts) b) = None"
      using create_device_nodes_exact [OF nodes] valid grants
      by (auto simp: priv node_steps_def split: if_splits sum.splits)
    with probe_failure_stages [OF free _ pci init enabled(2)] grants Inr show ?thesis by simp
  qed
next
  case (Inl e)
  from probe_fail_exact [OF assms(1) [unfolded Inl] assms(2,3)] Inl show ?thesis by auto
qed

text \<open>A board like the example, for which the first sysfs file cannot be made.\<close>

definition demo_env_sysfs :: probe_env where
  "demo_env_sysfs = demo_env\<lparr>pe_sysfs_prom_used := Inl ENOMEM\<rparr>"

lemma demo_env_sysfs_grants: "\<exists>prom. env_grants demo_env_sysfs prom \<and> prom_get_nentries_with_minor prom = 4"
  using demo_env_grants by (auto simp: env_grants_def demo_env_sysfs_def)

lemma probe_failure_granted:
  assumes "env_grants env prom" and "lowest_free (ds_boards d) < MAX_BOARDS"
  defines "nodes \<equiv> nodes_left (lowest_free (ds_boards d)) prom"
  shows "probe_failure env d =
      first_failure [(error_of (pe_sysfs_prom_used env), insert Res_Cdev nodes),
        (error_of (pe_sysfs_prom env), {Res_Cdev, Res_Sysfs_Prom_Used} \<union> nodes)]"
    and "nodes_made prom = prom_get_nentries_with_minor prom"
proof -
  note g = assms(1) [unfolded env_grants_def]
  obtain dma s where "initialise_dma env prom (ds_bus d, {}) = Some (Inr dma, s)"
    using initialise_dma_granted [OF assms(1)] by blast
  then have "dma_error env prom (ds_bus d) = None" by (simp add: dma_error_def)
  moreover have "minor_offsets prom \<noteq> []" using g by (auto simp: device_first_def)
  ultimately show "probe_failure env d =
      first_failure [(error_of (pe_sysfs_prom_used env), insert Res_Cdev nodes),
        (error_of (pe_sysfs_prom env), {Res_Cdev, Res_Sysfs_Prom_Used} \<union> nodes)]"
    using g assms(2)
    by (simp add: probe_failure_def early_steps_def set_up_steps_def node_steps_def nodes_def)
  obtain p ps where m: "minor_offsets prom = p # ps" "entry_tag prom p = PROM_DEVICE_TAG"
    and rest: "\<forall>q \<in> set ps. entry_tag prom q \<noteq> PROM_DEVICE_TAG"
    using g by (auto simp: device_first_def split: list.splits)
  have "takeWhile (\<lambda>q. entry_tag prom q \<noteq> PROM_DEVICE_TAG) ps = ps"
    using rest by (subst takeWhile_eq_all_conv)
  then have "nodes_made prom = length (minor_offsets prom)"
    unfolding nodes_made_def m(1) list.case if_P [OF m(2)] by (simp only: list.size)
  then show "nodes_made prom = prom_get_nentries_with_minor prom"
    using g by (simp add: prom_wf_def prom_valid_def prom_get_nentries_with_minor_def)
qed

lemma demo_sysfs_failure:
  "probe_failure demo_env_sysfs demo_driver = Some (ENOMEM, insert Res_Cdev (Res_Node ` {0, 1, 2, 3}))"
proof -
  obtain prom where g: "env_grants demo_env_sysfs prom" "prom_get_nentries_with_minor prom = 4"
    using demo_env_sysfs_grants by blast
  have free: "lowest_free (ds_boards demo_driver) = 0" by (simp add: lowest_free_def upt_rec demo_driver_def)
  then have "nodes_made prom = 4" using probe_failure_granted(2) [OF g(1), of demo_driver] g(2) by simp
  moreover have "{..<4 :: nat} = {0, 1, 2, 3}" by auto
  ultimately have "nodes_left 0 prom = Res_Node ` {0, 1, 2, 3}" by (simp add: nodes_left_def)
  moreover have "pe_sysfs_prom_used demo_env_sysfs = Inl ENOMEM" by (simp add: demo_env_sysfs_def)
  ultimately show ?thesis using probe_failure_granted(1) [OF g(1), of demo_driver] free by simp
qed

theorem probe_failure_exact_witness:
  "\<exists>d'. amc_pci_probe demo_env_sysfs demo_driver = Some (Inl ENOMEM, d') \<and> boards_set (ds_boards d') = {} \<and>
     ds_held d' = module_resources \<union> {Res_Cdev, Res_Node 0, Res_Node 1, Res_Node 2, Res_Node 3}"
proof -
  obtain prom where "env_grants demo_env_sysfs prom" using demo_env_sysfs_grants by blast
  from probe_granted [OF this demo_free_board] obtain d' where
    p: "amc_pci_probe demo_env_sysfs demo_driver = Some (Inl ENOMEM, d')"
    by (auto simp: demo_env_sysfs_def)
  have start: "ds_held demo_driver \<subseteq> module_resources" "length (pe_default_prom demo_env_sysfs) \<le> PROM_MAX_LENGTH"
    "boards_set (ds_boards demo_driver) = {}" "ds_held demo_driver = module_resources"
    by (simp_all add: demo_driver_def demo_env_def demo_env_sysfs_def boards_set_def)
  from probe_failure_exact [OF p start(1,2)] p start(3,4) show ?thesis by (simp add: demo_sysfs_failure)
qed

text \<open>A failing DMA set-up leaves the copy of the PROM allocated.\<close>

lemma dma_failure_keeps_prom:
  assumes "BAR2_LENGTH \<le> pe_bar2_length env" and "pe_iomap env = Ptr ()"
    and "load_prom (pe_prom_kzalloc env) (pe_default_prom env) (pe_heap env) (pe_window env) = Inr prom"
    and "prom_get_nentries prom \<le> MAX_MINORS_PER_BOARD"
    and "initialise_dma env prom (take_res Res_Prom (take_res Res_Bar2 s)) = Some (Inl e, t)"
    and "board_free (snd s)"
  shows "\<exists>s'. initialise_board env s = Some (Inl e, s') \<and> snd s' = insert Res_Prom (snd s)"
proof -
  have "snd t = insert Res_Prom (insert Res_Bar2 (snd s))"
    using initialise_dma_held [OF assms(5)] assms(6) by (auto simp: board_free_def)
  then have "snd (release_res Res_Bar2 t) = insert Res_Prom (snd s)"
    using assms(6) by (auto simp: board_free_def)
  with assms(1-5) show ?thesis by (simp add: initialise_board_def Let_def)
qed

text \<open>
  What a failing sysfs file leaves behind. On a good board on which the first sysfs file
  cannot be made, probe fails with that error and gives the board number and the private
  structure back, but the character device and every node stay registered.
\<close>

lemma sysfs_failure_leaks:
  assumes "env_grants env prom" and "pe_sysfs_prom_used env = Inl e"
    and "\<not> {..<MAX_BOARDS} \<subseteq> boards_set (ds_boards d)"
  shows "\<exists>d' m. amc_pci_probe env d = Some (Inl e, d') \<and>
    boards_set (ds_boards d') = boards_set (ds_boards d) \<and> Res_Priv \<notin> ds_held d' \<and>
    Res_Cdev \<in> ds_held d' \<and> Res_Node ` {m ..< m + prom_get_nentries_with_minor prom} \<subseteq> ds_held d'"
proof -
  from free_board_exists [OF assms(3)] obtain b w where free: "get_free_board (ds_boards d) = (Inr b, w)" by blast
  from probe_granted [OF assms(1) free] assms(2) obtain priv s nodes where
    s: "Res_Cdev \<in> snd s" "node_resources nodes \<subseteq> snd s"
    and nodes: "map fst nodes = [ap_minor priv ..< ap_minor priv + prom_get_nentries_with_minor prom]"
    and pr: "amc_pci_probe env d = Some (Inl e, no_cdev priv b w s)" by auto
  have "Res_Node ` {ap_minor priv ..< ap_minor priv + prom_get_nentries_with_minor prom} = node_resources nodes"
    using arg_cong [OF nodes, of set] by (auto simp: node_resources_def)
  moreover have "node_resources nodes \<subseteq> range Res_Node" by (auto simp: node_resources_def)
  ultimately show ?thesis
    using pr s get_free_board_Inr [OF free]
    by (intro exI [of _ "no_cdev priv b w s"] exI [of _ "ap_minor priv"])
      (auto simp: terminate_board_held disable_board_def dma_resources_def boards_set_release)
qed

lemma sysfs_failure_leaks_witness:
  "\<exists>d' m. amc_pci_probe demo_env_sysfs demo_driver = Some (Inl ENOMEM, d') \<and>
     Res_Cdev \<in> ds_held d' \<and> Res_Node m \<in> ds_held d'"
proof -
  obtain prom where g: "env_grants demo_env_sysfs prom" "prom_get_nentries_with_minor prom = 4"
    using demo_env_sysfs_grants by blast
  moreover have "pe_sysfs_prom_used demo_env_sysfs = Inl ENOMEM" by (simp add: demo_env_sysfs_def)
  ultimately obtain d' m where
    "amc_pci_probe demo_env_sysfs demo_driver = Some (Inl ENOMEM, d')" "Res_Cdev \<in> ds_held d'"
    "Res_Node ` {m ..< m + 4} \<subseteq> ds_held d'"
    using sysfs_failure_leaks [OF g(1) _ demo_boards_free] g(2) by auto
  moreover have "m \<in> {m ..< m + 4}" by simp
  ultimately show ?thesis by blast
qed

end
