(* ===== verification/Core_Driver.thy ===== *)
theory Core_Driver
  imports Core_Board
begin

text \<open>
  The driver as a whole: several boards that are probed, opened and removed one after the other,
  with the bitmap of board numbers they share. The theory shows that the minor numbers of live
  boards never overlap, that loading and unloading of the module is balanced, and that a board
  that has been probed has what its memory files need.
\<close>

section \<open>Live boards\<close>

text \<open>
  The state of the driver: the bitmap and the boards that have been probed and not removed. Every
  device has its own ledger, which starts with the resources of the module.
\<close>

type_synonym live_state = "u64 \<times> amc_pci list"

inductive live_step :: "live_state \<Rightarrow> live_state \<Rightarrow> bool" where
  probed: "amc_pci_probe env \<lparr>ds_boards = w, ds_bus = [], ds_held = module_resources\<rparr> = Some (Inr priv, d') \<Longrightarrow>
    length (pe_default_prom env) \<le> PROM_MAX_LENGTH \<Longrightarrow> live_step (w, live) (ds_boards d', priv # live)"
| refused: "amc_pci_probe env \<lparr>ds_boards = w, ds_bus = [], ds_held = module_resources\<rparr> = Some (Inl e, d') \<Longrightarrow>
    length (pe_default_prom env) \<le> PROM_MAX_LENGTH \<Longrightarrow> live_step (w, live) (ds_boards d', live)"
| opened: "i < length live \<Longrightarrow> amc_pci_open iminor f_flags kmalloc (live ! i) = Some (r, priv) \<Longrightarrow>
    live_step (w, live) (w, live[i := priv])"
| removed: "i < length live \<Longrightarrow>
    amc_pci_remove closes (live ! i) \<lparr>ds_boards = w, ds_bus = bus, ds_held = held\<rparr> = Some d' \<Longrightarrow>
    live_step (w, live) (ds_boards d', take i live @ drop (Suc i) live)"

inductive_cases live_stepE: "live_step s s'"

definition minors_of :: "amc_pci \<Rightarrow> nat set" where
  "minors_of priv = {ap_minor priv ..< ap_minor priv + MAX_MINORS_PER_BOARD}"

definition live_board :: "amc_pci \<Rightarrow> bool" where
  "live_board p \<longleftrightarrow> ap_board p < MAX_BOARDS \<and> ap_minor p = ap_board p * MAX_MINORS_PER_BOARD \<and>
     prom_get_nentries (ap_prom p) \<le> MAX_MINORS_PER_BOARD \<and> prom_valid (ap_prom p) \<and>
     (ap_dma p = None \<longleftrightarrow> prom_get_dma_nentries (ap_prom p) = 0)"

definition live_inv :: "live_state \<Rightarrow> bool" where
  "live_inv = (\<lambda>(w, live).
     distinct (map ap_board live) \<and> boards_set w = ap_board ` set live \<and> (\<forall>p \<in> set live. live_board p))"

text \<open>
  What the DMA controller relies on: \<^verbatim>\<open>dma_block_shift\<close> is below 31 and the kernel returns as many
  bytes as asked for; and the alignment shift that the PROM gives is at most 31.
\<close>

definition dma_memory_ok :: "dma_kernel \<Rightarrow> bool" where
  "dma_memory_ok k \<longleftrightarrow> k_block_shift k < 31 \<and>
     (case k_get_free_pages k of Ptr mem \<Rightarrow> length mem = 2 ^ nat (k_block_shift k) | _ \<Rightarrow> True)"

definition align_ok :: "prom_context \<Rightarrow> bool" where
  "align_ok prom \<longleftrightarrow>
     (case dma_param prom PROM_DMA_ALIGN_TAG DMA_DEFAULT_ALIGNMENT_SHIFT of None \<Rightarrow> False | Some sh \<Rightarrow> unat sh \<le> 31)"

text \<open>Permissions, first address and size of the window of a memory entry.\<close>

fun entry_window :: "prom_entry \<Rightarrow> (u8 \<times> u64 \<times> u64) option" where
  "entry_window (Prom_Dma [b0, b1, b2] len perm _) = Some (perm, window_base b0 b1 b2, ucast len)"
| "entry_window (Prom_Dma_Ext base len perm _) = Some (perm, base, len)"
| "entry_window _ = None"

section \<open>Lemmas\<close>

text \<open>Opening a file changes neither the numbers of the board nor its PROM nor its controller.\<close>

lemma open_entry_frame:
  "open_entry p f_flags kmalloc priv = Some (r, priv') \<Longrightarrow>
     ap_board priv' = ap_board priv \<and> ap_minor priv' = ap_minor priv \<and> ap_prom priv' = ap_prom priv \<and>
     ap_dma priv' = ap_dma priv"
  by (auto simp: open_entry_def open_dma_def Let_def split: if_splits bind_splits prod.splits)

lemma set_refs_frame [simp]: "ap_board (set_refs r p) = ap_board p" "ap_dma (set_refs r p) = ap_dma p"
  by (simp_all add: set_refs_def)

lemma amc_pci_open_frame:
  "amc_pci_open iminor f_flags kmalloc priv = Some (r, priv') \<Longrightarrow>
     ap_board priv' = ap_board priv \<and> ap_minor priv' = ap_minor priv \<and> ap_prom priv' = ap_prom priv \<and>
     ap_dma priv' = ap_dma priv"
  by (auto simp: amc_pci_open_def Let_def split: bind_splits sum.splits option.splits dest!: open_entry_frame)

lemma amc_pci_remove_boards:
  "amc_pci_remove closes priv d = Some d' \<Longrightarrow> boards_set (ds_boards d') = boards_set (ds_boards d) - {ap_board priv}"
  by (auto simp: amc_pci_remove_def Let_def boards_set_release split: bind_splits)

lemma probe_fail_boards:
  assumes "amc_pci_probe env d = Some (Inl e, d')"
  shows "boards_set (ds_boards d') = boards_set (ds_boards d)"
  using assms
proof (cases rule: probe_fail_parts)
  case (board boards)
  with get_free_board_Inl show ?thesis by fastforce
qed (auto simp: boards_set_release dest: get_free_board_Inr)

lemma live_step_inv:
  assumes "live_step s s'" and "live_inv s"
  shows "live_inv s'"
  using assms
proof (cases rule: live_step.cases)
  case (probed env w priv d' live)
  from probe_ok [OF probed(3)] probed(4) have
    "live_board priv" "ap_board priv \<notin> boards_set w"
    "boards_set (ds_boards d') = insert (ap_board priv) (boards_set w)" by (auto simp: live_board_def)
  with probed(1,2) assms(2) show ?thesis by (auto simp: live_inv_def)
next
  case (refused env w e d' live)
  with probe_fail_boards [OF refused(3)] assms(2) show ?thesis by (simp add: live_inv_def)
next
  case (opened i live iminor f_flags kmalloc r priv w)
  note frame = amc_pci_open_frame [OF opened(4)]
  have boards: "map ap_board (live[i := priv]) = map ap_board live"
    using frame opened(3) by (simp add: map_update list_update_same_conv)
  have "live_board (live ! i)" using opened(1,3) assms(2) by (simp add: live_inv_def)
  then have "live_board priv" using frame by (simp add: live_board_def)
  moreover have "set (live[i := priv]) \<subseteq> insert priv (set live)" by (rule set_update_subset_insert)
  ultimately show ?thesis
    using opened(1,2) assms(2) boards arg_cong [OF boards, of set]
    by (auto simp: live_inv_def simp flip: set_map)
next
  case (removed i live closes w bus held d')
  let ?rest = "take i live @ drop (Suc i) live"
  have split: "live = take i live @ live ! i # drop (Suc i) live" using removed(3) by (simp add: id_take_nth_drop)
  have inv: "distinct (map ap_board live)" "boards_set w = ap_board ` set live"
    using assms(2) removed(1) by (simp_all add: live_inv_def)
  have "map ap_board live = map ap_board (take i live) @ ap_board (live ! i) # map ap_board (drop (Suc i) live)"
    by (subst split) simp
  with inv(1) have dist: "distinct (map ap_board ?rest)" "ap_board (live ! i) \<notin> ap_board ` set ?rest" by auto
  have set: "set live = insert (live ! i) (set ?rest)" by (subst split) auto
  have "boards_set (ds_boards d') = boards_set w - {ap_board (live ! i)}"
    using amc_pci_remove_boards [OF removed(4)] by simp
  also have "\<dots> = ap_board ` set ?rest" using dist(2) unfolding inv(2) set by blast
  finally have "boards_set (ds_boards d') = ap_board ` set ?rest" .
  with removed(1,2) assms(2) dist(1) show ?thesis unfolding live_inv_def by (simp add: set)
qed

lemma live_reachable_inv: "live_step\<^sup>*\<^sup>* (0, []) s \<Longrightarrow> live_inv s"
proof (induction rule: rtranclp_induct)
  case base
  show ?case by (simp add: live_inv_def boards_set_def)
next
  case (step s s')
  then show ?case by (blast intro: live_step_inv)
qed

text \<open>Only an entry of a DMA region is opened as a memory file.\<close>

lemma open_entry_dma_file:
  assumes "open_entry p f_flags kmalloc priv = Some (Inr (Dma_File a), priv')"
  shows "is_dma_tag (entry_tag (ap_prom priv) p)"
proof -
  have "map_sum id Reg_File x \<noteq> Inr (Dma_File a)" for x :: "nat res" by (cases x) auto
  with assms show ?thesis
    by (auto simp: open_entry_def is_dma_tag_def Let_def split: if_splits prod.splits)
qed

lemma open_dma_file:
  assumes "amc_pci_open iminor f_flags kmalloc priv = Some (Inr (Dma_File a), priv')" and "prom_valid (ap_prom priv)"
  shows "prom_get_dma_nentries (ap_prom priv) \<noteq> 0"
proof -
  let ?c = "ap_prom priv" and ?i = "iminor - int (ap_minor priv)"
  obtain refs where refs: "get_ref (rb_refs (ap_reg priv)) = Inr refs"
    using assms(1) by (cases "get_ref (rb_refs (ap_reg priv))") (auto simp: amc_pci_open_def)
  have i: "0 \<le> ?i \<and> ?i < int (length (minor_offsets ?c))"
    using assms(1) by (auto simp: amc_pci_open_def refs Let_def prom_find_entry_with_minor_nth [OF assms(2)] split: if_splits)
  let ?p = "minor_offsets ?c ! nat ?i"
  have "open_entry ?p f_flags kmalloc (set_refs refs priv) = Some (Inr (Dma_File a), priv')"
    using assms(1) i
    by (auto simp: amc_pci_open_def refs Let_def prom_find_entry_with_minor_nth [OF assms(2)] split: bind_splits sum.splits)
  from open_entry_dma_file [OF this] have "is_dma_tag (entry_tag ?c ?p)" by simp
  moreover have "?p \<in> set (prom_offsets ?c)" using i by (intro minor_offsets_subset nth_mem) linarith
  ultimately have "?p \<in> set (dma_offsets ?c)" by (simp add: dma_offsets_def)
  then show ?thesis using assms(2) by (auto simp: prom_valid_def prom_get_dma_nentries_def)
qed

text \<open>The window of a memory file is that of the entry of its minor number.\<close>

lemma open_decoded_window:
  assumes "open_decoded ent f_flags kmalloc priv = (Inr (Dma_File a), priv')"
  shows "\<exists>perm base len. entry_window ent = Some (perm, base, len) \<and>
    validate_file_permission f_flags (PROM_PERM_CAN_READ perm) (PROM_PERM_CAN_WRITE perm) \<and>
    ap_mem priv' a = Some \<lparr>mc_base = base, mc_length = len\<rparr>"
proof -
  have "map_sum id Reg_File x \<noteq> Inr (Dma_File a)" for x :: "nat res" by (cases x) auto
  with assms show ?thesis
    by (induction ent rule: entry_window.induct)
      (auto simp: open_window_def Let_def split: if_splits kptr.splits prod.splits)
qed

lemma open_memory_window:
  assumes "amc_pci_open iminor f_flags kmalloc priv = Some (Inr (Dma_File a), priv')" and "prom_wf (ap_prom priv)"
  shows "\<exists>perm base len. int (ap_minor priv) \<le> iminor \<and>
    nat (iminor - int (ap_minor priv)) < length (minor_entries (ap_prom priv)) \<and>
    entry_window (minor_entries (ap_prom priv) ! nat (iminor - int (ap_minor priv))) = Some (perm, base, len) \<and>
    validate_file_permission f_flags (PROM_PERM_CAN_READ perm) (PROM_PERM_CAN_WRITE perm) \<and>
    ap_mem priv' a = Some \<lparr>mc_base = base, mc_length = len\<rparr>"
proof -
  let ?ent = "minor_entries (ap_prom priv) ! nat (iminor - int (ap_minor priv))"
  obtain refs where "int (ap_minor priv) \<le> iminor"
    "nat (iminor - int (ap_minor priv)) < length (minor_entries (ap_prom priv))"
    "open_decoded ?ent f_flags kmalloc (set_refs refs priv) = (Inr (Dma_File a), priv')"
    using assms(1) unfolding amc_pci_open_entries [OF assms(2)]
    by (auto simp: Let_def split: sum.splits if_splits prod.splits)
  with open_decoded_window show ?thesis by blast
qed

text \<open>The controller of a board that has been set up.\<close>

lemma initialise_dma_ready:
  assumes "initialise_dma env prom s = Some (Inr (Some dma), s')"
    and "dma_memory_ok (pe_dma_kernel env)" and "align_ok prom"
  shows "dma_valid dma \<and> \<not> dc_mutex dma \<and> (\<exists>sh \<le> 31. dc_alignment dma = 2 ^ sh)"
proof -
  obtain m sh tr held where ctl: "initialise_dma_control (pe_platform env) (pe_dma_kernel env) m sh (tr, held) = Some (Inr dma, s')"
    and sh: "unat sh \<le> 31"
  proof -
    obtain sh where sh: "dma_param prom PROM_DMA_ALIGN_TAG DMA_DEFAULT_ALIGNMENT_SHIFT = Some sh" "unat sh \<le> 31"
      using assms(3) by (auto simp: align_ok_def split: option.splits)
    moreover obtain m r where "initialise_dma_control (pe_platform env) (pe_dma_kernel env) m sh s = Some (r, s')"
      "map_sum id Some r = Inr (Some dma)"
      using assms(1) sh(1)
      by (auto simp: initialise_dma_def simp del: initialise_dma_control.simps split: if_splits bind_splits)
    ultimately show thesis using that by (cases s; cases r) auto
  qed
  obtain mem addr where mem: "k_get_free_pages (pe_dma_kernel env) = Ptr mem"
    and dma: "dma = dma_fields (pe_dma_kernel env) sh mem addr" and b: "12 \<le> k_block_shift (pe_dma_kernel env)"
    using initialise_dma_control_ok [of "pe_platform env" "pe_dma_kernel env" m sh tr held dma "fst s'" "snd s'"] ctl
    by auto
  have "dma_valid dma" unfolding dma
    by (rule dma_fields_valid [where b = "nat (k_block_shift (pe_dma_kernel env))"])
      (use assms(2) mem b sh in \<open>auto simp: dma_memory_ok_def\<close>)
  moreover have "dc_alignment dma = 2 ^ unat sh"
    using shl_ull_pow2 [of "unat sh" "pe_dma_kernel env"] sh by (simp add: dma dma_fields_def Let_def)
  ultimately show ?thesis using sh dma by (auto simp: dma_fields_def Let_def)
qed

lemma initialise_board_parts:
  assumes "initialise_board env s = Some (Inr (prom, dma, intc), s')"
  shows "(\<exists>t t'. initialise_dma env prom t = Some (Inr dma, t')) \<and> intc = new_interrupt_control dma \<and>
    load_prom (pe_prom_kzalloc env) (pe_default_prom env) (pe_heap env) (pe_window env) = Inr prom"
  using assms
  by (auto simp: initialise_board_def Let_def simp del: split_paired_Ex
      split: if_splits sum.splits bind_splits prod.splits)

lemma probe_prom:
  assumes "amc_pci_probe env d = Some (Inr priv, d')"
  shows "load_prom (pe_prom_kzalloc env) (pe_default_prom env) (pe_heap env) (pe_window env) = Inr (ap_prom priv) \<and>
    rb_refs (ap_reg priv) = new_refs"
  using assms
proof (rule probe_ok_parts)
  fix board parts held1 s2
  assume "initialise_board env (ds_bus d, held1) = Some (Inr parts, s2)" and priv: "priv = new_amc_pci env board parts"
  then have "load_prom (pe_prom_kzalloc env) (pe_default_prom env) (pe_heap env) (pe_window env) = Inr (fst parts)"
    using initialise_board_parts [of env "(ds_bus d, held1)" "fst parts" "fst (snd parts)" "snd (snd parts)" s2] by simp
  with priv show ?thesis by simp
qed

text \<open>
  What a probed board starts from. If the block size and the alignment shift of the PROM are
  in range, a successful probe leaves the board in the state from which the histories of the
  register files start, with one reference and no open file; its controller, if the PROM has
  memory regions, satisfies the invariant of the DMA controller and is unlocked.
\<close>

lemma probe_ready:
  assumes "amc_pci_probe env d = Some (Inr priv, d')"
    and "dma_memory_ok (pe_dma_kernel env)" and "align_ok (ap_prom priv)"
  shows "reg_start (ap_reg priv) \<and> rb_refs (ap_reg priv) = new_refs \<and> ap_mem priv = (\<lambda>_. None) \<and>
    (\<forall>dma. ap_dma priv = Some dma \<longrightarrow>
       dma_valid dma \<and> \<not> dc_mutex dma \<and> (\<exists>sh \<le> 31. dc_alignment dma = 2 ^ sh))"
  using assms(1)
proof (rule probe_ok_parts)
  fix board parts bus held1 s2
  assume init: "initialise_board env (ds_bus d, held1) = Some (Inr parts, s2)"
    and priv: "priv = new_amc_pci env board parts"
  obtain prom dma intc where parts: "parts = (prom, dma, intc)" by (metis prod_cases3)
  from initialise_board_parts [OF init [unfolded parts]] obtain t t' where
    dma: "initialise_dma env prom t = Some (Inr dma, t')" and intc: "intc = new_interrupt_control dma" by blast
  have "dma_valid c \<and> \<not> dc_mutex c \<and> (\<exists>sh \<le> 31. dc_alignment c = 2 ^ sh)" if "ap_dma priv = Some c" for c
    using that dma assms(2,3) by (intro initialise_dma_ready [of env prom t c t']) (simp_all add: priv parts)
  then show ?thesis by (auto simp: priv parts new_amc_pci_def reg_start_def intc)
qed

lemmas probe_dma_ready = probe_ready [THEN conjunct2, THEN conjunct2, THEN conjunct2]

section \<open>The memory file of the example board\<close>

text \<open>What can be decoded from a buffer decodes the same from a longer one.\<close>

lemma field_at_append: "field_at xs i n = Some v \<Longrightarrow> field_at (xs @ ys) i n = Some v"
  by (auto simp: field_at_def split: if_splits)

lemma at_append:
  "u8_at xs i = Some v8 \<Longrightarrow> u8_at (xs @ ys) i = Some v8"
  "u16_at xs i = Some v16 \<Longrightarrow> u16_at (xs @ ys) i = Some v16"
  "u32_at xs i = Some v32 \<Longrightarrow> u32_at (xs @ ys) i = Some v32"
  by (auto simp: u8_at_def u16_at_def u32_at_def field_at_append)

lemma cstr_at_append: "cstr_at xs i = Some v \<Longrightarrow> cstr_at (xs @ ys) i = Some v"
  by (auto simp: cstr_at_def takeWhile_append1 split: if_splits)

lemma prom_entry_at_append:
  assumes "u8_at xs p = Some PROM_DMA_TAG" and "u8_at xs (p + 1) = Some sz" and "prom_dma_entry xs p = Some ent"
  shows "prom_entry_at (xs @ ys) p = Some ent"
  using assms
  by (auto simp: prom_entry_at_def prom_dma_entry_def at_append cstr_at_append split: option.splits)

lemma test_prom1_mem_c:
  "prom_entry_at (test_prom1 @ ys) 52 = Some (Prom_Dma [0x6263, 0x4261, 0] 0x100 6 [0x6D, 0x65, 0x6D, 0x43])"
proof (rule prom_entry_at_append)
  show "u8_at test_prom1 52 = Some PROM_DMA_TAG" by code_simp
  show "u8_at test_prom1 (52 + 1) = Some 16" by code_simp
  show "prom_dma_entry test_prom1 52 = Some (Prom_Dma [0x6263, 0x4261, 0] 0x100 6 [0x6D, 0x65, 0x6D, 0x43])" by code_simp
qed

lemma demo_live:
  "\<exists>priv d'. amc_pci_probe demo_env demo_driver = Some (Inr priv, d') \<and>
     live_step (0, []) (ds_boards d', [priv]) \<and> ap_minor priv = 0"
proof -
  obtain priv d' where p: "amc_pci_probe demo_env demo_driver = Some (Inr priv, d')" using demo_probe by blast
  then have "live_step (0, []) (ds_boards d', [priv])"
    unfolding demo_driver_def by (rule probed) (simp add: demo_env_def)
  moreover from p have "ap_minor priv = 0"
  proof (rule probe_ok_parts)
    fix board boards parts
    assume "get_free_board (ds_boards demo_driver) = (Inr board, boards)" "priv = new_amc_pci demo_env board parts"
    with demo_free_board show "ap_minor priv = 0" by simp
  qed
  ultimately show ?thesis using p by blast
qed

lemma demo_memory_file:
  "\<exists>priv d' priv'. amc_pci_probe demo_env demo_driver = Some (Inr priv, d') \<and>
     live_step (0, []) (ds_boards d', [priv]) \<and> ap_minor priv = 0 \<and> prom_wf (ap_prom priv) \<and> align_ok (ap_prom priv) \<and>
     entry_window (minor_entries (ap_prom priv) ! 3) = Some (6, 0x42616263, 0x100) \<and>
     amc_pci_open 3 O_RDWR (Ptr 9) priv = Some (Inr (Dma_File 9), priv')"
proof -
  obtain priv d' where p: "amc_pci_probe demo_env demo_driver = Some (Inr priv, d')"
    "live_step (0, []) (ds_boards d', [priv])" "ap_minor priv = 0" using demo_live by blast
  let ?c = "ap_prom priv"
  have load: "load_prom (Ptr ()) [] (\<lambda>_. 0) (rom_of (window_of test_prom1)) = Inr ?c"
    and refs: "rb_refs (ap_reg priv) = new_refs" using probe_prom [OF p(1)] by (simp_all add: demo_env_def)
  have wf: "prom_wf ?c" "minor_offsets ?c = [5, 16, 34, 52]" "prom_offsets ?c = [5, 16, 34, 52]"
    by (rule test_prom1_wf [of "[]" "\<lambda>_. 0"], use load in auto)+
  have buff: "prom_buff ?c = window_of test_prom1 @ [0]"
    by (rule test_prom1_loads [of "[]" "\<lambda>_. 0"]) (use load in auto)
  have ent: "minor_entries ?c ! 3 = Prom_Dma [0x6263, 0x4261, 0] 0x100 6 [0x6D, 0x65, 0x6D, 0x43]"
    using test_prom1_mem_c by (simp add: minor_entries_def wf(2) buff window_of_def)
  have window: "entry_window (minor_entries ?c ! 3) = Some (6, 0x42616263, 0x100)"
    by (simp add: ent window_base_def)
  have "\<forall>p \<in> set (minor_offsets ?c). prom_entry_needs_minor (entry_tag ?c p)" by (simp add: minor_offsets_def)
  then have tags: "\<forall>p \<in> set (prom_offsets ?c). entry_tag ?c p \<noteq> PROM_DMA_ALIGN_TAG"
    unfolding wf(2,3) by (auto simp: prom_entry_needs_minor_def)
  then have "find (\<lambda>p. entry_tag ?c p = PROM_DMA_ALIGN_TAG) (prom_offsets ?c) = None" by (auto simp: find_None_iff)
  moreover have "prom_valid ?c" using wf(1) by (simp add: prom_wf_def)
  ultimately have align: "align_ok ?c"
    by (simp add: align_ok_def dma_param_def prom_find_entry_by_tag_find DMA_DEFAULT_ALIGNMENT_SHIFT_def)
  have "get_ref new_refs = Inr (new_refs\<lparr>fr_refcount := 2\<rparr>)"
    by (simp add: get_ref_def atomic_inc_not_zero_def new_refs_def)
  moreover have "length (minor_entries ?c) = 4" by (simp add: minor_entries_def wf(2))
  ultimately have "\<exists>priv'. amc_pci_open 3 O_RDWR (Ptr 9) priv = Some (Inr (Dma_File 9), priv')"
    unfolding amc_pci_open_entries [OF wf(1)] refs p(3)
    by (simp add: ent open_window_def validate_file_permission_def
        O_ACCMODE_def O_RDWR_def O_RDONLY_def O_WRONLY_def PROM_PERM_CAN_READ_def PROM_PERM_CAN_WRITE_def)
  with p wf(1) align window show ?thesis by blast
qed

section \<open>Properties\<close>

text \<open>
  C6: Numbers of live boards. In every state the driver can reach by probing, opening and removing
  boards in any order there are at most four live boards, the bitmap has exactly their numbers,
  the ranges of minor numbers of two live boards are disjoint and lie in the range the module
  has registered, and each board has at most as many entries as numbers.
\<close>

theorem board_numbers:
  assumes "live_step\<^sup>*\<^sup>* (0, []) (w, live)"
  shows "length live \<le> MAX_BOARDS \<and> boards_set w = ap_board ` set live \<and>
    (\<forall>i < length live. minors_of (live ! i) \<subseteq> {..<MAX_MINORS} \<and>
       prom_get_nentries (ap_prom (live ! i)) \<le> MAX_MINORS_PER_BOARD) \<and>
    (\<forall>i j. i < j \<and> j < length live \<longrightarrow> minors_of (live ! i) \<inter> minors_of (live ! j) = {})"
proof -
  have inv: "distinct (map ap_board live)" "boards_set w = ap_board ` set live"
    "\<And>p. p \<in> set live \<Longrightarrow> ap_board p < MAX_BOARDS \<and> ap_minor p = ap_board p * MAX_MINORS_PER_BOARD \<and>
        prom_get_nentries (ap_prom p) \<le> MAX_MINORS_PER_BOARD"
    using live_reachable_inv [OF assms] by (auto simp: live_inv_def live_board_def)
  have "card (set (map ap_board live)) \<le> card {..<MAX_BOARDS}"
    using inv(3) by (intro card_mono) auto
  then have "length live \<le> MAX_BOARDS" using distinct_card [OF inv(1)] by simp
  moreover have "minors_of p \<subseteq> {..<MAX_MINORS}" if "p \<in> set live" for p
    using inv(3) [OF that] by (auto simp: minors_of_def)
  moreover have "minors_of (live ! i) \<inter> minors_of (live ! j) = {}" if "i < j" "j < length live" for i j
  proof -
    have "ap_board (live ! i) \<noteq> ap_board (live ! j)"
      using inv(1) that nth_eq_iff_index_eq [of "map ap_board live" i j] by simp
    then show ?thesis using inv(3) [of "live ! i"] inv(3) [of "live ! j"] that by (auto simp: minors_of_def)
  qed
  ultimately show ?thesis using inv by (simp add: nth_mem)
qed

theorem board_numbers_witness:
  "\<exists>w priv. live_step\<^sup>*\<^sup>* (0, []) (w, [priv]) \<and> ap_minor priv = 0 \<and> boards_set w = {ap_board priv} \<and>
     minors_of priv \<subseteq> {..<64}"
proof -
  obtain w priv where s: "live_step (0, []) (w, [priv])" "ap_minor priv = 0" using demo_live by blast
  then have "live_step\<^sup>*\<^sup>* (0, []) (w, [priv])" by blast
  with board_numbers [OF this] s(2) show ?thesis by auto
qed

text \<open>
  Loading and unloading of the module. Loading returns the error of the first of its three
  steps that is refused, and success if none is. It then holds the numbers, the class and the
  driver, or nothing new if it failed; unloading gives everything back.
\<close>

theorem module_balance:
  assumes "held \<inter> module_resources = {}"
  shows "\<exists>r held'. amc_pci_init (alloc_region, class_create, register_driver) held = (r, held') \<and>
    r = (case alloc_region of Inl e \<Rightarrow> Inl e
         | Inr _ \<Rightarrow> (case test_ptr class_create of Inl e \<Rightarrow> Inl e | Inr _ \<Rightarrow> register_driver)) \<and>
    held' = (case r of Inl _ \<Rightarrow> held | Inr _ \<Rightarrow> held \<union> module_resources) \<and>
    amc_pci_exit held' = held"
proof -
  let ?e = "(alloc_region, class_create, register_driver)"
  obtain r held' where r: "amc_pci_init ?e held = (r, held')" by fastforce
  have h: "held' = (case r of Inl _ \<Rightarrow> held | Inr _ \<Rightarrow> held \<union> module_resources)"
    using module_stage.set_up_balanced [of ?e held r held'] r assms
    by (simp del: amc_pci_init.simps split: sum.split)
  moreover have "amc_pci_exit held' = held"
    using module_stage.tear_down_held [of held'] h assms by (cases r) auto
  moreover have "r = (case alloc_region of Inl e \<Rightarrow> Inl e
      | Inr _ \<Rightarrow> (case test_ptr class_create of Inl e \<Rightarrow> Inl e | Inr _ \<Rightarrow> register_driver))"
    using r by (auto simp: Let_def split: sum.splits)
  ultimately show ?thesis using r by blast
qed

theorem module_balance_witness:
  "fst (amc_pci_init (Inr (), Ptr (), Inl EIO) {}) = Inl EIO \<and>
   amc_pci_exit (snd (amc_pci_init (Inr (), Ptr (), Inr ()) {})) = {}"
  using module_balance [of "{}" "Inr ()" "Ptr ()" "Inl EIO"] module_balance [of "{}" "Inr ()" "Ptr ()" "Inr ()"]
  by auto

text \<open>
  Memory files have a controller. In every state the driver can reach, opening a node of a
  live board as a memory file succeeds only if the board has a DMA controller, so that the file
  operations never follow a null pointer; and opening changes neither the controller nor the
  numbers of the board.
\<close>

lemma memory_files_have_controller:
  assumes "live_step\<^sup>*\<^sup>* (0, []) (w, live)" and "i < length live"
    and "amc_pci_open iminor f_flags kmalloc (live ! i) = Some (Inr (Dma_File a), priv)"
  shows "(\<exists>dma. ap_dma priv = Some dma \<and> ap_dma (live ! i) = Some dma) \<and>
    ap_minor priv = ap_minor (live ! i) \<and> ap_prom priv = ap_prom (live ! i)"
proof -
  have "live ! i \<in> set live" using assms(2) by simp
  then have inv: "prom_valid (ap_prom (live ! i))"
    "ap_dma (live ! i) = None \<longleftrightarrow> prom_get_dma_nentries (ap_prom (live ! i)) = 0"
    using live_reachable_inv [OF assms(1)] by (auto simp: live_inv_def live_board_def)
  from open_dma_file [OF assms(3) inv(1)] inv(2) have "ap_dma (live ! i) \<noteq> None" by simp
  with amc_pci_open_frame [OF assms(3)] show ?thesis by auto
qed

lemma memory_files_have_controller_witness:
  "\<exists>w priv priv' dma. live_step\<^sup>*\<^sup>* (0, []) (w, [priv]) \<and>
     amc_pci_open 3 O_RDWR (Ptr 9) priv = Some (Inr (Dma_File 9), priv') \<and> ap_dma priv' = Some dma"
proof -
  obtain w priv priv' where s: "live_step (0, []) (w, [priv])"
    and op: "amc_pci_open 3 O_RDWR (Ptr 9) priv = Some (Inr (Dma_File 9), priv')" using demo_memory_file by blast
  then have r: "live_step\<^sup>*\<^sup>* (0, []) (w, [priv])" by blast
  from op have "amc_pci_open 3 O_RDWR (Ptr 9) ([priv] ! 0) = Some (Inr (Dma_File 9), priv')" by simp
  from memory_files_have_controller [OF r _ this] obtain dma where "ap_dma priv' = Some dma" by auto
  with r op show ?thesis by blast
qed

end
