(* ===== verification/Core_Handles.thy ===== *)
theory Core_Handles
  imports Core_Driver
begin

text \<open>
  All files of one board together: the histories of opens, closes, register and memory
  operations and interrupts on the state of a board. The theory shows that the reference count,
  the lock count and the contexts of both kinds of file agree with the files that are open, and
  that every memory file stays attached to a window its PROM entry declares.
\<close>

section \<open>Closing a file\<close>

text \<open>The \<^verbatim>\<open>release\<close> entries of the two tables of file operations.\<close>

fun file_release :: "file_private \<Rightarrow> amc_pci \<Rightarrow> amc_pci" where
  "file_release (Reg_File a) priv = priv\<lparr>ap_reg := amc_pci_reg_release a (ap_reg priv)\<rparr>"
| "file_release (Dma_File a) priv =
     (let (contexts, refs) = amc_pci_dma_release a (ap_mem priv, rb_refs (ap_reg priv))
      in set_refs refs (priv\<lparr>ap_mem := contexts\<rparr>))"

section \<open>Histories of a board\<close>

text \<open>
  The state: the board, and the open files with the flags each was opened with. A successful
  \<^verbatim>\<open>kmalloc\<close> returns an address that is not in use, and the kernel lets a file be written only if
  it was not opened for reading alone, and read only if it was not opened for writing alone.
\<close>

type_synonym board_files = "amc_pci \<times> (file_private \<times> u32) list"

definition fresh :: "nat kptr \<Rightarrow> amc_pci \<Rightarrow> bool" where
  "fresh kmalloc priv \<longleftrightarrow>
     (case kmalloc of Ptr a \<Rightarrow> rb_contexts (ap_reg priv) a = None \<and> ap_mem priv a = None | _ \<Rightarrow> True)"

inductive file_step :: "board_files \<Rightarrow> board_files \<Rightarrow> bool" where
  opened: "amc_pci_open iminor f_flags kmalloc priv = Some (Inr f, priv') \<Longrightarrow> fresh kmalloc priv \<Longrightarrow>
    length files < MAX_HANDLES \<Longrightarrow> file_step (priv, files) (priv', (f, f_flags) # files)"
| open_failed: "amc_pci_open iminor f_flags kmalloc priv = Some (Inl e, priv') \<Longrightarrow> fresh kmalloc priv \<Longrightarrow>
    length files < MAX_HANDLES \<Longrightarrow> file_step (priv, files) (priv', files)"
| closed: "(f, f_flags) \<in> set files \<Longrightarrow> file_step (priv, files) (file_release f priv, remove1 (f, f_flags) files)"
| reg_ioctl: "(Reg_File a, f_flags) \<in> set files \<Longrightarrow> rb_contexts (ap_reg priv) a = Some ctx \<Longrightarrow>
    amc_pci_reg_ioctl a ctx cmd (rb_locking (ap_reg priv)) = (r, l) \<Longrightarrow>
    file_step (priv, files) (priv\<lparr>ap_reg := (ap_reg priv)\<lparr>rb_locking := l\<rparr>\<rparr>, files)"
| reg_read: "(Reg_File a, f_flags) \<in> set files \<Longrightarrow> rb_contexts (ap_reg priv) a = Some ctx \<Longrightarrow>
    amc_pci_reg_read ctx no_wait count [] [] fails (rb_interrupts (ap_reg priv)) = Some (r, u, intc) \<Longrightarrow>
    file_step (priv, files) (priv\<lparr>ap_reg := (ap_reg priv)\<lparr>rb_interrupts := intc\<rparr>\<rparr>, files)"
| isr: "amc_pci_isr pf (rb_interrupts (ap_reg priv)) tr = (intc, tr') \<Longrightarrow>
    file_step (priv, files) (priv\<lparr>ap_reg := (ap_reg priv)\<lparr>rb_interrupts := intc\<rparr>\<rparr>, files)"
| mem_read: "(Dma_File a, f_flags) \<in> set files \<Longrightarrow> ap_mem priv a = Some ctx \<Longrightarrow> ap_dma priv = Some dma \<Longrightarrow>
    f_flags AND O_ACCMODE \<noteq> O_WRONLY \<Longrightarrow> buffer_stable pf \<Longrightarrow>
    amc_pci_dma_read pf ctx count left (f_pos, dma, tr) = Some (r, bytes, f_pos', dma', tr') \<Longrightarrow>
    file_step (priv, files) (priv\<lparr>ap_dma := Some dma'\<rparr>, files)"
| mem_write: "(Dma_File a, f_flags) \<in> set files \<Longrightarrow> ap_mem priv a = Some ctx \<Longrightarrow> ap_dma priv = Some dma \<Longrightarrow>
    f_flags AND O_ACCMODE \<noteq> O_RDONLY \<Longrightarrow> buffer_stable pf \<Longrightarrow>
    unat nleft \<le> unat count \<Longrightarrow> unat count \<le> length user \<Longrightarrow>
    amc_pci_dma_write pf ctx user count nleft (f_pos, dma, tr) = Some (r, f_pos', dma', tr') \<Longrightarrow>
    file_step (priv, files) (priv\<lparr>ap_dma := Some dma'\<rparr>, files)"

section \<open>The invariant\<close>

text \<open>The count, the contexts and the register files.\<close>

definition counts_ok :: "amc_pci \<Rightarrow> file_private list \<Rightarrow> bool" where
  "counts_ok priv fs \<longleftrightarrow> distinct fs \<and> length fs \<le> MAX_HANDLES \<and>
     dom (rb_contexts (ap_reg priv)) = {a. Reg_File a \<in> set fs} \<and>
     dom (ap_mem priv) = {a. Dma_File a \<in> set fs} \<and>
     unat (fr_refcount (rb_refs (ap_reg priv))) = Suc (length fs) \<and>
     fr_completion (rb_refs (ap_reg priv)) = 0 \<and> reg_ok (ap_reg priv)"

text \<open>The controller is usable, and every open memory file has a declared window.\<close>

definition declared :: "prom_context \<Rightarrow> u32 \<Rightarrow> memory_context \<Rightarrow> bool" where
  "declared prom f_flags ctx \<longleftrightarrow> (\<exists>ent \<in> set (minor_entries prom). \<exists>perm.
     entry_window ent = Some (perm, mc_base ctx, mc_length ctx) \<and>
     validate_file_permission f_flags (PROM_PERM_CAN_READ perm) (PROM_PERM_CAN_WRITE perm))"

definition windows_ok :: "amc_pci \<Rightarrow> (file_private \<times> u32) list \<Rightarrow> bool" where
  "windows_ok priv files \<longleftrightarrow> prom_wf (ap_prom priv) \<and>
     (ap_dma priv = None \<longrightarrow> prom_get_dma_nentries (ap_prom priv) = 0) \<and>
     (\<forall>dma. ap_dma priv = Some dma \<longrightarrow> window_ok dma \<lparr>mc_base = 0, mc_length = 0\<rparr>) \<and>
     (\<forall>a f_flags. (Dma_File a, f_flags) \<in> set files \<longrightarrow>
        ap_dma priv \<noteq> None \<and> (\<exists>ctx. ap_mem priv a = Some ctx \<and> declared (ap_prom priv) f_flags ctx))"

text \<open>
  Every read and every write of a window, with whatever engine and user buffer, starts at most
  one transfer, between the driver's buffer and device memory inside the window.
\<close>

definition access_confined :: "dma_control \<Rightarrow> memory_context \<Rightarrow> bool" where
  "access_confined dma ctx \<longleftrightarrow>
     (\<forall>pf count left f_pos tr r bytes f_pos' dma' tr'.
        handlers_quiet pf \<and> count_ok count \<and>
        amc_pci_dma_read pf ctx count left (f_pos, dma, tr) = Some (r, bytes, f_pos', dma', tr') \<longrightarrow>
        length (new_requests tr tr') \<le> 1 \<and>
        list_all (request_in_window ctx dma DMA_FROM_DEVICE) (new_requests tr tr')) \<and>
     (\<forall>pf user count left f_pos tr r f_pos' dma' tr'.
        handlers_quiet pf \<and>
        amc_pci_dma_write pf ctx user count left (f_pos, dma, tr) = Some (r, f_pos', dma', tr') \<longrightarrow>
        length (new_requests tr tr') \<le> 1 \<and>
        list_all (request_in_window ctx dma DMA_TO_DEVICE) (new_requests tr tr'))"

lemma window_ok_confined: "window_ok dma ctx \<Longrightarrow> access_confined dma ctx"
  unfolding access_confined_def using dma_read_requests [of dma ctx] dma_write_requests [of dma ctx] by blast

section \<open>Lemmas on open\<close>

lemma open_entry_ok:
  assumes "open_entry p f_flags kmalloc priv = Some (Inr f, priv')"
  shows "(\<exists>a reg. f = Reg_File a \<and> kmalloc = Ptr a \<and> priv' = priv\<lparr>ap_reg := reg\<rparr> \<and>
      amc_pci_reg_open (ap_bar0_start priv) (ap_bar0_len priv) kmalloc (ap_reg priv) = (Inr a, reg)) \<or>
    (\<exists>a ctx. f = Dma_File a \<and> kmalloc = Ptr a \<and> priv' = priv\<lparr>ap_mem := (ap_mem priv)(a \<mapsto> ctx)\<rparr>)"
proof -
  have mapped: "map_sum id c x = Inr f \<longleftrightarrow> (\<exists>a. x = Inr a \<and> f = c a)" for c and x :: "nat res"
    by (cases x) auto
  show ?thesis
    using assms
    by (auto simp: open_entry_def open_dma_def amc_pci_dma_open_def Let_def mapped dest: reg_open_ok
        split: if_splits bind_splits prod.splits sum.splits)
qed

lemma open_entry_fail:
  assumes "open_entry p f_flags kmalloc priv = Some (Inl e, priv')"
  shows "priv' = priv \<or> (\<exists>reg. priv' = priv\<lparr>ap_reg := reg\<rparr> \<and>
    amc_pci_reg_open (ap_bar0_start priv) (ap_bar0_len priv) kmalloc (ap_reg priv) = (Inl e, reg))"
proof -
  have mapped: "map_sum id c x = Inl e \<longleftrightarrow> x = Inl e" for c :: "nat \<Rightarrow> file_private" and x :: "nat res"
    by (cases x) auto
  show ?thesis
    using assms
    by (auto simp: open_entry_def open_dma_def amc_pci_dma_open_def Let_def mapped
        split: if_splits bind_splits prod.splits sum.splits)
qed

lemma amc_pci_open_ok:
  assumes "amc_pci_open iminor f_flags kmalloc priv = Some (Inr f, priv')"
  shows "\<exists>p refs. get_ref (rb_refs (ap_reg priv)) = Inr refs \<and>
    open_entry p f_flags kmalloc (set_refs refs priv) = Some (Inr f, priv')"
  using assms by (auto simp: amc_pci_open_def Let_def split: sum.splits bind_splits option.splits)

lemma amc_pci_open_fail:
  assumes "amc_pci_open iminor f_flags kmalloc priv = Some (Inl e, priv')"
  obtains (same) "priv' = priv"
  | (entry) p refs priv'' where "get_ref (rb_refs (ap_reg priv)) = Inr refs"
      "open_entry p f_flags kmalloc (set_refs refs priv) = Some (Inl e, priv'')"
      "priv' = set_refs (amc_pci_release (rb_refs (ap_reg priv''))) priv''"
  using assms
  by (auto simp: amc_pci_open_def Let_def release_after_get split: sum.splits bind_splits option.splits)

lemma get_ref_counts:
  assumes "get_ref refs = Inr refs'" and "unat (fr_refcount refs) = Suc n" and "n < MAX_HANDLES"
  shows "unat (fr_refcount refs') = Suc (Suc n) \<and> fr_completion refs' = fr_completion refs"
  using assms get_ref_cases [of refs] by (auto simp: unat_u32_inc)

lemma reg_ok_refs: "reg_ok (b\<lparr>rb_refs := refs\<rparr>) = reg_ok b"
  by (simp add: reg_ok_def)

lemma ap_reg_set_refs [simp]: "ap_reg (set_refs refs priv) = (ap_reg priv)\<lparr>rb_refs := refs\<rparr>"
  by (simp add: set_refs_def)

section \<open>Preservation of the counts\<close>

lemma counts_ok_opened:
  assumes "amc_pci_open iminor f_flags kmalloc priv = Some (Inr f, priv')" and "fresh kmalloc priv"
    and "length fs < MAX_HANDLES" and "counts_ok priv fs"
  shows "counts_ok priv' (f # fs)"
proof -
  obtain p refs where refs: "get_ref (rb_refs (ap_reg priv)) = Inr refs"
    and ent: "open_entry p f_flags kmalloc (set_refs refs priv) = Some (Inr f, priv')"
    using amc_pci_open_ok [OF assms(1)] by blast
  have cnt: "unat (fr_refcount refs) = Suc (Suc (length fs))" "fr_completion refs = 0"
    using get_ref_counts [OF refs _ assms(3)] assms(4) by (simp_all add: counts_ok_def)
  let ?b = "(ap_reg priv)\<lparr>rb_refs := refs\<rparr>"
  show ?thesis
  proof (rule disjE [OF open_entry_ok [OF ent]]; elim exE conjE)
    fix a reg
    assume f: "f = Reg_File a" "kmalloc = Ptr a" and priv': "priv' = set_refs refs priv\<lparr>ap_reg := reg\<rparr>"
      and op: "amc_pci_reg_open (ap_bar0_start (set_refs refs priv)) (ap_bar0_len (set_refs refs priv)) kmalloc
        (ap_reg (set_refs refs priv)) = (Inr a, reg)"
    have new: "rb_contexts ?b a = None" using assms(2) f by (simp add: fresh_def)
    have "reg_ok reg" using reg_ok_open [OF _ op] assms(4) new f by (simp add: reg_ok_refs counts_ok_def)
    moreover have "dom (rb_contexts reg) = insert a (dom (rb_contexts (ap_reg priv)))" "rb_refs reg = refs"
      using reg_open_ok [OF op] by auto
    moreover have "Reg_File a \<notin> set fs" using assms(4) new by (auto simp: counts_ok_def)
    ultimately show ?thesis using assms(3,4) cnt f priv' by (auto simp: counts_ok_def)
  next
    fix a ctx
    assume f: "f = Dma_File a" "kmalloc = Ptr a"
      and priv': "priv' = set_refs refs priv\<lparr>ap_mem := (ap_mem (set_refs refs priv))(a \<mapsto> ctx)\<rparr>"
    have "Dma_File a \<notin> set fs" using assms(2,4) f by (auto simp: counts_ok_def fresh_def)
    then show ?thesis using assms(3,4) cnt f priv' by (auto simp: counts_ok_def reg_ok_refs)
  qed
qed

lemma counts_ok_open_failed:
  assumes "amc_pci_open iminor f_flags kmalloc priv = Some (Inl e, priv')" and "fresh kmalloc priv"
    and "counts_ok priv fs"
  shows "counts_ok priv' fs \<and> ap_mem priv' = ap_mem priv"
  using assms(1)
proof (cases rule: amc_pci_open_fail)
  case (entry p refs priv'')
  note ent = entry(2) and priv' = entry(3)
  have undo: "amc_pci_release refs = rb_refs (ap_reg priv)" by (rule release_after_get [OF entry(1)])
  show ?thesis
  proof (rule disjE [OF open_entry_fail [OF ent]]; (elim exE conjE)?)
    assume "priv'' = set_refs refs priv"
    with priv' undo assms(3) show ?thesis by simp
  next
    fix reg
    assume priv'': "priv'' = set_refs refs priv\<lparr>ap_reg := reg\<rparr>"
      and op: "amc_pci_reg_open (ap_bar0_start (set_refs refs priv)) (ap_bar0_len (set_refs refs priv)) kmalloc
        (ap_reg (set_refs refs priv)) = (Inl e, reg)"
    have new: "\<forall>a. kmalloc = Ptr a \<longrightarrow> rb_contexts (ap_reg (set_refs refs priv)) a = None"
      using assms(2) by (auto simp: fresh_def)
    have "reg_ok reg" using reg_ok_open [OF _ op new] assms(3) by (simp add: reg_ok_refs counts_ok_def)
    moreover have "rb_contexts reg = rb_contexts (ap_reg priv)" "rb_refs reg = refs"
      using reg_open_fail [OF op new] by simp_all
    ultimately show ?thesis using assms(3) undo priv' priv'' by (simp add: counts_ok_def reg_ok_refs)
  qed
qed (simp add: assms(3))

lemma counts_ok_closed:
  assumes "f \<in> set fs" and "counts_ok priv fs"
  shows "counts_ok (file_release f priv) (remove1 f fs)"
proof -
  obtain n where n: "length fs = Suc n" using assms(1) by (cases fs) auto
  have cnt: "unat (fr_refcount (amc_pci_release (rb_refs (ap_reg priv)))) = Suc n"
    "fr_completion (amc_pci_release (rb_refs (ap_reg priv))) = 0"
    using release_counts [of "rb_refs (ap_reg priv)" "Suc n"] assms(2) n by (simp_all add: counts_ok_def)
  have len: "length (remove1 f fs) = n" using assms(1) n by (simp add: length_remove1)
  have set: "set (remove1 f fs) = set fs - {f}" "distinct (remove1 f fs)"
    using assms(2) by (simp_all add: counts_ok_def)
  show ?thesis
  proof (cases f)
    case (Reg_File a)
    then have "a \<in> dom (rb_contexts (ap_reg priv))" using assms by (simp add: counts_ok_def)
    then obtain ctx where ctx: "rb_contexts (ap_reg priv) a = Some ctx" by blast
    have "reg_ok (amc_pci_reg_release a (ap_reg priv))"
      using reg_ok_release [OF _ ctx] assms(2) by (simp add: counts_ok_def)
    moreover have "rb_contexts (amc_pci_reg_release a (ap_reg priv)) = (rb_contexts (ap_reg priv))(a := None)"
      "rb_refs (amc_pci_reg_release a (ap_reg priv)) = amc_pci_release (rb_refs (ap_reg priv))"
      by (simp_all add: amc_pci_reg_release_def ctx Let_def)
    ultimately show ?thesis
      using assms(2) cnt len set n Reg_File by (auto simp: counts_ok_def)
  next
    case (Dma_File a)
    then show ?thesis
      using assms(2) cnt len set n by (auto simp: counts_ok_def reg_ok_refs)
  qed
qed

text \<open>The counts look at no more than these parts of the board.\<close>

lemma counts_ok_frame:
  assumes "counts_ok priv fs" and "rb_contexts (ap_reg priv') = rb_contexts (ap_reg priv)"
    and "rb_refs (ap_reg priv') = rb_refs (ap_reg priv)" and "ap_mem priv' = ap_mem priv" and "reg_ok (ap_reg priv')"
  shows "counts_ok priv' fs"
  using assms by (simp add: counts_ok_def)

section \<open>Preservation of the windows\<close>

lemma windows_ok_opened:
  assumes "amc_pci_open iminor f_flags kmalloc priv = Some (Inr f, priv')" and "fresh kmalloc priv"
    and "windows_ok priv files"
  shows "windows_ok priv' ((f, f_flags) # files)"
proof -
  note frame = amc_pci_open_frame [OF assms(1)]
  have wf: "prom_wf (ap_prom priv)" using assms(3) by (simp add: windows_ok_def)
  obtain p refs where "open_entry p f_flags kmalloc (set_refs refs priv) = Some (Inr f, priv')"
    using amc_pci_open_ok [OF assms(1)] by blast
  from open_entry_ok [OF this] have mem: "ap_mem priv' a = Some ctx" if "ap_mem priv a = Some ctx" for a ctx
    using that assms(2) by (auto simp: fresh_def)
  have new: "ap_dma priv \<noteq> None \<and> (\<exists>ctx. ap_mem priv' a = Some ctx \<and> declared (ap_prom priv) f_flags ctx)"
    if "f = Dma_File a" for a
  proof -
    note op = assms(1) [unfolded that]
    have "prom_get_dma_nentries (ap_prom priv) \<noteq> 0" using open_dma_file [OF op] wf by (simp add: prom_wf_def)
    then have "ap_dma priv \<noteq> None" using assms(3) by (auto simp: windows_ok_def)
    moreover obtain perm base len where "nat (iminor - int (ap_minor priv)) < length (minor_entries (ap_prom priv))"
      "entry_window (minor_entries (ap_prom priv) ! nat (iminor - int (ap_minor priv))) = Some (perm, base, len)"
      "validate_file_permission f_flags (PROM_PERM_CAN_READ perm) (PROM_PERM_CAN_WRITE perm)"
      "ap_mem priv' a = Some \<lparr>mc_base = base, mc_length = len\<rparr>"
      using open_memory_window [OF op wf] by blast
    ultimately show ?thesis by (auto simp: declared_def intro!: bexI [OF _ nth_mem])
  qed
  have old: "ap_dma priv \<noteq> None \<and> (\<exists>ctx. ap_mem priv' a = Some ctx \<and> declared (ap_prom priv) fl ctx)"
    if "(Dma_File a, fl) \<in> set files" for a fl
    using that assms(3) mem by (fastforce simp: windows_ok_def)
  show ?thesis using assms(3) frame new old by (auto simp: windows_ok_def)
qed

lemma file_release_frame [simp]:
  "ap_dma (file_release f priv) = ap_dma priv" "ap_prom (file_release f priv) = ap_prom priv"
  by (cases f; simp)+

lemma windows_ok_closed:
  assumes "(f, f_flags) \<in> set files" and "distinct (map fst files)" and "windows_ok priv files"
  shows "windows_ok (file_release f priv) (remove1 (f, f_flags) files)"
proof -
  have rest: "(Dma_File a, fl) \<in> set files \<and> ap_mem (file_release f priv) a = ap_mem priv a"
    if "(Dma_File a, fl) \<in> set (remove1 (f, f_flags) files)" for a fl
  proof -
    have d: "distinct files" using assms(2) by (simp add: distinct_map)
    with that have m: "(Dma_File a, fl) \<in> set files" "(Dma_File a, fl) \<noteq> (f, f_flags)" by auto
    have "Dma_File a \<noteq> f" using assms(1,2) m by (metis eq_key_imp_eq_value)
    with m show ?thesis by (cases f) auto
  qed
  show ?thesis using assms(3) rest unfolding windows_ok_def file_release_frame by fastforce
qed

lemma windows_ok_frame:
  assumes "windows_ok priv files" and "ap_prom priv' = ap_prom priv" and "ap_mem priv' = ap_mem priv"
    and "ap_dma priv' = ap_dma priv \<or> (\<exists>dma'. ap_dma priv' = Some dma' \<and> ap_dma priv \<noteq> None \<and>
      window_ok dma' \<lparr>mc_base = 0, mc_length = 0\<rparr>)"
  shows "windows_ok priv' files"
  using assms by (auto simp: windows_ok_def)

section \<open>The invariant of all histories\<close>

definition files_ok :: "board_files \<Rightarrow> bool" where
  "files_ok = (\<lambda>(priv, files). counts_ok priv (map fst files) \<and> windows_ok priv files)"

lemma map_fst_remove1:
  "distinct (map fst xs) \<Longrightarrow> (k, v) \<in> set xs \<Longrightarrow> map fst (remove1 (k, v) xs) = remove1 k (map fst xs)"
  by (induction xs) (auto simp: rev_image_eqI)

lemma files_ok_reg:
  assumes "files_ok (priv, files)" and "reg_ok reg" and "rb_contexts reg = rb_contexts (ap_reg priv)"
    and "rb_refs reg = rb_refs (ap_reg priv)"
  shows "files_ok (priv\<lparr>ap_reg := reg\<rparr>, files)"
  using assms by (auto simp: files_ok_def intro: counts_ok_frame windows_ok_frame)

lemma files_ok_dma:
  assumes "files_ok (priv, files)" and "ap_dma priv = Some dma" and "window_ok dma' \<lparr>mc_base = 0, mc_length = 0\<rparr>"
  shows "files_ok (priv\<lparr>ap_dma := Some dma'\<rparr>, files)"
  using assms by (auto simp: files_ok_def counts_ok_def intro!: windows_ok_frame [of priv files])

lemma files_ok_parts:
  assumes "files_ok (priv, files)"
  shows "counts_ok priv (map fst files)" "windows_ok priv files" "reg_ok (ap_reg priv)"
    "\<And>dma. ap_dma priv = Some dma \<Longrightarrow> window_ok dma \<lparr>mc_base = 0, mc_length = 0\<rparr>"
  using assms by (simp_all add: files_ok_def counts_ok_def windows_ok_def)

lemma files_ok_step:
  assumes "file_step s s'" and "files_ok s"
  shows "files_ok s'"
  using assms
proof (cases rule: file_step.cases)
  case (opened iminor f_flags kmalloc priv f priv' files)
  note ok = files_ok_parts [OF assms(2) [unfolded opened(1)]]
  from counts_ok_opened [OF opened(3,4) _ ok(1)] windows_ok_opened [OF opened(3,4) ok(2)] opened(2,5)
  show ?thesis by (simp add: files_ok_def)
next
  case (open_failed iminor f_flags kmalloc priv e priv' files)
  note ok = files_ok_parts [OF assms(2) [unfolded open_failed(1)]]
  note c = counts_ok_open_failed [OF open_failed(3,4) ok(1)]
  have "windows_ok priv' files"
    by (rule windows_ok_frame [OF ok(2)]) (use c amc_pci_open_frame [OF open_failed(3)] in simp_all)
  with open_failed(2) c show ?thesis by (simp add: files_ok_def)
next
  case (closed f f_flags files priv)
  note ok = files_ok_parts [OF assms(2) [unfolded closed(1)]]
  have d: "distinct (map fst files)" using ok(1) by (simp add: counts_ok_def)
  have "f \<in> set (map fst files)" using closed(3) by force
  from counts_ok_closed [OF this ok(1)] windows_ok_closed [OF closed(3) d ok(2)] closed(2)
  show ?thesis by (simp add: files_ok_def map_fst_remove1 [OF d closed(3)])
next
  case (reg_ioctl a f_flags files priv ctx cmd r l)
  note inv = assms(2) [unfolded reg_ioctl(1)]
  show ?thesis unfolding reg_ioctl(2)
    by (rule files_ok_reg [OF inv reg_ok_ioctl [OF files_ok_parts(3) [OF inv] reg_ioctl(4,5)]]) simp_all
next
  case (reg_read a f_flags files priv ctx no_wait count fails r u intc)
  note inv = assms(2) [unfolded reg_read(1)]
  show ?thesis unfolding reg_read(2)
    by (rule files_ok_reg [OF inv reg_ok_read [OF files_ok_parts(3) [OF inv] reg_read(5)]]) simp_all
next
  case (isr pf priv tr intc tr' files)
  note inv = assms(2) [unfolded isr(1)]
  show ?thesis unfolding isr(2)
    by (rule files_ok_reg [OF inv reg_ok_isr [OF files_ok_parts(3) [OF inv] isr(3)]]) simp_all
next
  case (mem_read a f_flags files priv ctx dma pf count left f_pos tr r bytes f_pos' dma' tr')
  note inv = assms(2) [unfolded mem_read(1)]
  show ?thesis unfolding mem_read(2)
    by (rule files_ok_dma [OF inv mem_read(5)
          dma_read_window_ok [OF mem_read(8) files_ok_parts(4) [OF inv mem_read(5)] mem_read(7)]])
next
  case (mem_write a f_flags files priv ctx dma pf nleft count user f_pos tr r f_pos' dma' tr')
  note inv = assms(2) [unfolded mem_write(1)]
  show ?thesis unfolding mem_write(2)
    by (rule files_ok_dma [OF inv mem_write(5)
          dma_write_window_ok [OF mem_write(10) files_ok_parts(4) [OF inv mem_write(5)] mem_write(7-9)]])
qed

text \<open>
  A board as a successful probe leaves it, with a PROM whose entries are as large as the structures
  they are read through, and DMA parameters in range.
\<close>

definition probed_board :: "amc_pci \<Rightarrow> bool" where
  "probed_board priv \<longleftrightarrow> (\<exists>env d d'. amc_pci_probe env d = Some (Inr priv, d') \<and> ds_held d \<subseteq> module_resources \<and>
     length (pe_default_prom env) \<le> PROM_MAX_LENGTH \<and> dma_memory_ok (pe_dma_kernel env) \<and>
     align_ok (ap_prom priv) \<and> prom_wf (ap_prom priv))"

lemma files_ok_probed:
  assumes "probed_board priv"
  shows "files_ok (priv, [])"
proof -
  obtain env d d' where p: "amc_pci_probe env d = Some (Inr priv, d')" "ds_held d \<subseteq> module_resources"
    "length (pe_default_prom env) \<le> PROM_MAX_LENGTH" "dma_memory_ok (pe_dma_kernel env)"
    "align_ok (ap_prom priv)" "prom_wf (ap_prom priv)" using assms by (auto simp: probed_board_def)
  note ready = probe_ready [OF p(1,4,5)]
  then have "reg_ok (ap_reg priv)" by (simp add: reg_ok_start)
  with ready have "counts_ok priv []" by (auto simp: counts_ok_def new_refs_def reg_start_def)
  moreover have "windows_ok priv []"
    using ready p(6) probe_ok [OF p(1-3)] by (auto simp: windows_ok_def window_ok_def)
  ultimately show ?thesis by (simp add: files_ok_def)
qed

lemma files_ok_reachable: "file_step\<^sup>*\<^sup>* (priv, []) s \<Longrightarrow> probed_board priv \<Longrightarrow> files_ok s"
  by (induction rule: rtranclp_induct) (auto intro: files_ok_step files_ok_probed)

lemma file_step_prom: "file_step s s' \<Longrightarrow> ap_prom (fst s') = ap_prom (fst s)"
  by (induction rule: file_step.induct) (auto dest: amc_pci_open_frame)

lemma file_steps_prom: "file_step\<^sup>*\<^sup>* s s' \<Longrightarrow> ap_prom (fst s') = ap_prom (fst s)"
  by (induction rule: rtranclp_induct) (auto dest: file_step_prom)

lemma validate_access:
  assumes "validate_file_permission f_flags can_read can_write"
  shows "f_flags AND O_ACCMODE \<noteq> O_WRONLY \<Longrightarrow> can_read" "f_flags AND O_ACCMODE \<noteq> O_RDONLY \<Longrightarrow> can_write"
  using assms by (auto simp: validate_file_permission_def split: if_splits)

text \<open>The example board with its last memory file open.\<close>

lemma demo_files:
  "\<exists>priv priv'. probed_board priv \<and> file_step\<^sup>*\<^sup>* (priv, []) (priv', [(Dma_File 9, O_RDWR)])"
proof -
  obtain priv d' priv' where p: "amc_pci_probe demo_env demo_driver = Some (Inr priv, d')"
    "prom_wf (ap_prom priv)" "align_ok (ap_prom priv)"
    "amc_pci_open 3 O_RDWR (Ptr 9) priv = Some (Inr (Dma_File 9), priv')" using demo_memory_file by blast
  have k: "dma_memory_ok (pe_dma_kernel demo_env)" by (simp add: dma_memory_ok_def demo_env_def granting_kernel_def)
  have "fresh (Ptr 9) priv" using probe_ready [OF p(1) k p(3)] by (simp add: fresh_def reg_start_def)
  then have "file_step (priv, []) (priv', [(Dma_File 9, O_RDWR)])" by (intro opened [OF p(4)]) simp_all
  moreover have "probed_board priv"
    unfolding probed_board_def using p(1-3) k
    by (intro exI [of _ demo_env] exI [of _ demo_driver] exI [of _ d'])
      (simp_all add: demo_driver_def, simp add: demo_env_def)
  ultimately show ?thesis by blast
qed

section \<open>Properties\<close>

text \<open>
  C2: The files of a board are counted. In every state that a probed board reaches by opens, closes,
  register and memory operations and interrupts, in any order, the reference count is one more
  than the number of open files, the contexts of both kinds are those of the open files, the
  count of the register lock is the number of register files, and nothing has been signalled.
  Removing the board then waits for exactly the open files to be closed.
\<close>

theorem open_files_counted:
  assumes "probed_board priv0" and "file_step\<^sup>*\<^sup>* (priv0, []) (priv, files)"
  shows "distinct (map fst files) \<and>
    unat (fr_refcount (rb_refs (ap_reg priv))) = length files + 1 \<and>
    dom (rb_contexts (ap_reg priv)) = {a. Reg_File a \<in> fst ` set files} \<and>
    dom (ap_mem priv) = {a. Dma_File a \<in> fst ` set files} \<and>
    unat (lk_reference_count (rb_locking (ap_reg priv))) = card {a. Reg_File a \<in> fst ` set files} \<and>
    (\<forall>closes \<le> length files. wait_for_clients closes (rb_refs (ap_reg priv)) \<noteq> None \<longleftrightarrow> closes = length files)"
proof -
  have ok: "counts_ok priv (map fst files)"
    using files_ok_reachable [OF assms(2,1)] by (rule files_ok_parts)
  then have "wait_for_clients closes (rb_refs (ap_reg priv)) \<noteq> None \<longleftrightarrow> closes = length files"
    if "closes \<le> length files" for closes
    using that wait_for_clients_counts [of "rb_refs (ap_reg priv)" "length files" closes] by (simp add: counts_ok_def)
  with ok show ?thesis by (auto simp: counts_ok_def reg_ok_def)
qed

theorem open_files_counted_witness:
  "\<exists>priv0 priv. file_step\<^sup>*\<^sup>* (priv0, []) (priv, [(Dma_File 9, O_RDWR)]) \<and>
     unat (fr_refcount (rb_refs (ap_reg priv))) = 2 \<and>
     wait_for_clients 0 (rb_refs (ap_reg priv)) = None \<and> wait_for_clients 1 (rb_refs (ap_reg priv)) \<noteq> None"
proof -
  obtain priv0 priv where s: "probed_board priv0" "file_step\<^sup>*\<^sup>* (priv0, []) (priv, [(Dma_File 9, O_RDWR)])"
    using demo_files by blast
  have "unat (fr_refcount (rb_refs (ap_reg priv))) = 2"
    "\<forall>closes \<le> 1. wait_for_clients closes (rb_refs (ap_reg priv)) \<noteq> None \<longleftrightarrow> closes = 1"
    using open_files_counted [OF s] by simp_all
  then have "wait_for_clients 0 (rb_refs (ap_reg priv)) = None" "wait_for_clients 1 (rb_refs (ap_reg priv)) \<noteq> None"
    by (metis zero_le zero_neq_one, metis order_refl)
  with \<open>unat _ = 2\<close> s(2) show ?thesis by blast
qed

end
