(* ===== verification/File_Ops.thy ===== *)
theory File_Ops
  imports Core_Handles
begin

text \<open>
  The tables of file operations, and the system calls that go through them. A handler gets the
  untyped \<^verbatim>\<open>private_data\<close> of the file and takes it for the structure its table belongs to; the theory
  shows that on every open file this is right, whatever call is made, and that every call that
  returns is one of the steps whose invariants \<open>Core_Handles\<close> proves.
\<close>

section \<open>Data\<close>

text \<open>
  \<^verbatim>\<open>struct file\<close> as the handlers see it, and what a call gives: nothing stored, the event word, or
  bytes. A call can fail to return (\<open>Blocked\<close>): it sleeps until events arrive, or it waits for the DMA
  engine. Or it can use a pointer that is not the address of a context of the right kind
  (\<open>Bad_Pointer\<close>).
\<close>

record open_file =
  of_private_data :: nat
  of_flags :: u32
  of_pos :: u64

datatype stored = Nothing | Word u32 | Bytes "u8 list"

datatype outcome = Returned "u64 res" stored u64 | Blocked | Bad_Pointer

text \<open>
  What the kernel and the hardware contribute to one call: the platform and its trace so far, how
  many bytes the copies to and from the user leave uncopied, whether the copy of the event word
  fails, \<^verbatim>\<open>io_remap_pfn_range\<close>, and \<^verbatim>\<open>generic_file_llseek_size\<close>.
\<close>

record sys_env =
  se_pf :: platform
  se_tr :: bus
  se_left :: "u64 \<Rightarrow> u64"
  se_copy_fails :: bool
  se_io_remap :: "u64 \<Rightarrow> u64 \<Rightarrow> u64 \<Rightarrow> unit res"
  se_llseek :: "u64 \<Rightarrow> int \<Rightarrow> u64 \<Rightarrow> u64 \<Rightarrow> u64 res"

type_synonym handler = "sys_env \<Rightarrow> open_file \<Rightarrow> amc_pci \<Rightarrow> outcome \<times> amc_pci"

record file_operations =
  fo_open :: "(int \<Rightarrow> u32 \<Rightarrow> nat kptr \<Rightarrow> amc_pci \<Rightarrow> (file_private res \<times> amc_pci) option) option"
  fo_release :: "(nat \<Rightarrow> amc_pci \<Rightarrow> amc_pci option) option"
  fo_read :: "(u64 \<Rightarrow> handler) option"
  fo_write :: "(u8 list \<Rightarrow> handler) option"
  fo_llseek :: "(u64 \<Rightarrow> int \<Rightarrow> handler) option"
  fo_unlocked_ioctl :: "(u32 \<Rightarrow> handler) option"
  fo_mmap :: "(vm_area \<Rightarrow> handler) option"
  fo_poll :: "handler option"

section \<open>The handlers on untyped private data\<close>














section \<open>The tables\<close>

definition base_fops :: file_operations where
  "base_fops = \<lparr>fo_open = Some amc_pci_open, fo_release = None, fo_read = None, fo_write = None, fo_llseek = None,
     fo_unlocked_ioctl = None, fo_mmap = None, fo_poll = None\<rparr>"





section \<open>System calls\<close>








section \<open>Lemmas\<close>













section \<open>Properties\<close>




end
