(* ===== verification/Memory_Content.thy ===== *)
theory Memory_Content
  imports Memory_Dev
begin

text \<open>
  What writes do to device memory. A memory file is specified as a list of bytes with a position;
  \<^verbatim>\<open>amc_pci_dma_write\<close> refines overwriting a part of that list, and leaves all memory outside the
  window alone. What a write does to memory is read off its trace. Writing a file from end to end and reading it again gives the data back.
\<close>

section \<open>Device memory\<close>

text \<open>
  The effect of a request that the engine carries out: \<open>n\<close> bytes go from the source to the
  destination. \<open>buffer\<close> is what the driver had put into the DMA buffer at bus address \<open>buffer_dma\<close>
  when it handed the buffer over to the engine (\<^verbatim>\<open>dma_sync_single_for_device\<close>); a request that
  does not start at that address leaves device memory as it is.
\<close>

definition engine_store :: "u64 \<Rightarrow> (u64 \<times> u64 \<times> u32) \<times> u8 list \<Rightarrow> (u64 \<Rightarrow> u8) \<Rightarrow> u64 \<Rightarrow> u8" where
  "engine_store buffer_dma = (\<lambda>((src, dst, n), buffer) mem a.
     if src = buffer_dma \<and> unat (a - dst) < unat n then buffer ! unat (a - dst) else mem a)"

definition device_after ::
    "u64 \<Rightarrow> ((u64 \<times> u64 \<times> u32) \<times> u8 list) list \<Rightarrow> (u64 \<Rightarrow> u8) \<Rightarrow> u64 \<Rightarrow> u8"
where
  "device_after buffer_dma requests mem = fold (engine_store buffer_dma) requests mem"

text \<open>
  The memory after an operation: the requests that it has added to the trace, each carried out with
  the buffer that the trace says was handed over for it. Nothing but the trace goes into it.
\<close>

definition memory_after :: "u64 \<Rightarrow> bus \<Rightarrow> bus \<Rightarrow> (u64 \<Rightarrow> u8) \<Rightarrow> u64 \<Rightarrow> u8" where
  "memory_after buffer_dma tr tr' mem = device_after buffer_dma (new_sent tr tr') mem"

section \<open>The specification: a file as a list of bytes\<close>

text \<open>The data of a write: the user's bytes, and zeros for those that could not be copied.\<close>

definition user_data :: "u8 list \<Rightarrow> u64 \<Rightarrow> u64 \<Rightarrow> u8 list" where
  "user_data user count left = take (unat count - unat left) user @ replicate (unat left) 0"

definition overwrite :: "nat \<Rightarrow> 'a list \<Rightarrow> 'a list \<Rightarrow> 'a list" where
  "overwrite p data content = take p content @ data @ drop (p + length data) content"

definition window_content :: "memory_context \<Rightarrow> (u64 \<Rightarrow> u8) \<Rightarrow> u8 list" where
  "window_content context mem = window_bytes mem context 0 (unat (mc_length context))"

definition windows_disjoint :: "memory_context \<Rightarrow> memory_context \<Rightarrow> bool" where
  "windows_disjoint c d \<longleftrightarrow>
     unat (mc_base c) + unat (mc_length c) \<le> unat (mc_base d) \<or>
     unat (mc_base d) + unat (mc_length d) \<le> unat (mc_base c)"

lemma length_overwrite: "p + length data \<le> length content \<Longrightarrow> length (overwrite p data content) = length content"
  by (simp add: overwrite_def)

lemma overwrite_Nil [simp]: "overwrite p [] content = content"
  by (simp add: overwrite_def)

lemma overwrite_append:
  "p + length (xs @ ys) \<le> length content \<Longrightarrow>
     overwrite (p + length xs) ys (overwrite p xs content) = overwrite p (xs @ ys) content"
  by (simp add: overwrite_def ac_simps)

lemma nth_overwrite:
  assumes "p + length data \<le> length content" and "i < length content"
  shows "overwrite p data content ! i = (if p \<le> i \<and> i < p + length data then data ! (i - p) else content ! i)"
  using assms by (auto simp: overwrite_def nth_append min_def)

lemma length_window_content [simp]: "length (window_content context mem) = unat (mc_length context)"
  by (simp add: window_content_def window_bytes_def)

lemma nth_window_content:
  "i < unat (mc_length context) \<Longrightarrow> window_content context mem ! i = mem (mc_base context + of_nat i)"
  by (simp add: window_content_def window_bytes_def)

section \<open>Lemmas\<close>

text \<open>Distances from the start of a transfer, for addresses that do not wrap.\<close>

lemma unat_diff_below:
  assumes "unat (a :: u64) < unat b" and "unat b + n \<le> 2 ^ 63"
  shows "n \<le> unat (a - b)"
proof -
  have "unat (a - b) = 2 ^ 64 + unat a - unat b"
    using assms(1) unat_u64_less [of b] by (simp add: unat_sub_if' )
  with assms show ?thesis by simp
qed

lemma engine_store_inside:
  assumes "unat dst + unat n \<le> 2 ^ 63"
  shows "engine_store b_dma ((b_dma, dst, n), b) mem a =
    (if unat dst \<le> unat a \<and> unat a < unat dst + unat n then b ! (unat a - unat dst) else mem a)"
proof (cases "unat dst \<le> unat a")
  case True
  then have "unat (a - dst) = unat a - unat dst" by (rule unat_sub_u64)
  with True show ?thesis by (auto simp: engine_store_def)
next
  case False
  then have "unat n \<le> unat (a - dst)" using assms by (intro unat_diff_below) simp_all
  with False show ?thesis by (simp add: engine_store_def)
qed

text \<open>What a successful write does to a byte of device memory.\<close>

lemma memory_after_nth:
  assumes "window_ok dma context" and "handlers_quiet pf"
    and "unat left \<le> unat count" and "unat count \<le> length user"
    and "amc_pci_dma_write pf context user count left (f_pos, dma, tr) = Some (Inr n, f_pos', dma', tr')"
  shows "unat f_pos + unat n \<le> unat (mc_length context) \<and> unat n \<le> unat count \<and>
    memory_after (dc_buffer_dma dma) tr tr' mem a =
      (if unat (mc_base context) + unat f_pos \<le> unat a \<and> unat a < unat (mc_base context) + unat f_pos + unat n
       then user_data user count left ! (unat a - (unat (mc_base context) + unat f_pos)) else mem a)"
  using assms(5)
proof (cases rule: dma_write_elim)
  case early
  then show ?thesis by (auto simp: memory_after_def device_after_def)
next
  case (transfer dma1)
  let ?b = "copy_from_user user (unat count) (unat left) (dc_buffer dma)"
  have bl: "unat (mc_base context) + unat (mc_length context) < 2 ^ 63" and valid: "dma_valid dma"
    using assms(1) by (auto simp: window_ok_def)
  have op: "n = min count (dc_max_transfer dma) \<and>
      new_sent tr tr' = [((dc_buffer_dma dma, mc_base context + f_pos, ucast n), ?b)]"
    using dma_operation_ok [OF transfer(4) assms(2)] by (simp add: Let_def dma_ends_def dma_memory_lock_def)
  note m = max_transfer_request [OF valid, of count, folded conjunct1 [OF op]]
  have "unat count \<le> unat (mc_length context) - unat f_pos"
    using transfer(1,2) by (simp add: word_le_nat_alt word_less_nat_alt unat_sub_u64)
  then have fits: "unat f_pos + unat n \<le> unat (mc_length context)"
    using m transfer(1) unfolding word_less_nat_alt by linarith
  have start: "unat (mc_base context + f_pos) = unat (mc_base context) + unat f_pos"
    using bl transfer(1) by (intro unat_add_u64) (simp add: word_less_nat_alt)
  have "unat count \<le> length (dc_buffer dma)"
    using valid transfer(3) by (simp add: dma_valid_def word_le_nat_alt)
  then have "take (unat count) ?b = user_data user count left"
    using assms(3,4) by (simp add: copy_from_user_length(2) user_data_def)
  then have data: "?b ! i = user_data user count left ! i" if "i < unat n" for i
    using that m by (metis nth_take order_less_le_trans)
  have "memory_after (dc_buffer_dma dma) tr tr' mem a =
      engine_store (dc_buffer_dma dma) ((dc_buffer_dma dma, mc_base context + f_pos, ucast n), ?b) mem a"
    using op by (simp add: memory_after_def device_after_def)
  also have "\<dots> = (if unat (mc_base context) + unat f_pos \<le> unat a \<and>
      unat a < unat (mc_base context) + unat f_pos + unat n
      then user_data user count left ! (unat a - (unat (mc_base context) + unat f_pos)) else mem a)"
    using m start fits bl by (subst engine_store_inside) (auto simp: data)
  finally show ?thesis using fits m by blast
qed

lemma length_user_data: "left \<le> count \<Longrightarrow> unat count \<le> length user \<Longrightarrow> length (user_data user count left) = unat count"
  by (simp add: user_data_def word_le_nat_alt)

lemma unat_window_address:
  assumes "unat (mc_base context) + unat (mc_length context) < 2 ^ 63" and "i < unat (mc_length context)"
  shows "unat (mc_base context + of_nat i) = unat (mc_base context) + i"
proof -
  have "unat (of_nat i :: u64) = i" using assms by (simp add: unat_of_nat take_bit_eq_mod)
  then show ?thesis using assms by (subst unat_add_u64) simp_all
qed

text \<open>What it does to the file, as a list of bytes.\<close>

lemma memory_write_content:
  assumes "window_ok dma context" and "handlers_quiet pf"
    and "left \<le> count" and "unat count \<le> length user"
    and "amc_pci_dma_write pf context user count left (f_pos, dma, tr) = Some (Inr n, f_pos', dma', tr')"
  shows "window_content context (memory_after (dc_buffer_dma dma) tr tr' mem) =
      overwrite (unat f_pos) (take (unat n) (user_data user count left)) (window_content context mem)"
    (is "window_content context ?mem = ?content")
proof (rule nth_equalityI)
  have left: "unat left \<le> unat count" using assms(3) by (simp add: word_le_nat_alt)
  note byte = memory_after_nth [OF assms(1,2) left assms(4,5)]
  have len: "length (take (unat n) (user_data user count left)) = unat n"
    using byte length_user_data [OF assms(3,4)] by simp
  have bl: "unat (mc_base context) + unat (mc_length context) < 2 ^ 63" using assms(1) by (simp add: window_ok_def)
  show "length (window_content context ?mem) = length ?content"
    using byte len by (simp add: length_overwrite)
  fix i assume "i < length (window_content context ?mem)"
  then have i: "i < unat (mc_length context)" by simp
  have "?mem (mc_base context + of_nat i) = (if unat f_pos \<le> i \<and> i < unat f_pos + unat n
      then user_data user count left ! (i - unat f_pos) else mem (mc_base context + of_nat i))"
    using byte [of mem "mc_base context + of_nat i"] unat_window_address [OF bl i] by auto
  then show "window_content context ?mem ! i = ?content ! i"
    using i byte len by (subst nth_overwrite) (auto simp: nth_window_content)
qed

section \<open>A file written piece by piece\<close>

text \<open>
  A device file as a program that writes it sees it: a write takes a nonempty part of the data, in
  units of the file's granule, puts it at the position and moves the position behind it. Then
  writing on until no data is left puts all of it into the file.
\<close>

locale chunked_store =
  fixes ok :: "'s \<Rightarrow> bool"
    and pos :: "'s \<Rightarrow> nat"
    and content :: "'s \<Rightarrow> u8 list"
    and granule :: "'s \<Rightarrow> nat"
    and put :: "'s \<Rightarrow> u8 list \<Rightarrow> (nat \<times> 's) option"
  assumes write_chunk: "ok s \<Longrightarrow> data \<noteq> [] \<Longrightarrow> granule s dvd length data \<Longrightarrow>
    pos s + length data \<le> length (content s) \<Longrightarrow>
    \<exists>k s'. 0 < k \<and> k \<le> length data \<and> granule s dvd k \<and> put s data = Some (k, s') \<and> ok s' \<and>
      granule s' = granule s \<and> content s' = overwrite (pos s) (take k data) (content s) \<and>
      pos s' = (if pos s + k = length (content s) then 0 else pos s + k)"
begin

fun write_all :: "nat \<Rightarrow> u8 list \<Rightarrow> 's \<Rightarrow> 's option" where
  "write_all 0 data s = (if data = [] then Some s else None)"
| "write_all (Suc fuel) data s =
     (if data = [] then Some s
      else case put s data of
        None \<Rightarrow> None
      | Some (k, s') \<Rightarrow> write_all fuel (drop k data) s')"

lemma write_all_content:
  "ok s \<Longrightarrow> granule s dvd length data \<Longrightarrow> pos s + length data \<le> length (content s) \<Longrightarrow> length data \<le> fuel \<Longrightarrow>
     \<exists>s'. write_all fuel data s = Some s' \<and> ok s' \<and> content s' = overwrite (pos s) data (content s)"
proof (induction fuel arbitrary: data s)
  case 0
  then show ?case by simp
next
  case (Suc fuel)
  show ?case
  proof (cases "data = []")
    case True
    with Suc.prems show ?thesis by simp
  next
    case False
    from write_chunk [OF Suc.prems(1) False Suc.prems(2,3)] obtain k s' where
      k: "0 < k" "k \<le> length data" "granule s dvd k" and wr: "put s data = Some (k, s')" and s': "ok s'"
      "granule s' = granule s" "content s' = overwrite (pos s) (take k data) (content s)"
      "pos s' = (if pos s + k = length (content s) then 0 else pos s + k)" by blast
    have len: "length (content s') = length (content s)" using s'(3) k Suc.prems(3) by (simp add: length_overwrite)
    show ?thesis
    proof (cases "drop k data = []")
      case True
      then have "write_all fuel (drop k data) s' = Some s'" by (cases fuel) simp_all
      with True s' wr False k show ?thesis by simp
    next
      case rest: False
      then have pos: "pos s' = pos s + k" using s'(4) k Suc.prems(3) by auto
      moreover have "granule s' dvd length (drop k data)" using s'(2) k Suc.prems(2) by (simp add: dvd_diff_nat)
      moreover have "length (drop k data) \<le> fuel" "pos s + k + length (drop k data) \<le> length (content s')"
        using k Suc.prems(3,4) len by auto
      ultimately obtain s'' where "write_all fuel (drop k data) s' = Some s''" "ok s''"
        "content s'' = overwrite (pos s + k) (drop k data) (content s')"
        using Suc.IH [OF s'(1), of "drop k data"] by auto
      moreover have "overwrite (pos s + k) (drop k data) (content s') = overwrite (pos s) data (content s)"
        using overwrite_append [of "pos s" "take k data" "drop k data" "content s"] k Suc.prems(3) s'(3)
        by (simp add: min_absorb2)
      ultimately show ?thesis using wr False by simp
    qed
  qed
qed

end

text \<open>
  A writer: a file on a platform, the state of device memory, and the largest count of one write.
\<close>

record writer =
  wr_pf :: platform
  wr_mem :: "u64 \<Rightarrow> u8"
  wr_context :: memory_context
  wr_count :: u64
  wr_pos :: u64
  wr_dma :: dma_control
  wr_tr :: bus

definition writer_ok :: "writer \<Rightarrow> bool" where
  "writer_ok s \<longleftrightarrow>
     (let pf = wr_pf s; dma = wr_dma s; context = wr_context s in
      engine_works pf \<and> handlers_quiet pf \<and> buffer_stable pf \<and> window_ok dma context \<and>
      wr_count s \<noteq> 0 \<and> wr_count s \<le> dc_buffer_size dma \<and> dc_max_transfer dma \<noteq> 0 \<and>
      IS_ALIGNED (wr_count s) (dc_alignment dma) \<and>
      IS_ALIGNED (mc_base context) (dc_alignment dma) \<and> IS_ALIGNED (mc_length context) (dc_alignment dma) \<and>
      IS_ALIGNED (dc_buffer_dma dma) (dc_alignment dma) \<and>
      IS_ALIGNED (wr_pos s) (dc_alignment dma) \<and> wr_pos s < mc_length context)"

text \<open>One write of at most \<open>wr_count\<close> bytes of the data; everything can be copied from the user.\<close>

definition writer_write :: "writer \<Rightarrow> u8 list \<Rightarrow> (nat \<times> writer) option" where
  "writer_write s data =
     (let user = take (unat (wr_count s)) data;
          count = of_nat (length user)
      in case amc_pci_dma_write (wr_pf s) (wr_context s) user count 0 (wr_pos s, wr_dma s, wr_tr s) of
           Some (Inr n, f_pos, dma, tr) \<Rightarrow>
             Some (unat n, s\<lparr>wr_mem := memory_after (dc_buffer_dma (wr_dma s)) (wr_tr s) tr (wr_mem s),
                            wr_pos := f_pos, wr_dma := dma, wr_tr := tr\<rparr>)
         | _ \<Rightarrow> None)"

fun write_whole :: "nat \<Rightarrow> u8 list \<Rightarrow> writer \<Rightarrow> writer option" where
  "write_whole 0 data s = (if data = [] then Some s else None)"
| "write_whole (Suc fuel) data s =
     (if data = [] then Some s
      else case writer_write s data of
        None \<Rightarrow> None
      | Some (k, s') \<Rightarrow> write_whole fuel (drop k data) s')"

text \<open>One write of the writer.\<close>

lemma writer_step:
  assumes ok: "writer_ok s" and "data \<noteq> []" and "unat (dc_alignment (wr_dma s)) dvd length data"
    and "unat (wr_pos s) + length data \<le> unat (mc_length (wr_context s))"
  defines "user \<equiv> take (unat (wr_count s)) data"
  shows "\<exists>n dma' tr'. amc_pci_dma_write (wr_pf s) (wr_context s) user (of_nat (length user)) 0 (wr_pos s, wr_dma s, wr_tr s) =
      Some (Inr n, advance_pos (wr_context s) (wr_pos s) n, dma', tr') \<and>
    0 < unat n \<and> unat n \<le> length user \<and> IS_ALIGNED n (dc_alignment (wr_dma s)) \<and>
    window_ok dma' (wr_context s) \<and> dc_alignment dma' = dc_alignment (wr_dma s) \<and>
    dc_buffer_dma dma' = dc_buffer_dma (wr_dma s) \<and> dc_max_transfer dma' = dc_max_transfer (wr_dma s) \<and>
    dc_buffer_size dma' = dc_buffer_size (wr_dma s)"
proof -
  let ?dma = "wr_dma s" and ?c = "wr_context s" and ?count = "of_nat (length user) :: u64"
  have hyps: "engine_works (wr_pf s)" "buffer_stable (wr_pf s)" "window_ok ?dma ?c"
    "IS_ALIGNED (mc_base ?c) (dc_alignment ?dma)" "IS_ALIGNED (wr_pos s) (dc_alignment ?dma)"
    "IS_ALIGNED (dc_buffer_dma ?dma) (dc_alignment ?dma)" "dc_max_transfer ?dma \<noteq> 0" "wr_pos s < mc_length ?c"
    "wr_count s \<le> dc_buffer_size ?dma" "wr_count s \<noteq> 0" "IS_ALIGNED (wr_count s) (dc_alignment ?dma)" "dma_valid ?dma"
    using ok by (auto simp: writer_ok_def Let_def window_ok_def)
  obtain k where k: "k \<le> 31" "dc_alignment ?dma = 2 ^ k" using hyps(3) by (auto simp: window_ok_def)
  have len: "length user = min (length data) (unat (wr_count s))" by (simp add: user_def)
  then have "length user \<le> unat (wr_count s)" by simp
  then have count: "unat ?count = length user"
    using unat_u64_less [of "wr_count s"] by (simp add: unat_of_nat take_bit_eq_mod)
  have pos: "0 < length user" using assms(2) hyps(10) len by (simp add: unat_gt_0)
  have "2 ^ k dvd length user" unfolding len
    using assms(3) hyps(11) k(1) by (auto simp: min_def k(2) IS_ALIGNED_unat unat_pow2)
  then have count_al: "IS_ALIGNED ?count (dc_alignment ?dma)" by (simp add: k IS_ALIGNED_unat count)
  have fits: "unat ?count \<le> unat (mc_length ?c) - unat (wr_pos s)" "?count \<le> dc_buffer_size ?dma"
    using assms(4) count len hyps(9) by (auto simp: word_le_nat_alt)
  let ?b = "copy_from_user user (unat ?count) (unat (0 :: u64)) (dc_buffer ?dma)" and ?n = "min ?count (dc_max_transfer ?dma)"
  have filled: "window_ok (?dma\<lparr>dc_buffer := ?b\<rparr>) ?c"
    using window_ok_filled [OF hyps(3) fits(2), of 0 user] count by simp
  have n_al: "IS_ALIGNED ?n (dc_alignment ?dma)"
    using count_al hyps(12) by (intro min_aligned) (auto simp: dma_valid_def)
  have "unat (mc_base ?c + wr_pos s) = unat (mc_base ?c) + unat (wr_pos s)"
    using hyps(3,8) by (intro unat_add_u64) (simp add: window_ok_def word_less_nat_alt)
  then have start_al: "IS_ALIGNED (mc_base ?c + wr_pos s) (dc_alignment ?dma)"
    using hyps(4,5) by (simp add: k IS_ALIGNED_unat)
  obtain dma1 tr' where op: "dma_operation_unlocked (wr_pf s) (dma_memory_lock (?dma\<lparr>dc_buffer := ?b\<rparr>))
      (mc_base ?c + wr_pos s) ?count DMA_TO_DEVICE (wr_tr s) = Some (Inr ?n, dma1, tr')"
    using engine_works_transfer [OF hyps(1), of DMA_TO_DEVICE "mc_base ?c + wr_pos s"
        "dma_memory_lock (?dma\<lparr>dc_buffer := ?b\<rparr>)" ?count "wr_tr s"]
      start_al hyps(6) n_al by auto
  note m = max_transfer_request [OF hyps(12), of ?count]
  have "?n \<noteq> 0" using pos count hyps(7) by (auto simp: min_def)
  then have n: "0 < sint ?n" "0 < unat ?n" using m by (simp_all add: sint_pos_u64 unat_gt_0)
  have "unat ?count < 2 ^ 63" using fits(1) hyps(3) by (auto simp: window_ok_def)
  then have c: "0 < sint ?count" using pos count by (subst sint_pos_u64) auto
  have gt: "\<not> ?count > mc_length ?c - wr_pos s" "\<not> ?count > dma_buffer_size ?dma"
    using fits hyps(8) by (simp_all add: word_le_nat_alt word_less_nat_alt unat_sub_u64 dma_buffer_size_def)
  have swap: "(dma_memory_lock ?dma)\<lparr>dc_buffer := b\<rparr> = dma_memory_lock (?dma\<lparr>dc_buffer := b\<rparr>)" for b
    by (simp add: dma_memory_lock_def)
  have wr: "amc_pci_dma_write (wr_pf s) ?c user ?count 0 (wr_pos s, ?dma, wr_tr s) =
      Some (Inr ?n, advance_pos ?c (wr_pos s) ?n, dma_memory_unlock dma1, tr')"
    using hyps(8) gt c n(1) op by (simp add: amc_pci_dma_write_def Let_def dma_get_buffer_def swap less_imp_neq not_less_iff_gr_or_eq)
  have "dc_buffer_size dma1 = dc_buffer_size ?dma"
    using dma_operation_frame [OF op] by auto
  then show ?thesis
    using wr n(2) m count n_al dma_operation_window_ok [OF filled hyps(2) op]
    by (intro exI [of _ ?n] exI [of _ "dma_memory_unlock dma1"] exI [of _ tr']) (auto simp: dma_memory_unlock_def)
qed

interpretation mem_store: chunked_store writer_ok "\<lambda>s. unat (wr_pos s)"
  "\<lambda>s. window_content (wr_context s) (wr_mem s)" "\<lambda>s. unat (dc_alignment (wr_dma s))" writer_write
proof (unfold_locales, goal_cases)
  case (1 s data)
  let ?user = "take (unat (wr_count s)) data"
  let ?count = "of_nat (length ?user) :: u64"
  have fit: "unat (wr_pos s) + length data \<le> unat (mc_length (wr_context s))" using 1(4) by simp
  from writer_step [OF 1(1-3) fit] obtain n dma' tr' where
    wr: "amc_pci_dma_write (wr_pf s) (wr_context s) ?user ?count 0 (wr_pos s, wr_dma s, wr_tr s) =
      Some (Inr n, advance_pos (wr_context s) (wr_pos s) n, dma', tr')"
    and n: "0 < unat n" "unat n \<le> length ?user" "IS_ALIGNED n (dc_alignment (wr_dma s))"
    and frame: "window_ok dma' (wr_context s)" "dc_alignment dma' = dc_alignment (wr_dma s)"
      "dc_buffer_dma dma' = dc_buffer_dma (wr_dma s)" "dc_max_transfer dma' = dc_max_transfer (wr_dma s)"
      "dc_buffer_size dma' = dc_buffer_size (wr_dma s)"
    by blast
  have ok: "window_ok (wr_dma s) (wr_context s)" "handlers_quiet (wr_pf s)" "wr_pos s < mc_length (wr_context s)"
    "IS_ALIGNED (wr_pos s) (dc_alignment (wr_dma s))"
    using 1(1) by (simp_all add: writer_ok_def Let_def)
  have count: "unat ?count = length ?user" using unat_u64_less [of "wr_count s"]
    by (simp add: unat_of_nat take_bit_eq_mod min_def)
  let ?s = "s\<lparr>wr_mem := memory_after (dc_buffer_dma (wr_dma s)) (wr_tr s) tr' (wr_mem s),
    wr_pos := advance_pos (wr_context s) (wr_pos s) n, wr_dma := dma', wr_tr := tr'\<rparr>"
  have put: "writer_write s data = Some (unat n, ?s)" unfolding writer_write_def Let_def wr by simp
  have content: "window_content (wr_context ?s) (wr_mem ?s) =
      overwrite (unat (wr_pos s)) (take (unat n) data) (window_content (wr_context s) (wr_mem s))"
    using memory_write_content [OF ok(1,2) _ _ wr] n(2) count by (simp add: user_data_def min_def)
  have fit_n: "unat (wr_pos s) + unat n \<le> unat (mc_length (wr_context s))" using n(2) fit by simp
  note adv = advance_pos_nat [OF fit_n]
  obtain k where k: "k \<le> 31" "dc_alignment (wr_dma s) = 2 ^ k" using ok(1) by (auto simp: window_ok_def)
  have "IS_ALIGNED (wr_pos ?s) (dc_alignment (wr_dma s))" using ok(4) n(3) adv by (simp add: k IS_ALIGNED_unat)
  moreover have "wr_pos ?s < mc_length (wr_context s)"
    using adv fit_n ok(3) by (auto simp: word_less_nat_alt)
  ultimately have "writer_ok ?s" using 1(1) frame by (auto simp: writer_ok_def Let_def)
  moreover have "unat (dc_alignment (wr_dma s)) dvd unat n" using n(3) k by (simp add: IS_ALIGNED_unat unat_pow2)
  ultimately show ?case
    using put content n adv frame by (intro exI [of _ "unat n"] exI [of _ ?s]) simp
qed

lemma write_whole_eq: "mem_store.write_all fuel data s = write_whole fuel data s"
  by (induction fuel arbitrary: data s) (auto split: option.splits prod.splits)

lemma writer_write_context: "writer_write s data = Some (k, s') \<Longrightarrow> wr_context s' = wr_context s"
  by (auto simp: writer_write_def Let_def split: option.splits sum.splits prod.splits)

lemma write_whole_context: "write_whole fuel data s = Some s' \<Longrightarrow> wr_context s' = wr_context s"
  by (induction fuel arbitrary: data s)
    (auto dest: writer_write_context split: if_splits option.splits prod.splits)

lemma reader_content_window: "reader_content r = window_content (rd_context r) (rd_mem r)"
  by (simp add: reader_content_def window_content_def)

section \<open>Properties\<close>

text \<open>
  C13: A write overwrites a part of the file. The file is specified as the list of the bytes in its
  window. Device memory after the write is what the requests in its trace make of it, each with the
  buffer that the driver handed over for it. A write that reports \<open>n\<close> bytes puts the first \<open>n\<close> bytes of the user's data (zeros for
  what could not be copied) into that list at the file position and changes nothing else: neither
  any other byte of device memory nor the contents of a file whose window does not overlap.
\<close>

theorem memory_write_refines:
  assumes "window_ok dma context" and "handlers_quiet pf"
    and "left \<le> count" and "unat count \<le> length user"
    and "amc_pci_dma_write pf context user count left (f_pos, dma, tr) = Some (Inr n, f_pos', dma', tr')"
  shows "window_content context (memory_after (dc_buffer_dma dma) tr tr' mem) =
      overwrite (unat f_pos) (take (unat n) (user_data user count left)) (window_content context mem) \<and>
    (\<forall>a. unat a < unat (mc_base context) \<or> unat (mc_base context) + unat (mc_length context) \<le> unat a \<longrightarrow>
       memory_after (dc_buffer_dma dma) tr tr' mem a = mem a) \<and>
    (\<forall>other. windows_disjoint context other \<and> window_ok dma other \<longrightarrow>
       window_content other (memory_after (dc_buffer_dma dma) tr tr' mem) = window_content other mem)"
proof -
  let ?mem = "memory_after (dc_buffer_dma dma) tr tr' mem"
  have "unat left \<le> unat count" using assms(3) by (simp add: word_le_nat_alt)
  note byte = memory_after_nth [OF assms(1,2) this assms(4,5)]
  have outside: "?mem a = mem a"
    if "unat a < unat (mc_base context) \<or> unat (mc_base context) + unat (mc_length context) \<le> unat a" for a
    using byte [of mem a] that by auto
  have "window_content other ?mem = window_content other mem"
    if "windows_disjoint context other" "window_ok dma other" for other
  proof (rule nth_equalityI)
    fix i assume "i < length (window_content other ?mem)"
    then have i: "i < unat (mc_length other)" by simp
    have "unat (mc_base other) + unat (mc_length other) < 2 ^ 63" using that(2) by (simp add: window_ok_def)
    from unat_window_address [OF this i] have "?mem (mc_base other + of_nat i) = mem (mc_base other + of_nat i)"
      using that(1) i by (intro outside) (auto simp: windows_disjoint_def)
    then show "window_content other ?mem ! i = window_content other mem ! i" using i by (simp add: nth_window_content)
  qed simp
  with outside memory_write_content [OF assms] show ?thesis by blast
qed

text \<open>A write of 64 bytes to the example file, of which 32 could not be copied; and a file behind it.\<close>

definition other_window :: memory_context where
  "other_window = \<lparr>mc_base = 0x80003000, mc_length = 0x1000\<rparr>"

theorem memory_write_refines_witness:
  "\<exists>f_pos' dma' tr'. amc_pci_dma_write (copying_platform demo_mem 0x10000) demo_window (replicate 64 7) 64 32
     (0x100, demo_control, []) = Some (Inr 64, f_pos', dma', tr') \<and>
     window_content demo_window (memory_after 0x10000 [] tr' demo_mem) =
       overwrite 0x100 (replicate 32 7 @ replicate 32 0) (window_content demo_window demo_mem) \<and>
     window_content other_window (memory_after 0x10000 [] tr' demo_mem) =
       window_content other_window demo_mem"
proof -
  obtain f_pos' dma' tr' where wr: "amc_pci_dma_write (copying_platform demo_mem 0x10000) demo_window
      (replicate 64 7) 64 32 (0x100, demo_control, []) = Some (Inr 64, f_pos', dma', tr')"
    using partial_copy_reported_whole by blast
  have "windows_disjoint demo_window other_window" "window_ok demo_control other_window"
    using demo_window_ok by (simp_all add: windows_disjoint_def window_ok_def demo_window_def other_window_def)
  with memory_write_refines [OF demo_window_ok copying_platform_facts(2) _ _ wr, of demo_mem] wr
  show ?thesis by (simp add: user_data_def del: replicate.simps)
qed

text \<open>
  C11: Writing a file and reading it back. On a working engine, for a window, a buffer, a position
  and a count that are aligned, data of any aligned length that fits in the window is written
  completely, in at most as many writes as it has bytes, whatever part of it each write takes. Each
  request moves what the buffer held when the driver handed it over.
  The file then is the old one with the data at the position; and every reader of the same window
  in the device memory left behind, with any positive count per read, gets exactly that.
\<close>

theorem memory_write_then_read:
  assumes "writer_ok s" and "unat (dc_alignment (wr_dma s)) dvd length data"
    and "unat (wr_pos s) + length data \<le> unat (mc_length (wr_context s))" and "length data \<le> fuel"
  shows "\<exists>s'. write_whole fuel data s = Some s' \<and> writer_ok s' \<and>
    window_content (wr_context s) (wr_mem s') =
      overwrite (unat (wr_pos s)) data (window_content (wr_context s) (wr_mem s)) \<and>
    (\<forall>r. reader_ok r \<and> rd_context r = wr_context s \<and> rd_mem r = wr_mem s' \<and> rd_pos r = 0 \<longrightarrow>
       read_whole (unat (mc_length (wr_context s))) r =
         Some (overwrite (unat (wr_pos s)) data (window_content (wr_context s) (wr_mem s))))"
proof -
  obtain s' where s': "write_whole fuel data s = Some s'" "writer_ok s'"
    "window_content (wr_context s') (wr_mem s') =
       overwrite (unat (wr_pos s)) data (window_content (wr_context s) (wr_mem s))"
    using mem_store.write_all_content [OF assms(1,2) _ assms(4)] assms(3) by (auto simp: write_whole_eq)
  have "read_whole (unat (mc_length (wr_context s))) r = Some (window_content (wr_context s) (wr_mem s'))"
    if "reader_ok r" "rd_context r = wr_context s" "rd_mem r = wr_mem s'" "rd_pos r = 0" for r
    using mem_file.read_all_content [OF that(1), of "unat (mc_length (wr_context s))"] that
    by (simp add: read_whole_eq reader_content_window)
  with s' write_whole_context [OF s'(1)] show ?thesis by auto
qed

definition demo_writer :: writer where
  "demo_writer = \<lparr>wr_pf = copying_platform demo_mem 0x10000, wr_mem = demo_mem, wr_context = demo_window,
     wr_count = 0x800, wr_pos = 0, wr_dma = demo_control, wr_tr = []\<rparr>"

lemma demo_writer_ok: "writer_ok demo_writer"
  using demo_reader_ok demo_window_ok
  by (simp add: reader_ok_def writer_ok_def Let_def demo_reader_def demo_writer_def demo_window_def IS_ALIGNED_def)

lemma copying_reader_ok:
  "reader_ok (demo_reader\<lparr>rd_pf := copying_platform mem 0x10000, rd_mem := mem\<rparr>)"
proof -
  have "engine_works (copying_platform mem 0x10000)"
    by (simp add: engine_works_def copying_platform_def CDMASR_Idle_def dma_error_bits_def
        CDMASR_DMADecErr_def CDMASR_DMASlvErr_def CDMASR_DMAIntErr_def)
  then show ?thesis
    using demo_reader_ok copying_platform_facts [of mem "0x10000"]
    by (simp add: reader_ok_def Let_def demo_reader_def)
qed

theorem memory_write_then_read_witness:
  "\<exists>s'. write_whole 0x3000 (replicate 0x3000 7) demo_writer = Some s' \<and>
     read_whole 0x3000 (demo_reader\<lparr>rd_pf := copying_platform (wr_mem s') 0x10000, rd_mem := wr_mem s'\<rparr>) =
       Some (replicate 0x3000 7)"
proof -
  have facts: "unat (dc_alignment (wr_dma demo_writer)) dvd length (replicate 0x3000 (7 :: u8))"
    "unat (wr_pos demo_writer) = 0" "unat (mc_length (wr_context demo_writer)) = 0x3000"
    "wr_context demo_writer = demo_window"
    by (simp_all add: demo_writer_def demo_window_def del: replicate.simps)
  have whole: "overwrite 0 (replicate 0x3000 7) (window_content demo_window demo_mem) = replicate 0x3000 (7 :: u8)"
    by (simp add: overwrite_def demo_window_def del: replicate.simps)
  from memory_write_then_read [OF demo_writer_ok facts(1), of "0x3000"] facts whole
  obtain s' where s': "write_whole 0x3000 (replicate 0x3000 7) demo_writer = Some s'"
    "\<forall>r. reader_ok r \<and> rd_context r = demo_window \<and> rd_mem r = wr_mem s' \<and> rd_pos r = 0 \<longrightarrow>
       read_whole 0x3000 r = Some (replicate 0x3000 7)"
    by (auto simp: demo_writer_def simp del: replicate.simps)
  from s'(2) [rule_format, of "demo_reader\<lparr>rd_pf := copying_platform (wr_mem s') 0x10000, rd_mem := wr_mem s'\<rparr>"] s'(1)
  show ?thesis using copying_reader_ok [of "wr_mem s'"] by (auto simp: demo_reader_def simp del: replicate.simps)
qed

end
