(* ===== verification/Event_Race.thy ===== *)
theory Event_Race
  imports Registers
begin

text \<open>
  Waiting for events against interrupts. \<open>Interrupts\<close> takes \<^verbatim>\<open>event_interrupt\<close> as one step; here its
  loop over the readers, the blocking read and poll run as separate agents, in every order in which
  their single accesses can follow each other, for any number of processes, several on one file
  too. The theory shows that no event and no wake-up is lost between the test and the sleep.
\<close>

section \<open>The agents\<close>

text \<open>
  Where a process is in a call. A blocking read, as \<^verbatim>\<open>wait_event_interruptible\<close> expands: before the
  first evaluation of the condition, before the process enters the wait queue, before the next
  evaluation, asleep. A poll: before \<^verbatim>\<open>poll_wait\<close>, before the test, asleep in the kernel's poll loop.
\<close>

datatype call_phase = No_Call | Read_First | Read_Prepare | Read_Check | Read_Asleep
  | Poll_Register | Poll_Check | Poll_Asleep

text \<open>
  Where the handler is in \<^verbatim>\<open>event_interrupt\<close>: \<open>Posting r events\<close> is about to add the events for reader
  \<open>r\<close>, or to wake the queue once all readers have them.
\<close>

datatype post_phase = No_Post | Posting nat u32

datatype call_result = Got u32 | Poll_Ready u32 | Interrupted

text \<open>
  The wait queue holds the processes that a wake-up reaches; a process that was woken since it
  entered does not go to sleep. \<open>es_posts\<close> and \<open>es_results\<close> record what was posted for which reader,
  and what the calls have returned.
\<close>

record event_sys =
  es_control :: interrupt_control
  es_context :: "nat \<Rightarrow> register_context"
  es_phase :: "nat \<Rightarrow> call_phase"
  es_queue :: "nat set"
  es_woken :: "nat set"
  es_isr :: post_phase
  es_posts :: "(nat \<times> u32) list"
  es_results :: "(nat \<times> call_result) list"

definition interrupts_wait_queue :: "event_sys \<Rightarrow> nat set" where
  "interrupts_wait_queue s = es_queue s"

definition es_reader :: "event_sys \<Rightarrow> nat \<Rightarrow> nat" where
  "es_reader s p = rc_reader_number (es_context s p)"

definition to_phase :: "nat \<Rightarrow> call_phase \<Rightarrow> event_sys \<Rightarrow> event_sys" where
  "to_phase p ph s = s\<lparr>es_phase := (es_phase s)(p := ph)\<rparr>"

text \<open>Entering the queue, for a read and for a poll; returning from a call leaves it.\<close>

definition enqueue :: "nat \<Rightarrow> call_phase \<Rightarrow> event_sys \<Rightarrow> event_sys" where
  "enqueue p ph s =
     to_phase p ph (s\<lparr>es_queue := insert p (interrupts_wait_queue s), es_woken := es_woken s - {p}\<rparr>)"

definition finish_call :: "nat \<Rightarrow> call_result \<Rightarrow> event_sys \<Rightarrow> event_sys" where
  "finish_call p res s =
     to_phase p No_Call (s\<lparr>es_queue := es_queue s - {p}, es_woken := es_woken s - {p},
       es_results := es_results s @ [(p, res)]\<rparr>)"

text \<open>One evaluation of the condition of the read, with its side effect.\<close>

definition try_events :: "nat \<Rightarrow> call_phase \<Rightarrow> event_sys \<Rightarrow> event_sys" where
  "try_events p ph s =
     (let (events, control) = xchg_events (es_reader s p) (es_control s);
          s = s\<lparr>es_control := control\<rparr>
      in if events \<noteq> 0 then finish_call p (Got events) s else to_phase p ph s)"

text \<open>The next states for each agent.\<close>

definition read_steps :: "nat \<Rightarrow> event_sys \<Rightarrow> event_sys list" where
  "read_steps p s =
     (case es_phase s p of
        No_Call \<Rightarrow> [to_phase p Read_First s]
      | Read_First \<Rightarrow> [try_events p Read_Prepare s]
      | Read_Prepare \<Rightarrow> [enqueue p Read_Check s]
      | Read_Check \<Rightarrow> [try_events p Read_Asleep s]
      | Read_Asleep \<Rightarrow> if p \<in> es_woken s then [to_phase p Read_Prepare s] else []
      | _ \<Rightarrow> [])"

definition poll_steps :: "nat \<Rightarrow> event_sys \<Rightarrow> event_sys list" where
  "poll_steps p s =
     (case es_phase s p of
        No_Call \<Rightarrow> [to_phase p Poll_Register s]
      | Poll_Register \<Rightarrow> [enqueue p Poll_Check s]
      | Poll_Check \<Rightarrow>
          (let m = amc_pci_reg_poll (es_context s p) (es_control s)
           in if m \<noteq> 0 then [finish_call p (Poll_Ready m) s] else [to_phase p Poll_Asleep s])
      | Poll_Asleep \<Rightarrow>
          if p \<in> es_woken s then [to_phase p Poll_Check (s\<lparr>es_woken := es_woken s - {p}\<rparr>)] else []
      | _ \<Rightarrow> [])"

text \<open>A signal, or the time limit of a poll, ends a call that would sleep.\<close>

definition leave_steps :: "nat \<Rightarrow> event_sys \<Rightarrow> event_sys list" where
  "leave_steps p s =
     (if es_phase s p = Read_Asleep \<or> es_phase s p = Poll_Asleep then [finish_call p Interrupted s] else [])"

text \<open>
  \<^verbatim>\<open>wake_up_all\<close> takes the entries of reads off the queue; those of polls stay until the poll
  returns.
\<close>

definition wake_up_all :: "event_sys \<Rightarrow> event_sys" where
  "wake_up_all s =
     s\<lparr>es_woken := es_woken s \<union> es_queue s,
       es_queue := {p \<in> es_queue s. es_phase s p = Poll_Check \<or> es_phase s p = Poll_Asleep},
       es_control := (es_control s)\<lparr>ic_wakeups := ic_wakeups (es_control s) + 1\<rparr>\<rparr>"

definition post_steps :: "u32 \<Rightarrow> event_sys \<Rightarrow> event_sys list" where
  "post_steps user_isr s =
     (case es_isr s of
        No_Post \<Rightarrow> if user_isr \<noteq> 0 then [s\<lparr>es_isr := Posting 0 user_isr\<rparr>] else []
      | Posting reader events \<Rightarrow>
          if reader < N_EVENT_READERS
          then let control = es_control s;
                   old = ic_events control ! reader
               in [s\<lparr>es_control := control\<lparr>ic_events := (ic_events control)[reader := old OR events]\<rparr>,
                     es_isr := Posting (reader + 1) events, es_posts := es_posts s @ [(reader, events)]\<rparr>]
          else [(wake_up_all s)\<lparr>es_isr := No_Post\<rparr>])"

inductive event_step :: "event_sys \<Rightarrow> event_sys \<Rightarrow> bool" where
  reads: "s' \<in> set (read_steps p s) \<Longrightarrow> event_step s s'"
| polls: "s' \<in> set (poll_steps p s) \<Longrightarrow> event_step s s'"
| leaves: "s' \<in> set (leave_steps p s) \<Longrightarrow> event_step s s'"
| posts: "s' \<in> set (post_steps user_isr s) \<Longrightarrow> event_step s s'"

definition event_start :: "dma_control option \<Rightarrow> (nat \<Rightarrow> register_context) \<Rightarrow> event_sys" where
  "event_start dma contexts =
     \<lparr>es_control = new_interrupt_control dma, es_context = contexts, es_phase = (\<lambda>_. No_Call), es_queue = {},
      es_woken = {}, es_isr = No_Post, es_posts = [], es_results = []\<rparr>"

definition slots_ok :: "(nat \<Rightarrow> register_context) \<Rightarrow> bool" where
  "slots_ok contexts \<longleftrightarrow> (\<forall>p. rc_reader_number (contexts p) < N_EVENT_READERS)"

section \<open>The invariants\<close>

text \<open>
  A process that sleeps without having been woken is on the queue, and either nothing is pending
  for it or the handler that posted it has not woken the queue yet.
\<close>

definition wake_due :: "event_sys \<Rightarrow> nat \<Rightarrow> bool" where
  "wake_due s p \<longleftrightarrow> ic_events (es_control s) ! es_reader s p = 0 \<or>
     (\<exists>r events. es_isr s = Posting r events \<and> es_reader s p < r)"

definition wait_inv :: "event_sys \<Rightarrow> bool" where
  "wait_inv s \<longleftrightarrow> length (ic_events (es_control s)) = N_EVENT_READERS \<and> slots_ok (es_context s) \<and>
     (\<forall>r events. es_isr s = Posting r events \<longrightarrow> r \<le> N_EVENT_READERS) \<and>
     (\<forall>p. case es_phase s p of
        Read_Check \<Rightarrow> p \<in> es_queue s \<or> p \<in> es_woken s
      | Read_Asleep \<Rightarrow> p \<in> es_woken s \<or> p \<in> es_queue s \<and> wake_due s p
      | Poll_Check \<Rightarrow> p \<in> es_queue s
      | Poll_Asleep \<Rightarrow> p \<in> es_queue s \<and> (p \<in> es_woken s \<or> wake_due s p)
      | _ \<Rightarrow> True)"

text \<open>What a reader was given and what is pending for it is what was posted for it.\<close>

definition posted_for :: "event_sys \<Rightarrow> nat \<Rightarrow> u32" where
  "posted_for s r = or_all (map snd (filter (\<lambda>(r', _). r' = r) (es_posts s)))"

fun given_events :: "call_result \<Rightarrow> u32" where
  "given_events (Got events) = events"
| "given_events _ = 0"

definition given_to :: "event_sys \<Rightarrow> nat \<Rightarrow> u32" where
  "given_to s r = or_all (map (\<lambda>(_, res). given_events res) (filter (\<lambda>(p, _). es_reader s p = r) (es_results s)))"

fun result_ok :: "call_result \<Rightarrow> bool" where
  "result_ok (Got events) \<longleftrightarrow> events \<noteq> 0"
| "result_ok (Poll_Ready m) \<longleftrightarrow> m = POLLIN OR POLLRDNORM"
| "result_ok Interrupted \<longleftrightarrow> True"

definition mail_inv :: "event_sys \<Rightarrow> bool" where
  "mail_inv s \<longleftrightarrow> length (ic_events (es_control s)) = N_EVENT_READERS \<and> slots_ok (es_context s) \<and>
     (\<forall>r < N_EVENT_READERS. given_to s r OR ic_events (es_control s) ! r = posted_for s r) \<and>
     (\<forall>x \<in> set (es_results s). result_ok (snd x))"

lemma or_all_snoc: "or_all (xs @ [x]) = or_all xs OR x"
  by (induction xs) (simp_all add: or_all_def or.assoc)

lemma reader_slot: "slots_ok (es_context s) \<Longrightarrow> es_reader s p < N_EVENT_READERS"
  by (simp add: slots_ok_def es_reader_def)

lemma event_step_keeps:
  assumes "event_step s s'" and "\<And>p. list_all P (read_steps p s)" and "\<And>p. list_all P (poll_steps p s)"
    and "\<And>p. list_all P (leave_steps p s)" and "\<And>e. list_all P (post_steps e s)"
  shows "P s'"
  using assms by (cases rule: event_step.cases) (auto simp: list_all_iff)

lemmas agent_defs = to_phase_def enqueue_def finish_call_def try_events_def interrupts_wait_queue_def xchg_events_def
  amc_pci_reg_poll_def interrupt_events_ready_def Let_def

lemma wait_inv_read: "wait_inv s \<Longrightarrow> list_all wait_inv (read_steps p s)"
  by (cases "es_phase s p")
    (auto simp: read_steps_def agent_defs wait_inv_def wake_due_def es_reader_def nth_list_update slots_ok_def
      split: call_phase.splits)

lemma poll_mask: "POLLIN OR POLLRDNORM \<noteq> 0"
  by (simp add: POLLIN_def POLLRDNORM_def)

lemma wait_inv_poll: "wait_inv s \<Longrightarrow> list_all wait_inv (poll_steps p s)"
  by (cases "es_phase s p")
    (auto simp: poll_steps_def agent_defs poll_mask wait_inv_def wake_due_def es_reader_def split: call_phase.splits)

lemma wait_inv_leave: "wait_inv s \<Longrightarrow> list_all wait_inv (leave_steps p s)"
  by (auto simp: leave_steps_def agent_defs wait_inv_def wake_due_def es_reader_def split: call_phase.splits)

lemma wait_inv_post: "wait_inv s \<Longrightarrow> list_all wait_inv (post_steps e s)"
  by (cases "es_isr s")
    (auto simp: post_steps_def wake_up_all_def agent_defs wait_inv_def wake_due_def es_reader_def nth_list_update
      split: call_phase.splits)

lemma wait_inv_step: "event_step s s' \<Longrightarrow> wait_inv s \<Longrightarrow> wait_inv s'"
  by (rule event_step_keeps) (auto intro: wait_inv_read wait_inv_poll wait_inv_leave wait_inv_post)

text \<open>Only two steps touch the mail: taking events and posting them.\<close>

definition same_mail :: "event_sys \<Rightarrow> event_sys \<Rightarrow> bool" where
  "same_mail s s' \<longleftrightarrow> ic_events (es_control s') = ic_events (es_control s) \<and> es_context s' = es_context s \<and>
     es_posts s' = es_posts s \<and>
     (es_results s' = es_results s \<or>
      (\<exists>p res. es_results s' = es_results s @ [(p, res)] \<and> result_ok res \<and> given_events res = 0))"

lemma mail_inv_same: "same_mail s s' \<Longrightarrow> mail_inv s \<Longrightarrow> mail_inv s'"
  by (auto simp: same_mail_def mail_inv_def given_to_def posted_for_def es_reader_def or_all_snoc)

lemma mail_inv_try:
  assumes "mail_inv s"
  shows "mail_inv (try_events p ph s)"
proof (cases "ic_events (es_control s) ! es_reader s p = 0")
  case True
  then have "(ic_events (es_control s))[es_reader s p := 0] = ic_events (es_control s)"
    by (metis list_update_id)
  with True have "same_mail s (try_events p ph s)" by (simp add: same_mail_def agent_defs)
  then show ?thesis using assms by (rule mail_inv_same)
next
  case False
  let ?s = "try_events p ph s" and ?ev = "ic_events (es_control s) ! es_reader s p"
  have slot: "es_reader s p < length (ic_events (es_control s))"
    using assms reader_slot [of s p] by (simp add: mail_inv_def)
  have "given_to ?s r OR ic_events (es_control ?s) ! r = given_to s r OR ic_events (es_control s) ! r" for r
    using False slot by (auto simp: agent_defs given_to_def es_reader_def or_all_snoc or.assoc)
  with False assms show ?thesis
    by (auto simp: mail_inv_def agent_defs posted_for_def)
qed

lemma mail_inv_read: "mail_inv s \<Longrightarrow> list_all mail_inv (read_steps p s)"
  by (cases "es_phase s p")
    (auto simp: read_steps_def mail_inv_try intro!: mail_inv_same [of s] simp: same_mail_def to_phase_def enqueue_def)

lemma mail_inv_poll: "mail_inv s \<Longrightarrow> list_all mail_inv (poll_steps p s)"
  by (cases "es_phase s p")
    (auto simp: poll_steps_def same_mail_def agent_defs intro!: mail_inv_same [of s])

lemma mail_inv_leave: "mail_inv s \<Longrightarrow> list_all mail_inv (leave_steps p s)"
  by (auto simp: leave_steps_def same_mail_def agent_defs intro!: mail_inv_same [of s])

lemma mail_inv_post:
  assumes "mail_inv s"
  shows "list_all mail_inv (post_steps e s)"
proof (cases "\<exists>r ev. es_isr s = Posting r ev \<and> r < N_EVENT_READERS")
  case False
  with assms show ?thesis
    by (cases "es_isr s") (auto simp: post_steps_def wake_up_all_def same_mail_def intro!: mail_inv_same [of s])
next
  case True
  then obtain r ev where isr: "es_isr s = Posting r ev" "r < N_EVENT_READERS" by blast
  let ?c = "es_control s"
  let ?s = "s\<lparr>es_control := ?c\<lparr>ic_events := (ic_events ?c)[r := ic_events ?c ! r OR ev]\<rparr>,
    es_isr := Posting (r + 1) ev, es_posts := es_posts s @ [(r, ev)]\<rparr>"
  have "given_to ?s r' OR ic_events (es_control ?s) ! r' = posted_for ?s r'" if "r' < N_EVENT_READERS" for r'
  proof -
    have "given_to ?s r' = given_to s r'" by (simp add: given_to_def es_reader_def)
    moreover have "posted_for ?s r' = (if r = r' then posted_for s r' OR ev else posted_for s r')"
      by (simp add: posted_for_def or_all_snoc)
    moreover have "given_to s r' OR ic_events ?c ! r' = posted_for s r'" using assms that by (simp add: mail_inv_def)
    moreover have "length (ic_events ?c) = N_EVENT_READERS" using assms by (simp add: mail_inv_def)
    ultimately show ?thesis using that by (auto simp flip: or.assoc)
  qed
  then have "mail_inv ?s" using assms by (simp add: mail_inv_def)
  then show ?thesis using isr by (simp add: post_steps_def Let_def)
qed

lemma mail_inv_step: "event_step s s' \<Longrightarrow> mail_inv s \<Longrightarrow> mail_inv s'"
  by (rule event_step_keeps) (auto intro: mail_inv_read mail_inv_poll mail_inv_leave mail_inv_post)

lemma event_invs_reachable:
  assumes "event_step\<^sup>*\<^sup>* (event_start dma contexts) s" and "slots_ok contexts"
  shows "wait_inv s" and "mail_inv s"
proof -
  from assms have "wait_inv s \<and> mail_inv s"
  proof (induction rule: rtranclp_induct)
    case base
    then show ?case
      by (simp add: wait_inv_def mail_inv_def event_start_def new_interrupt_control_def given_to_def posted_for_def
          or_all_def less_Suc_eq numeral_eq_Suc)
  qed (auto intro: wait_inv_step mail_inv_step)
  then show "wait_inv s" and "mail_inv s" by simp_all
qed

section \<open>The way of an event\<close>

text \<open>The handler alone, from the start of its loop: it does what \<^verbatim>\<open>event_interrupt\<close> does in one step.\<close>

fun post_run :: "nat \<Rightarrow> event_sys \<Rightarrow> event_sys" where
  "post_run 0 s = s"
| "post_run (Suc n) s = (case post_steps 0 s of [] \<Rightarrow> s | s' # _ \<Rightarrow> post_run n s')"

lemma post_run_steps: "event_step\<^sup>*\<^sup>* s (post_run n s)"
proof (induction n arbitrary: s)
  case (Suc n)
  show ?case
  proof (cases "post_steps 0 s")
    case (Cons s' rest)
    then have "event_step s s'" by (intro posts [of _ 0]) simp
    with Suc.IH [of s'] Cons show ?thesis by simp
  qed simp
qed simp

lemma or_from_update:
  "r < length xs \<Longrightarrow> take r ys @ map (\<lambda>old. old OR ev) (drop r xs) =
     take r ys @ (xs ! r OR ev) # map (\<lambda>old. old OR ev) (drop (Suc r) xs)"
  by (simp add: Cons_nth_drop_Suc [symmetric])

lemma post_run_events:
  assumes "es_isr s = Posting r ev" and "length (ic_events (es_control s)) = N_EVENT_READERS" and "r \<le> N_EVENT_READERS"
  shows "let s' = post_run (N_EVENT_READERS + 1 - r) s; c = es_control s in
    es_control s' = c\<lparr>ic_events := take r (ic_events c) @ map (\<lambda>old. old OR ev) (drop r (ic_events c)),
      ic_wakeups := ic_wakeups c + 1\<rparr> \<and>
    es_isr s' = No_Post \<and> es_phase s' = es_phase s \<and> es_context s' = es_context s \<and> es_results s' = es_results s"
  using assms
proof (induction "N_EVENT_READERS - r" arbitrary: r s)
  case 0
  then have "r = N_EVENT_READERS" by simp
  with 0 show ?case by (simp add: post_steps_def wake_up_all_def)
next
  case (Suc n)
  let ?c = "es_control s"
  let ?s = "s\<lparr>es_control := ?c\<lparr>ic_events := (ic_events ?c)[r := ic_events ?c ! r OR ev]\<rparr>,
    es_isr := Posting (Suc r) ev, es_posts := es_posts s @ [(r, ev)]\<rparr>"
  have r: "r < N_EVENT_READERS" using Suc.hyps(2) by simp
  then have suc: "N_EVENT_READERS + 1 - r = Suc (N_EVENT_READERS + 1 - Suc r)" by simp
  have run: "post_run (N_EVENT_READERS + 1 - r) s = post_run (N_EVENT_READERS + 1 - Suc r) ?s"
    unfolding suc post_run.simps using r Suc.prems(1) by (simp add: post_steps_def Let_def)
  have "take (Suc r) (ic_events (es_control ?s)) @ map (\<lambda>old. old OR ev) (drop (Suc r) (ic_events (es_control ?s))) =
      take r (ic_events ?c) @ map (\<lambda>old. old OR ev) (drop r (ic_events ?c))"
    using r Suc.prems(2) by (simp add: take_Suc_conv_app_nth or_from_update)
  with Suc.hyps(1) [of "Suc r" ?s] Suc.hyps(2) Suc.prems r show ?case
    unfolding run by (simp add: Let_def)
qed

lemma handler_alone:
  assumes "es_isr s = Posting 0 ev" and "length (ic_events (es_control s)) = N_EVENT_READERS"
  shows "es_control (post_run 9 s) = event_interrupt ev (es_control s)"
  using post_run_events [OF assms] by (simp add: event_interrupt_def Let_def)

definition pending :: "event_sys \<Rightarrow> nat \<Rightarrow> bool" where
  "pending s p \<longleftrightarrow> ic_events (es_control s) ! es_reader s p \<noteq> 0"

text \<open>Letting the handler finish keeps what is pending.\<close>

lemma or_nonzero: "(x :: u32) \<noteq> 0 \<Longrightarrow> x OR y \<noteq> 0"
  by (simp add: or_eq_0_iff)

lemma handler_finishes:
  assumes "wait_inv s" and "pending s p"
  shows "\<exists>s'. event_step\<^sup>*\<^sup>* s s' \<and> es_isr s' = No_Post \<and> es_phase s' = es_phase s \<and> es_results s' = es_results s \<and>
    wait_inv s' \<and> pending s' p"
proof (cases "es_isr s")
  case No_Post
  with assms show ?thesis by blast
next
  case (Posting r ev)
  let ?s = "post_run (N_EVENT_READERS + 1 - r) s" and ?c = "es_control s"
  have len: "length (ic_events ?c) = N_EVENT_READERS" "r \<le> N_EVENT_READERS" "es_reader s p < N_EVENT_READERS"
    using assms(1) Posting reader_slot [of s p] by (simp_all add: wait_inv_def)
  note run = post_run_events [OF Posting len(1,2), unfolded Let_def]
  have "wait_inv ?s"
    using post_run_steps [of s "N_EVENT_READERS + 1 - r"] assms(1)
    by (induction rule: rtranclp_induct) (auto intro: wait_inv_step)
  moreover have "es_reader ?s p = es_reader s p" using run by (simp add: es_reader_def)
  then have "pending ?s p"
    using run assms(2) len by (auto simp: pending_def nth_append or_nonzero)
  ultimately show ?thesis using run post_run_steps [of s "N_EVENT_READERS + 1 - r"] by blast
qed

text \<open>The result of a call that ends with something for its caller.\<close>

definition can_end :: "event_sys \<Rightarrow> nat \<Rightarrow> bool" where
  "can_end s p \<longleftrightarrow> (\<exists>s' res. event_step\<^sup>*\<^sup>* s s' \<and> res \<noteq> Interrupted \<and> es_results s' = es_results s @ [(p, res)])"

lemma can_end_step: "event_step s s' \<Longrightarrow> es_results s' = es_results s \<Longrightarrow> can_end s' p \<Longrightarrow> can_end s p"
  unfolding can_end_def by (metis converse_rtranclp_into_rtranclp)

lemma can_end_now: "event_step s (finish_call p res s') \<Longrightarrow> es_results s' = es_results s \<Longrightarrow> res \<noteq> Interrupted \<Longrightarrow> can_end s p"
  unfolding can_end_def
  by (rule exI [of _ "finish_call p res s'"], rule exI [of _ res]) (auto simp: finish_call_def to_phase_def)

lemma end_try:
  assumes "pending s p" and "es_phase s p = Read_First \<or> es_phase s p = Read_Check"
  shows "can_end s p"
proof (rule can_end_now)
  let ?c = "es_control s"
  let ?s = "s\<lparr>es_control := ?c\<lparr>ic_events := (ic_events ?c)[es_reader s p := 0]\<rparr>\<rparr>"
  show "event_step s (finish_call p (Got (ic_events ?c ! es_reader s p)) ?s)"
    using assms by (intro reads [of _ p]) (auto simp: read_steps_def try_events_def xchg_events_def pending_def)
qed simp_all

lemma end_prepare: "pending s p \<Longrightarrow> es_phase s p = Read_Prepare \<Longrightarrow> can_end s p"
  by (rule can_end_step [of _ "enqueue p Read_Check s", OF reads [of _ p]])
    (auto simp: read_steps_def enqueue_def to_phase_def pending_def es_reader_def intro!: end_try)

lemma end_read_asleep: "pending s p \<Longrightarrow> es_phase s p = Read_Asleep \<Longrightarrow> p \<in> es_woken s \<Longrightarrow> can_end s p"
  by (rule can_end_step [of _ "to_phase p Read_Prepare s", OF reads [of _ p]])
    (auto simp: read_steps_def to_phase_def pending_def es_reader_def intro!: end_prepare)

lemma end_poll_check: "pending s p \<Longrightarrow> es_phase s p = Poll_Check \<Longrightarrow> can_end s p"
  by (rule can_end_now [of _ _ "Poll_Ready (POLLIN OR POLLRDNORM)" s, OF polls [of _ p]])
    (auto simp: poll_steps_def agent_defs pending_def es_reader_def poll_mask)

lemma end_poll_register: "pending s p \<Longrightarrow> es_phase s p = Poll_Register \<Longrightarrow> can_end s p"
  by (rule can_end_step [of _ "enqueue p Poll_Check s", OF polls [of _ p]])
    (auto simp: poll_steps_def enqueue_def to_phase_def pending_def es_reader_def intro!: end_poll_check)

lemma end_poll_asleep: "pending s p \<Longrightarrow> es_phase s p = Poll_Asleep \<Longrightarrow> p \<in> es_woken s \<Longrightarrow> can_end s p"
  by (rule can_end_step [of _ "to_phase p Poll_Check (s\<lparr>es_woken := es_woken s - {p}\<rparr>)", OF polls [of _ p]])
    (auto simp: poll_steps_def to_phase_def pending_def es_reader_def intro!: end_poll_check)

lemmas end_rules = end_try end_prepare end_read_asleep end_poll_check end_poll_register end_poll_asleep

lemma pending_can_end:
  assumes "wait_inv s" and "pending s p" and "es_phase s p \<noteq> No_Call"
  shows "can_end s p"
proof -
  obtain s' where s': "event_step\<^sup>*\<^sup>* s s'" "es_isr s' = No_Post" "es_phase s' = es_phase s"
    "es_results s' = es_results s" "wait_inv s'" "pending s' p"
    using handler_finishes [OF assms(1,2)] by blast
  have "\<not> wake_due s' p" using s'(2,6) by (simp add: wake_due_def pending_def)
  with s'(5) have "es_phase s' p = Read_Asleep \<or> es_phase s' p = Poll_Asleep \<Longrightarrow> p \<in> es_woken s'"
    by (auto simp: wait_inv_def split: call_phase.splits)
  then have "can_end s' p"
    using assms(3) s'(3,6) by (cases "es_phase s' p") (auto intro: end_rules)
  then show ?thesis using s'(1,4) unfolding can_end_def by (metis rtranclp_trans)
qed

section \<open>Properties\<close>

text \<open>
  C12: Events reach those who wait for them. Let any number of processes read and poll, be
  interrupted, and let interrupts post events, in any order of their single accesses. Then a
  process that sleeps and has not been woken, while no handler is under way, is on the wait queue
  and nothing is pending for it: no wake-up is lost between the test and the sleep. Whoever is in
  a call while events are pending for it can still return with them, or with the poll mask. For
  every reader, what was given and what is pending is exactly what was posted; a blocking read
  never returns an empty word, and a poll returns only with both flags set.
\<close>

theorem event_delivery:
  assumes "slots_ok contexts" and "event_step\<^sup>*\<^sup>* (event_start dma contexts) s"
  shows "(\<forall>p. (es_phase s p = Read_Asleep \<or> es_phase s p = Poll_Asleep) \<and> p \<notin> es_woken s \<and> es_isr s = No_Post \<longrightarrow>
      p \<in> es_queue s \<and> ic_events (es_control s) ! es_reader s p = 0) \<and>
    (\<forall>p. es_phase s p \<noteq> No_Call \<and> ic_events (es_control s) ! es_reader s p \<noteq> 0 \<longrightarrow>
      (\<exists>s' res. event_step\<^sup>*\<^sup>* s s' \<and> res \<noteq> Interrupted \<and> es_results s' = es_results s @ [(p, res)])) \<and>
    (\<forall>r < N_EVENT_READERS. given_to s r OR ic_events (es_control s) ! r = posted_for s r) \<and>
    (\<forall>x \<in> set (es_results s). result_ok (snd x))"
proof -
  note inv = event_invs_reachable [OF assms(2,1)]
  have "p \<in> es_queue s \<and> ic_events (es_control s) ! es_reader s p = 0"
    if "es_phase s p = Read_Asleep \<or> es_phase s p = Poll_Asleep" "p \<notin> es_woken s" "es_isr s = No_Post" for p
    using inv(1) that by (auto simp: wait_inv_def wake_due_def split: call_phase.splits)
  moreover have "\<exists>s' res. event_step\<^sup>*\<^sup>* s s' \<and> res \<noteq> Interrupted \<and> es_results s' = es_results s @ [(p, res)]"
    if "es_phase s p \<noteq> No_Call" "ic_events (es_control s) ! es_reader s p \<noteq> 0" for p
    using pending_can_end [OF inv(1) _ that(1)] that(2) by (auto simp: pending_def can_end_def)
  ultimately show ?thesis using inv(2) unfolding mail_inv_def by blast
qed

text \<open>
  Two processes on one file: the first sleeps in a read, the second has just begun to poll; the
  handler has posted event 4 for their reader and not yet woken anyone.
\<close>

definition demo_contexts :: "nat \<Rightarrow> register_context" where
  "demo_contexts p = \<lparr>rc_base_page = 0, rc_length = 4096, rc_reader_number = 0\<rparr>"

definition demo_asleep :: event_sys where
  "demo_asleep =
     \<lparr>es_control = (new_interrupt_control None)\<lparr>ic_events := [4, 0, 0, 0, 0, 0, 0, 0]\<rparr>, es_context = demo_contexts,
      es_phase = (\<lambda>_. No_Call)(0 := Read_Asleep, 1 := Poll_Register), es_queue = {0}, es_woken = {},
      es_isr = Posting 1 4, es_posts = [(0, 4)], es_results = []\<rparr>"

lemma step_hd:
  "read_steps p s = s' # ss \<Longrightarrow> event_step s s'" "poll_steps p s = s' # ss \<Longrightarrow> event_step s s'"
  "post_steps e s = s' # ss \<Longrightarrow> event_step s s'"
  by (auto intro: reads [of _ p] polls [of _ p] posts [of _ e])

lemma demo_asleep_reached: "event_step\<^sup>*\<^sup>* (event_start None demo_contexts) demo_asleep"
proof -
  let ?s0 = "event_start None demo_contexts"
  let ?s1 = "to_phase 0 Read_First ?s0"
  let ?s2 = "to_phase 0 Read_Prepare ?s1"
  let ?s3 = "enqueue 0 Read_Check ?s2"
  let ?s4 = "to_phase 0 Read_Asleep ?s3"
  let ?s5 = "to_phase 1 Poll_Register ?s4"
  let ?s6 = "?s5\<lparr>es_isr := Posting 0 4\<rparr>"
  have same: "(replicate 8 0)[0 := 0] = replicate 8 (0 :: u32)" by (simp add: numeral_eq_Suc)
  note defs = read_steps_def poll_steps_def post_steps_def agent_defs event_start_def new_interrupt_control_def
    es_reader_def demo_contexts_def
  have "event_step ?s0 ?s1" by (rule step_hd(1) [of 0]) (simp add: defs)
  moreover have "event_step ?s1 ?s2" by (rule step_hd(1) [of 0]) (simp add: defs same)
  moreover have "event_step ?s2 ?s3" by (rule step_hd(1) [of 0]) (simp add: defs)
  moreover have "event_step ?s3 ?s4" by (rule step_hd(1) [of 0]) (simp add: defs same)
  moreover have "event_step ?s4 ?s5" by (rule step_hd(2) [of 1]) (simp add: defs)
  moreover have "event_step ?s5 ?s6" by (rule step_hd(3) [of 4]) (simp add: defs)
  moreover have "event_step ?s6 demo_asleep"
    by (rule step_hd(3) [of 0]) (simp add: defs demo_asleep_def numeral_eq_Suc fun_upd_twist)
  ultimately show ?thesis by (meson rtranclp.rtrancl_refl rtranclp.rtrancl_into_rtrancl)
qed

theorem event_delivery_witness:
  "event_step\<^sup>*\<^sup>* (event_start None demo_contexts) demo_asleep \<and> es_phase demo_asleep 0 = Read_Asleep \<and>
   0 \<notin> es_woken demo_asleep \<and>
   (\<exists>s' res. event_step\<^sup>*\<^sup>* demo_asleep s' \<and> res \<noteq> Interrupted \<and> es_results s' = [(0, res)]) \<and>
   (\<exists>s' res. event_step\<^sup>*\<^sup>* demo_asleep s' \<and> res \<noteq> Interrupted \<and> es_results s' = [(1, res)])"
proof -
  have "slots_ok demo_contexts" by (simp add: slots_ok_def demo_contexts_def)
  from event_delivery [OF this demo_asleep_reached]
  have "es_phase demo_asleep p \<noteq> No_Call \<Longrightarrow> ic_events (es_control demo_asleep) ! es_reader demo_asleep p \<noteq> 0 \<Longrightarrow>
    \<exists>s' res. event_step\<^sup>*\<^sup>* demo_asleep s' \<and> res \<noteq> Interrupted \<and> es_results s' = es_results demo_asleep @ [(p, res)]" for p
    by blast
  from this [of 0] this [of 1] demo_asleep_reached show ?thesis
    by (simp add: demo_asleep_def es_reader_def demo_contexts_def)
qed

end
