(* ===== verification/Formats.thy ===== *)
theory Formats
  imports Amc_Prelude
begin

text \<open>
  Numbers as text, as \<^verbatim>\<open>sprintf\<close> and Python's \<^verbatim>\<open>format\<close> write them and as Python's \<^verbatim>\<open>int\<close> reads them. The
  dumps of \<^verbatim>\<open>debug.c\<close> and the image tool share these definitions.
\<close>

section \<open>Writing\<close>

definition digit_char :: "nat \<Rightarrow> char" where
  "digit_char d = (''0123456789abcdef'' ! d)"

text \<open>The digits of a number in a base from two to sixteen, most significant first.\<close>

function digits :: "nat \<Rightarrow> nat \<Rightarrow> string" where
  "digits b n = (if n < b \<or> b < 2 then [digit_char n] else digits b (n div b) @ [digit_char (n mod b)])"
  by pat_completeness auto
termination by (relation "measure snd") (auto intro: div_less_dividend)

declare digits.simps [simp del]

definition hex_pad :: "nat \<Rightarrow> nat \<Rightarrow> string" where
  "hex_pad w n = replicate (w - length (digits 16 n)) CHR ''0'' @ digits 16 n"

section \<open>Reading\<close>

text \<open>
  The value of a digit in a base: decimal digits, and letters of either case from ten on.
\<close>

definition digit_val :: "nat \<Rightarrow> char \<Rightarrow> nat option" where
  "digit_val b c =
     (let n = of_char c :: nat;
          d = (if 48 \<le> n \<and> n \<le> 57 then n - 48
               else if 97 \<le> n \<and> n \<le> 122 then n - 87
               else if 65 \<le> n \<and> n \<le> 90 then n - 55
               else b)
      in if d < b then Some d else None)"

text \<open>Digits after the first; one underscore may stand between two digits.\<close>

fun more_digits :: "nat \<Rightarrow> nat \<Rightarrow> string \<Rightarrow> nat option" where
  "more_digits b acc [] = Some acc"
| "more_digits b acc (c # cs) =
     (if c = CHR ''_'' then
        (case cs of [] \<Rightarrow> None
         | d # _ \<Rightarrow> if digit_val b d = None then None else more_digits b acc cs)
      else (case digit_val b c of None \<Rightarrow> None | Some d \<Rightarrow> more_digits b (b * acc + d) cs))"

definition read_number :: "nat \<Rightarrow> string \<Rightarrow> nat option" where
  "read_number b s =
     (case s of [] \<Rightarrow> None
      | c # cs \<Rightarrow> (case digit_val b c of None \<Rightarrow> None | Some d \<Rightarrow> more_digits b d cs))"

section \<open>Lemmas\<close>

lemma less_16_cases: "d < 16 \<Longrightarrow> d \<in> {0, 1, 2, 3, 4, 5, 6, 7, 8, 9, 10, 11, 12, 13, 14, 15 :: nat}"
  by (simp, arith)

lemma digit_val_char: "d < b \<Longrightarrow> b \<le> 16 \<Longrightarrow> digit_val b (digit_char d) = Some d"
proof -
  assume "d < b" "b \<le> 16"
  then have "d < 16" by simp
  from less_16_cases [OF this] \<open>d < b\<close> show ?thesis
    by (elim insertE emptyE) (simp_all add: digit_char_def digit_val_def)
qed

text \<open>Digit characters are neither underscores nor signs nor white space.\<close>

lemma digit_char_range: "d < 16 \<Longrightarrow> (of_char (digit_char d) :: nat) \<in> {48..57} \<union> {97..102}"
proof -
  assume "d < 16"
  from less_16_cases [OF this] show ?thesis by (elim insertE emptyE) (simp_all add: digit_char_def)
qed

lemma digits_chars: "2 \<le> b \<Longrightarrow> b \<le> 16 \<Longrightarrow> set (digits b n) \<subseteq> digit_char ` {..<b}"
proof (induction b n rule: digits.induct)
  case (1 b n)
  show ?case
  proof (cases "n < b")
    case True
    then show ?thesis by (simp add: digits.simps [of b n])
  next
    case False
    with 1 have "set (digits b (n div b)) \<subseteq> digit_char ` {..<b}" by simp
    moreover have "n mod b < b" using "1.prems" by simp
    ultimately show ?thesis using False "1.prems" by (subst digits.simps) auto
  qed
qed

lemma more_digits_append:
  "CHR ''_'' \<notin> set xs \<Longrightarrow>
     more_digits b acc (xs @ ys) =
       (case more_digits b acc xs of None \<Rightarrow> None | Some v \<Rightarrow> more_digits b v ys)"
  by (induction xs arbitrary: acc) (auto split: option.split)

lemma digit_char_not: "d < 16 \<Longrightarrow> (of_char c :: nat) \<notin> {48..57} \<union> {97..102} \<Longrightarrow> digit_char d \<noteq> c"
  using digit_char_range [of d] by auto

lemma digits_no:
  assumes "2 \<le> b" and "b \<le> 16" and "(of_char c :: nat) \<notin> {48..57} \<union> {97..102}"
  shows "c \<notin> set (digits b n)"
proof
  assume "c \<in> set (digits b n)"
  with digits_chars [OF assms(1,2), of n] obtain d where "c = digit_char d" "d < b" by auto
  with digit_char_not [OF _ assms(3), of d] assms(2) show False by simp
qed

lemma read_number_digits:
  assumes "2 \<le> b" and "b \<le> 16"
  shows "read_number b (digits b n) = Some n"
  using assms
proof (induction b n rule: digits.induct)
  case (1 b n)
  show ?case
  proof (cases "n < b")
    case True
    then show ?thesis using "1.prems"
      by (simp add: digits.simps [of b n] read_number_def digit_val_char)
  next
    case False
    let ?ds = "digits b (n div b)"
    have IH: "read_number b ?ds = Some (n div b)" using 1 False by simp
    then obtain c cs where ds: "?ds = c # cs" by (cases ?ds) (auto simp: read_number_def)
    have "CHR ''_'' \<notin> set ?ds" using "1.prems" by (intro digits_no) simp_all
    then have "read_number b (?ds @ ys) =
        (case read_number b ?ds of None \<Rightarrow> None | Some v \<Rightarrow> more_digits b v ys)" for ys
      by (simp add: ds read_number_def more_digits_append split: option.split)
    moreover have d: "n mod b < b" using "1.prems" by simp
    moreover have "digit_char (n mod b) \<noteq> CHR ''_''" using d "1.prems" by (intro digit_char_not) (linarith, simp)
    ultimately show ?thesis
      using IH False "1.prems" by (subst digits.simps) (simp add: digit_val_char)
  qed
qed

lemma digits_nonempty: "digits b n \<noteq> []"
  by (subst digits.simps) simp

lemma digits_length: "n < b ^ k \<Longrightarrow> 2 \<le> b \<Longrightarrow> 0 < k \<Longrightarrow> length (digits b n) \<le> k"
proof (induction k arbitrary: n)
  case (Suc k)
  show ?case
  proof (cases "n < b")
    case True
    then show ?thesis by (simp add: digits.simps [of b n])
  next
    case False
    then have "0 < k" using Suc.prems(1) by (cases k) auto
    moreover have "n div b < b ^ k" using Suc.prems(1) by (simp add: less_mult_imp_div_less mult.commute)
    ultimately show ?thesis
      using Suc.IH [of "n div b"] False Suc.prems by (simp add: digits.simps [of b n])
  qed
qed simp

lemma hex_pad_exact: "n < 16 ^ w \<Longrightarrow> 0 < w \<Longrightarrow> length (hex_pad w n) = w"
  using digits_length [of n 16 w] by (simp add: hex_pad_def)

lemma hex_pad_address: "n < 2 ^ 64 \<Longrightarrow> length (hex_pad 8 n) \<le> 16"
  using digits_length [of n 16 16] by (simp add: hex_pad_def)

text \<open>Leading zeros do not change the value.\<close>

lemma more_digits_zeros: "more_digits 16 0 (replicate k CHR ''0'' @ cs) = more_digits 16 0 cs"
proof -
  have "digit_val 16 CHR ''0'' = Some 0" by (simp add: digit_val_def)
  then show ?thesis by (induction k) simp_all
qed

lemma more_digits_read: "s \<noteq> [] \<Longrightarrow> hd s \<noteq> CHR ''_'' \<Longrightarrow> more_digits b 0 s = read_number b s"
  by (cases s) (auto simp: read_number_def split: option.split)

lemma digits_hd: "2 \<le> b \<Longrightarrow> b \<le> 16 \<Longrightarrow> hd (digits b n) \<noteq> CHR ''_''"
  using digits_no [of b "CHR ''_''" n] hd_in_set [OF digits_nonempty [of b n]] by auto

lemma read_number_hex_pad: "read_number 16 (hex_pad w n) = Some n"
proof (cases "w - length (digits 16 n)")
  case 0
  then show ?thesis by (simp add: hex_pad_def read_number_digits)
next
  case (Suc k)
  have z: "digit_val 16 CHR ''0'' = Some 0" by (simp add: digit_val_def)
  then have "read_number 16 (hex_pad w n) = more_digits 16 0 (digits 16 n)"
    by (simp add: hex_pad_def Suc read_number_def more_digits_zeros)
  then show ?thesis
    using more_digits_read [OF digits_nonempty digits_hd] by (simp add: read_number_digits)
qed

lemma hex_pad_no: "(of_char c :: nat) \<notin> {48..57} \<union> {97..102} \<Longrightarrow> c \<notin> set (hex_pad w n)"
  using digits_no [of 16 c n] by (auto simp: hex_pad_def)

end
