(* ===== verification/Debug.thy ===== *)
theory Debug
  imports Formats "HOL-Library.Monad_Syntax"
begin

text \<open>
  \<^verbatim>\<open>debug.c\<close>: hexadecimal dumps of memory into the kernel log. The theory shows which memory the two
  routines read, that every line fits the line buffer, and what the lines contain.
\<close>

section \<open>The dumps\<close>

text \<open>
  A read of the memory that starts at \<^verbatim>\<open>buffer\<close>; \<open>None\<close> is a read behind the end of the object, which
  \<open>mem\<close> holds as a whole.
\<close>

definition byte_at :: "u8 list \<Rightarrow> nat \<Rightarrow> u8 option" where
  "byte_at mem i = (if i < length mem then Some (mem ! i) else None)"

definition dword_at :: "u8 list \<Rightarrow> nat \<Rightarrow> u32 option" where
  "dword_at mem i =
     (if 4 * i + 4 \<le> length mem then Some (of_nat (le_val (take 4 (drop (4 * i) mem)))) else None)"

text \<open>One column of the bytes and one of the characters, for byte \<open>i\<close> of the line at \<open>a\<close>.\<close>

definition hex_column :: "u8 list \<Rightarrow> nat \<Rightarrow> nat \<Rightarrow> nat \<Rightarrow> string option" where
  "hex_column mem len a i =
     do {
       s \<leftarrow> (if a + i < len then map_option (\<lambda>c. '' '' @ hex_pad 2 (unat c)) (byte_at mem (a + i)) else Some ''   '');
       Some (s @ (if i mod 16 = 7 then '' '' else ''''))
     }"

definition char_column :: "u8 list \<Rightarrow> nat \<Rightarrow> nat \<Rightarrow> nat \<Rightarrow> string option" where
  "char_column mem len a i =
     do {
       c \<leftarrow> byte_at mem (a + i);
       let s = (if a + i < len then [if 32 \<le> c \<and> c < 127 then char_of (unat c) else CHR ''.''] else '' '');
       Some (s @ (if i mod 16 = 7 then '' '' else ''''))
     }"

fun columns :: "(nat \<Rightarrow> string option) \<Rightarrow> nat list \<Rightarrow> string option" where
  "columns f [] = Some ''''"
| "columns f (i # is) = do { s \<leftarrow> f i; rest \<leftarrow> columns f is; Some (s @ rest) }"

definition bytes_line :: "u8 list \<Rightarrow> nat \<Rightarrow> nat \<Rightarrow> string option" where
  "bytes_line mem len a =
     do {
       hex \<leftarrow> columns (hex_column mem len a) [0..<16];
       chars \<leftarrow> columns (char_column mem len a) [0..<16];
       Some (hex_pad 8 a @ '': '' @ hex @ ''  '' @ chars)
     }"

function dump_bytes_from :: "u8 list \<Rightarrow> nat \<Rightarrow> nat \<Rightarrow> string list option" where
  "dump_bytes_from mem len a =
     (if a < len then do {
        line \<leftarrow> bytes_line mem len a;
        lines \<leftarrow> dump_bytes_from mem len (a + 16);
        Some (line # lines)
      } else Some [])"
  by pat_completeness auto
termination by (relation "measure (\<lambda>(_, len, a). len - a)") auto

declare dump_bytes_from.simps [simp del]

definition dump_bytes :: "u8 list \<Rightarrow> nat \<Rightarrow> string list option" where
  "dump_bytes mem len = dump_bytes_from mem len 0"

definition dword_column :: "u8 list \<Rightarrow> nat \<Rightarrow> nat \<Rightarrow> nat \<Rightarrow> string option" where
  "dword_column mem len a i =
     (if a + i < len then map_option (\<lambda>v. ''  '' @ hex_pad 8 (unat v)) (dword_at mem (a + i)) else Some '''')"

definition dwords_line :: "u8 list \<Rightarrow> nat \<Rightarrow> nat \<Rightarrow> string option" where
  "dwords_line mem len a =
     do {
       s \<leftarrow> columns (dword_column mem len a) [0..<4];
       Some (hex_pad 8 (4 * a) @ '': '' @ s)
     }"

function dump_dwords_from :: "u8 list \<Rightarrow> nat \<Rightarrow> nat \<Rightarrow> string list option" where
  "dump_dwords_from mem len a =
     (if a < len div 4 then do {
        line \<leftarrow> dwords_line mem len a;
        lines \<leftarrow> dump_dwords_from mem len (a + 4);
        Some (line # lines)
      } else Some [])"
  by pat_completeness auto
termination by (relation "measure (\<lambda>(_, len, a). len div 4 - a)") auto

declare dump_dwords_from.simps [simp del]

definition dump_dwords :: "u8 list \<Rightarrow> nat \<Rightarrow> string list option" where
  "dump_dwords mem len = dump_dwords_from mem len 0"

section \<open>Lemmas on rows\<close>

text \<open>Lengths of rows of columns, when they fail, and when they agree.\<close>

lemma columns_length:
  assumes "columns f is = Some s" and "\<And>i t. i \<in> set is \<Longrightarrow> f i = Some t \<Longrightarrow> length t = g i"
  shows "length s = (\<Sum>i\<leftarrow>is. g i)"
  using assms by (induction "is" arbitrary: s) (auto split: bind_splits)

lemma columns_None: "columns f is = None \<longleftrightarrow> (\<exists>i \<in> set is. f i = None)"
  by (induction "is") (auto split: bind_splits)

lemma columns_cong: "(\<And>i. i \<in> set is \<Longrightarrow> f i = g i) \<Longrightarrow> columns f is = columns g is"
  by (induction "is") simp_all

section \<open>Lemmas on lines\<close>

lemma byte_at_None [simp]: "byte_at mem i = None \<longleftrightarrow> length mem \<le> i"
  by (simp add: byte_at_def)

lemma dword_at_None [simp]: "dword_at mem i = None \<longleftrightarrow> length mem < 4 * i + 4"
  by (auto simp: dword_at_def)

lemma bytes_line_None: "bytes_line mem len a = None \<longleftrightarrow> length mem < a + 16"
proof -
  have "columns (char_column mem len a) [0..<16] = None \<longleftrightarrow> (\<exists>i \<in> {0..<16}. length mem \<le> a + i)"
    by (simp add: columns_None char_column_def Let_def bind_eq_None_conv)
  also have "\<dots> \<longleftrightarrow> length mem < a + 16" by (auto intro: bexI [of _ 15])
  finally have chars: "columns (char_column mem len a) [0..<16] = None \<longleftrightarrow> length mem < a + 16" .
  have "columns (hex_column mem len a) [0..<16] = None \<Longrightarrow> length mem < a + 16"
    by (auto simp: columns_None hex_column_def bind_eq_None_conv split: if_splits)
  with chars show ?thesis by (auto simp: bytes_line_def bind_eq_None_conv)
qed

lemma bytes_line_length:
  assumes "bytes_line mem len a = Some s" and "a < 2 ^ 64"
  shows "length s \<le> 86"
proof -
  obtain hex chars where h: "columns (hex_column mem len a) [0..<16] = Some hex"
    and c: "columns (char_column mem len a) [0..<16] = Some chars"
    and s: "s = hex_pad 8 a @ '': '' @ hex @ ''  '' @ chars"
    using assms(1) by (auto simp: bytes_line_def split: bind_splits)
  have "length (hex_pad 2 (unat b)) = 2" for b :: u8
    using hex_pad_exact [of "unat b" 2] unsigned_less [of b] by simp
  then have "length hex = (\<Sum>i\<leftarrow>[0..<16]. 3 + (if i mod 16 = 7 then 1 else 0))"
    by (intro columns_length [OF h]) (auto simp: hex_column_def split: bind_splits if_splits)
  moreover have "length chars = (\<Sum>i\<leftarrow>[0..<16]. 1 + (if i mod 16 = 7 then 1 else 0))"
    by (intro columns_length [OF c]) (auto simp: char_column_def Let_def split: bind_splits if_splits)
  moreover have "(\<Sum>i\<leftarrow>[0..<16]. 3 + (if i mod 16 = 7 then 1 else 0)) = (49 :: nat)"
    "(\<Sum>i\<leftarrow>[0..<16]. 1 + (if i mod 16 = 7 then 1 else 0)) = (17 :: nat)" by code_simp+
  ultimately have "length hex = 49" "length chars = 17" by (simp_all only:)
  then show ?thesis using hex_pad_address [OF assms(2)] by (simp add: s)
qed

text \<open>The guard of \<^verbatim>\<open>dump_dwords\<close> compares a number of words with a number of bytes and never fails.\<close>

lemma dword_guard: "a < len div 4 \<Longrightarrow> i < 4 \<Longrightarrow> a + i < (len :: nat)"
  by linarith

lemma dwords_line_None:
  assumes "a < len div 4"
  shows "dwords_line mem len a = None \<longleftrightarrow> length mem < 4 * a + 16"
proof -
  have "columns (dword_column mem len a) [0..<4] = None \<longleftrightarrow> (\<exists>i \<in> {0..<4}. length mem < 4 * (a + i) + 4)"
    using dword_guard [OF assms] by (auto simp: columns_None dword_column_def)
  also have "\<dots> \<longleftrightarrow> length mem < 4 * a + 16" by (auto intro: bexI [of _ 3])
  finally show ?thesis by (simp add: dwords_line_def bind_eq_None_conv)
qed

lemma dwords_line_length:
  assumes "dwords_line mem len a = Some s" and "4 * a < 2 ^ 64" and "a < len div 4"
  shows "length s \<le> 58"
proof -
  obtain cols where c: "columns (dword_column mem len a) [0..<4] = Some cols"
    and s: "s = hex_pad 8 (4 * a) @ '': '' @ cols"
    using assms(1) by (auto simp: dwords_line_def split: bind_splits)
  have "length (hex_pad 8 (unat b)) = 8" for b :: u32
    using hex_pad_exact [of "unat b" 8] unsigned_less [of b] by simp
  then have "length cols = (\<Sum>i\<leftarrow>[0..<4]. 10)"
    using dword_guard [OF assms(3)]
    by (intro columns_length [OF c]) (auto simp: dword_column_def split: if_splits)
  then show ?thesis using hex_pad_address [OF assms(2)] by (simp add: s sum_list_triv)
qed

section \<open>The loops as lists of lines\<close>

lemma those_None: "those xs = None \<longleftrightarrow> None \<in> set xs"
  by (induction xs) (auto split: option.split)

lemma those_Some: "those xs = Some ys \<longleftrightarrow> xs = map Some ys"
  by (induction xs arbitrary: ys) (auto split: option.split)

lemma loop_lines:
  assumes unroll: "\<And>a. F a = (if a < n then do { line \<leftarrow> f a; lines \<leftarrow> F (a + s); Some (line # lines) } else Some [])"
    and "0 < (s :: nat)"
  shows "F (s * k) = those (map (\<lambda>j. f (s * j)) [k..<(n + (s - 1)) div s])"
proof (induction "n - s * k" arbitrary: k rule: less_induct)
  case less
  show ?case
  proof (cases "s * k < n")
    case True
    then have "Suc k * s \<le> n + (s - 1)" using assms(2) by (simp add: mult.commute)
    then have k: "k < (n + (s - 1)) div s" using assms(2) by (simp only: Suc_le_eq [symmetric] less_eq_div_iff_mult_less_eq)
    have "n - s * Suc k < n - s * k" using True assms(2) by simp
    from less.hyps [OF this] have "F (s * k + s) = those (map (\<lambda>j. f (s * j)) [Suc k..<(n + (s - 1)) div s])"
      by (simp add: add.commute)
    with True k show ?thesis
      by (subst unroll) (simp add: upt_conv_Cons Option.bind_map_option split: bind_splits option.split)
  next
    case False
    then have "n + (s - 1) < Suc k * s" using assms(2) by (simp add: mult.commute)
    then have "(n + (s - 1)) div s \<le> k" by (metis less_mult_imp_div_less less_Suc_eq_le)
    with False show ?thesis by (subst unroll) simp
  qed
qed

lemma dump_bytes_lines:
  "dump_bytes mem len = those (map (\<lambda>j. bytes_line mem len (16 * j)) [0..<(len + 15) div 16])"
  using loop_lines [of "dump_bytes_from mem len" len "bytes_line mem len" 16 0]
  by (simp add: dump_bytes_def dump_bytes_from.simps)

lemma dump_dwords_lines:
  "dump_dwords mem len = those (map (\<lambda>j. dwords_line mem len (4 * j)) [0..<(len div 4 + 3) div 4])"
  using loop_lines [of "dump_dwords_from mem len" "len div 4" "dwords_line mem len" 4 0]
  by (simp add: dump_dwords_def dump_dwords_from.simps)

lemma bytes_line_same:
  assumes "take len mem = take len mem'" and "a + 16 \<le> length mem" and "a + 16 \<le> length mem'"
  shows "bytes_line mem len a = bytes_line mem' len a"
proof -
  have same: "mem ! i = mem' ! i" if "i < len" for i
    using that arg_cong [OF assms(1), of "\<lambda>xs. xs ! i"] by simp
  have "columns (hex_column mem len a) [0..<16] = columns (hex_column mem' len a) [0..<16]"
    using assms(2,3) same by (intro columns_cong) (auto simp: hex_column_def byte_at_def)
  moreover have "columns (char_column mem len a) [0..<16] = columns (char_column mem' len a) [0..<16]"
    using assms(2,3) same by (intro columns_cong) (auto simp: char_column_def byte_at_def)
  ultimately show ?thesis by (simp add: bytes_line_def)
qed

text \<open>What holds of every line of a loop holds of the lines it prints.\<close>

lemma lines_all:
  assumes "those (map f [0..<n]) = Some lines" and "\<And>j l. j < n \<Longrightarrow> f j = Some l \<Longrightarrow> P l"
  shows "length lines = n \<and> (\<forall>l \<in> set lines. P l)"
proof -
  have m: "map f [0..<n] = map Some lines" using assms(1) by (simp add: those_Some)
  from arg_cong [OF m, of length] have "length lines = n" by simp
  moreover have "P l" if "l \<in> set lines" for l
  proof -
    have "Some l \<in> set (map Some lines)" using that by simp
    then obtain j where "j < n" "f j = Some l" by (auto simp flip: m)
    then show ?thesis by (rule assms(2))
  qed
  ultimately show ?thesis by blast
qed

lemma ex_last: "(\<exists>j < n. m < 16 * j + 16) \<longleftrightarrow> m < 16 * (n :: nat)"
  by (auto intro!: exI [of _ "n - 1"])

lemma dump_bytes_None: "dump_bytes mem len = None \<longleftrightarrow> length mem < 16 * ((len + 15) div 16)"
  by (auto simp: dump_bytes_lines those_None image_iff bytes_line_None eq_commute [of None] simp flip: ex_last)

lemma dump_dwords_None: "dump_dwords mem len = None \<longleftrightarrow> length mem < 16 * ((len div 4 + 3) div 4)"
proof -
  have "4 * j < len div 4" if "j < (len div 4 + 3) div 4" for j using that by linarith
  then show ?thesis
    by (auto simp: dump_dwords_lines those_None image_iff dwords_line_None eq_commute [of None] simp flip: ex_last)
qed

section \<open>Properties\<close>

text \<open>
  C40: The dumps. Both read memory in whole lines of sixteen bytes, whatever part of the last line
  lies within the given length: they stay inside the object exactly if it has all of the last
  line. Then they print one line for every sixteen bytes begun (the word dump: for every four
  whole words begun), every line fits the line buffer of 128 characters with its final zero,
  and bytes behind the given length do not show in the byte dump.
\<close>

theorem dumps_exact:
  assumes "len < 2 ^ 64"
  shows "(dump_bytes mem len = None \<longleftrightarrow> length mem < 16 * ((len + 15) div 16)) \<and>
    (\<forall>lines. dump_bytes mem len = Some lines \<longrightarrow>
       length lines = (len + 15) div 16 \<and> (\<forall>l \<in> set lines. length l < 128)) \<and>
    (\<forall>mem'. take len mem = take len mem' \<and> dump_bytes mem len \<noteq> None \<and> dump_bytes mem' len \<noteq> None \<longrightarrow>
       dump_bytes mem len = dump_bytes mem' len) \<and>
    (dump_dwords mem len = None \<longleftrightarrow> length mem < 16 * ((len div 4 + 3) div 4)) \<and>
    (\<forall>lines. dump_dwords mem len = Some lines \<longrightarrow>
       length lines = (len div 4 + 3) div 4 \<and> (\<forall>l \<in> set lines. length l < 128))"
proof -
  have "length lines = (len + 15) div 16 \<and> (\<forall>l \<in> set lines. length l < 128)" if "dump_bytes mem len = Some lines" for lines
  proof (rule lines_all)
    show "those (map (\<lambda>j. bytes_line mem len (16 * j)) [0..<(len + 15) div 16]) = Some lines"
      using that by (simp add: dump_bytes_lines)
    fix j l
    assume j: "j < (len + 15) div 16" and l: "bytes_line mem len (16 * j) = Some l"
    from j have "16 * j < len" by linarith
    with bytes_line_length [OF l] assms show "length l < 128" by simp
  qed
  moreover have "length lines = (len div 4 + 3) div 4 \<and> (\<forall>l \<in> set lines. length l < 128)"
    if "dump_dwords mem len = Some lines" for lines
  proof (rule lines_all)
    show "those (map (\<lambda>j. dwords_line mem len (4 * j)) [0..<(len div 4 + 3) div 4]) = Some lines"
      using that by (simp add: dump_dwords_lines)
    fix j l
    assume j: "j < (len div 4 + 3) div 4" and l: "dwords_line mem len (4 * j) = Some l"
    from j have "4 * j < len div 4" "16 * j < len" by (linarith, linarith)
    with dwords_line_length [OF l] assms show "length l < 128" by simp
  qed
  moreover have "dump_bytes mem len = dump_bytes mem' len"
    if "take len mem = take len mem'" "\<not> length mem < 16 * ((len + 15) div 16)" "\<not> length mem' < 16 * ((len + 15) div 16)" for mem'
    using that by (auto simp: dump_bytes_lines not_less intro!: arg_cong [where f = those] bytes_line_same)
  ultimately show ?thesis by (auto simp: dump_bytes_None dump_dwords_None)
qed

theorem dumps_exact_witness:
  "dump_bytes (replicate 5 0x41) 5 = None \<and> dump_bytes (replicate 16 0x41) 5 \<noteq> None \<and>
   dump_dwords (replicate 4 0) 4 = None"
  using dumps_exact [of 5 "replicate 5 0x41"] dumps_exact [of 5 "replicate 16 0x41"] dumps_exact [of 4 "replicate 4 0"]
  by simp

end
