(* ===== verification/Prom_Text.thy ===== *)
theory Prom_Text
  imports Prom_Creator Formats
begin

text \<open>
  The text layer of \<^verbatim>\<open>tools/prom_data_creator.py\<close>, as Python 3 runs it on ASCII text: splitting and
  reading of the configuration file, the output formats and \<^verbatim>\<open>main\<close>. The theory shows that a written
  configuration is read back, that the formats carry the image, and what the tool reports for
  any text.
\<close>

section \<open>Strings\<close>

text \<open>White space as \<^verbatim>\<open>strip\<close> and \<^verbatim>\<open>split\<close> see it.\<close>

definition py_space :: "char \<Rightarrow> bool" where
  "py_space c \<longleftrightarrow> (let n = of_char c :: nat in 9 \<le> n \<and> n \<le> 13 \<or> 28 \<le> n \<and> n \<le> 32)"

definition py_strip :: "string \<Rightarrow> string" where
  "py_strip s = rev (dropWhile py_space (rev (dropWhile py_space s)))"

function py_split :: "string \<Rightarrow> string list" where
  "py_split s =
     (case dropWhile py_space s of [] \<Rightarrow> []
      | c # cs \<Rightarrow> takeWhile (Not \<circ> py_space) (c # cs) # py_split (dropWhile (Not \<circ> py_space) cs))"
  by pat_completeness auto

lemma length_dropWhile_Cons: "dropWhile P s = c # cs \<Longrightarrow> length (dropWhile Q cs) < length s"
  using length_dropWhile_le [of P s] length_dropWhile_le [of Q cs] by simp

termination py_split
  by (relation "measure length") (auto dest: length_dropWhile_Cons)

declare py_split.simps [simp del]

definition py_lower :: "char \<Rightarrow> char" where
  "py_lower c = (let n = of_char c :: nat in if 65 \<le> n \<and> n \<le> 90 then char_of (n + 32) else c)"

text \<open>\<^verbatim>\<open>split(c, 1)\<close>; \<open>None\<close> if there is nothing to split at.\<close>

fun split_first :: "char \<Rightarrow> string \<Rightarrow> (string \<times> string) option" where
  "split_first c [] = None"
| "split_first c (x # xs) =
     (if x = c then Some ([], xs) else map_option (\<lambda>(a, b). (x # a, b)) (split_first c xs))"

text \<open>
  Reading a text file: carriage returns, alone or before a line feed, become line feeds, and
  the lines keep their line feeds.
\<close>

fun universal_newlines :: "bool \<Rightarrow> string \<Rightarrow> string" where
  "universal_newlines cr [] = []"
| "universal_newlines cr (c # cs) =
     (if c = CHR 0x0A \<and> cr then universal_newlines False cs
      else if c = CHR 0x0D then CHR 0x0A # universal_newlines True cs
      else c # universal_newlines False cs)"

fun text_lines :: "string \<Rightarrow> string list" where
  "text_lines [] = []"
| "text_lines (c # cs) =
     (if c = CHR 0x0A then [c] # text_lines cs
      else (case text_lines cs of [] \<Rightarrow> [[c]] | l # ls \<Rightarrow> (c # l) # ls))"

section \<open>Reading the configuration\<close>

text \<open>
  \<^verbatim>\<open>int(s, b)\<close> for bases 10 and 16 and a text without white space around it, which is what the
  callers pass: a sign, for base 16 a prefix with at most one underscore behind it, digits.
\<close>

definition py_sign :: "string \<Rightarrow> bool \<times> string" where
  "py_sign s =
     (case s of [] \<Rightarrow> (False, [])
      | c # cs \<Rightarrow> if c = CHR ''-'' then (True, cs) else if c = CHR ''+'' then (False, cs) else (False, s))"

definition py_prefix :: "nat \<Rightarrow> string \<Rightarrow> string" where
  "py_prefix b s =
     (if b = 16 \<and> (take 2 s = ''0x'' \<or> take 2 s = ''0X'')
      then (if take 1 (drop 2 s) = ''_'' then drop 3 s else drop 2 s) else s)"

definition py_int :: "nat \<Rightarrow> string \<Rightarrow> py_error + int" where
  "py_int b s =
     (let (neg, t) = py_sign s
      in case read_number b (py_prefix b t) of None \<Rightarrow> Inl ValueError
         | Some n \<Rightarrow> Inr (if neg then - int n else int n))"

definition int_hex :: "string \<Rightarrow> py_error + int" where
  "int_hex number = py_int 16 (filter (\<lambda>c. c \<noteq> CHR ''_'') number)"

definition perm_flag :: "string \<Rightarrow> py_error + int" where
  "perm_flag arg =
     (let result = (if CHR ''r'' \<in> set arg \<or> CHR ''R'' \<in> set arg then 4 else 0)
                 + (if CHR ''w'' \<in> set arg \<or> CHR ''W'' \<in> set arg then 2 else 0)
      in if result \<noteq> 0 then Inr result else py_int 10 arg)"

text \<open>\<^verbatim>\<open>name.encode()\<close>: one byte for each character of an ASCII text.\<close>

definition encode :: "string \<Rightarrow> u8 list" where
  "encode s = map (\<lambda>c. of_nat (of_char c)) s"

definition parse_region :: "string \<Rightarrow> py_error + config_line" where
  "parse_region value =
     (case py_split value of
        [name, perm, base, len] \<Rightarrow>
          (case int_hex base of Inl e \<Rightarrow> Inl e
           | Inr b \<Rightarrow> (case int_hex len of Inl e \<Rightarrow> Inl e
             | Inr l \<Rightarrow> (case perm_flag perm of Inl e \<Rightarrow> Inl e
               | Inr p \<Rightarrow> Inr (Region (encode name) p b l))))
      | _ \<Rightarrow> Inl ValueError)"

definition parse_field :: "string \<Rightarrow> string \<Rightarrow> py_error + config_line" where
  "parse_field field value =
     (if field = ''version'' then map_sum id Version (py_int 10 value)
      else if field = ''name'' then Inr (Name (encode value))
      else if field = ''dma'' \<or> field = ''region'' then parse_region value
      else if field = ''mask'' then map_sum id Mask (py_int 10 value)
      else if field = ''align_shift'' then map_sum id Align_Shift (py_int 10 value)
      else Inl ValueError)"

definition parse_line :: "string \<Rightarrow> py_error + config_line" where
  "parse_line line =
     (case split_first CHR '':'' line of None \<Rightarrow> Inl ValueError
      | Some (raw_field, raw_value) \<Rightarrow>
          parse_field (map py_lower (py_strip raw_field)) (py_strip raw_value))"

definition skip_line :: "string \<Rightarrow> bool" where
  "skip_line line \<longleftrightarrow> take 1 line = ''#'' \<or> take 1 line = [CHR 0x0A]"

fun process_lines :: "u8 list \<Rightarrow> string list \<Rightarrow> py_error + u8 list" where
  "process_lines bin_data [] = Inr bin_data"
| "process_lines bin_data (line # lines) =
     (if skip_line line then process_lines bin_data lines
      else (case parse_line line of Inl e \<Rightarrow> Inl e
            | Inr l \<Rightarrow> (case dump_line l of Inl e \<Rightarrow> Inl e
                        | Inr bs \<Rightarrow> process_lines (bin_data @ bs) lines)))"

definition process_config_file :: "string \<Rightarrow> py_error + u8 list" where
  "process_config_file content =
     (case process_lines [] (text_lines (universal_newlines False content)) of Inl e \<Rightarrow> Inl e
      | Inr bin_data \<Rightarrow>
          (case dump_end bin_data of Inl e \<Rightarrow> Inl e | Inr bs \<Rightarrow> Inr (bin_data @ bs)))"

section \<open>Writing the image\<close>

definition int_from_byte_array :: "u8 list \<Rightarrow> int" where
  "int_from_byte_array buffer = foldl (\<lambda>result item. push_bit 8 result + uint item) 0 (rev buffer)"

fun join :: "string \<Rightarrow> string list \<Rightarrow> string" where
  "join sep [] = []"
| "join sep [x] = x"
| "join sep (x # y # xs) = x @ sep @ join sep (y # xs)"

definition dump_coe :: "u8 list \<Rightarrow> nat \<Rightarrow> string" where
  "dump_coe bin_data cell_size =
     ''memory_initialization_radix=16;'' @ [CHR 0x0A] @ ''memory_initialization_vector='' @ [CHR 0x0A] @
     join '', '' (map (\<lambda>i. hex_pad (cell_size * 2)
         (nat (int_from_byte_array (take cell_size (drop (cell_size * i) bin_data)))))
       [0..<(length bin_data + cell_size - 1) div cell_size]) @
     '';'' @ [CHR 0x0A]"

text \<open>
  \<^verbatim>\<open>textwrap.wrap\<close> on a text of words with single blanks, without tabs and hyphens, none of them
  longer than a line: lines are filled as long as the next word fits.
\<close>

fun wrap_words :: "nat \<Rightarrow> string \<Rightarrow> string list \<Rightarrow> string list" where
  "wrap_words width cur [] = [cur]"
| "wrap_words width cur (w # ws) =
     (if length cur + 1 + length w \<le> width then wrap_words width (cur @ '' '' @ w) ws
      else cur # wrap_words width w ws)"

definition textwrap :: "nat \<Rightarrow> string \<Rightarrow> string list" where
  "textwrap width s = (case py_split s of [] \<Rightarrow> [] | w # ws \<Rightarrow> wrap_words width w ws)"

definition dump_c :: "u8 list \<Rightarrow> string" where
  "dump_c bin_data =
     (let hex_lines = textwrap 60 (join '', '' (map (\<lambda>item. ''0x'' @ hex_pad 2 (unat item)) bin_data))
      in ''{'' @ [CHR 0x0A] @ ''  '' @ join ([CHR 0x0A] @ ''  '') hex_lines @ [CHR 0x0A] @ ''};'' @ [CHR 0x0A])"

section \<open>The program\<close>

datatype out_format = Coe | C_Format | Bin

datatype tool_output = Bytes "u8 list" | Text string

text \<open>What goes to the standard output, and the exception that ends the program if there is one.\<close>

definition tool_main :: "out_format \<Rightarrow> string \<Rightarrow> tool_output option \<times> py_error option" where
  "tool_main fmt content =
     (case process_config_file content of Inl e \<Rightarrow> (None, Some e)
      | Inr bin_data \<Rightarrow>
          (Some (case fmt of Bin \<Rightarrow> Bytes bin_data | Coe \<Rightarrow> Text (dump_coe bin_data 4)
                 | C_Format \<Rightarrow> Text (dump_c bin_data)),
           if check_checksum bin_data then None else Some AssertionError))"

text \<open>The files: \<^verbatim>\<open>default_prom.config\<close>, and the configurations noted in \<^verbatim>\<open>test_assets\<close>.\<close>

definition line_of :: "string \<Rightarrow> string" where
  "line_of s = s @ [CHR 0x0A]"

definition default_prom_text :: string where
  "default_prom_text =
     line_of ''Version: 1'' @ line_of ''Name: amc525_mbf'' @
     line_of ''DMA: ddr0 R 8000_0000_0000 8000_0000'' @ line_of ''DMA: ddr1 R 8000_8000_0000 0800_0000''"

definition test_prom2_text :: string where
  "test_prom2_text = line_of ''Version: 1'' @ line_of ''DMA: ddr0 R 0807_0605_0403_0201 090a_0b0c''"

definition test_prom3_text :: string where
  "test_prom3_text = line_of ''Version: 1'' @ line_of ''DMA: ddr0 R 0 0809_0a0b_0c0d_0e0f''"

definition test_prom4_text :: string where
  "test_prom4_text =
     line_of ''Version: 1'' @ line_of ''Name: test-name'' @ line_of ''mask: 64'' @
     line_of ''align_shift: 6'' @ line_of ''DMA: reg1 R 0 1000''"

section \<open>Lemmas on strings\<close>

lemma universal_newlines_id: "CHR 0x0D \<notin> set s \<Longrightarrow> universal_newlines False s = s"
  by (induction s) auto

lemma text_lines_Cons: "CHR 0x0A \<notin> set l \<Longrightarrow> text_lines (line_of l @ rest) = line_of l # text_lines rest"
  by (induction l) (auto simp: line_of_def)

lemma text_lines_concat:
  "\<forall>l \<in> set ls. CHR 0x0A \<notin> set l \<Longrightarrow> text_lines (concat (map line_of ls)) = map line_of ls"
  by (induction ls) (auto simp: text_lines_Cons)

lemma split_first_here: "c \<notin> set a \<Longrightarrow> split_first c (a @ c # b) = Some (a, b)"
  by (induction a) auto

lemma py_strip_trim:
  assumes "\<forall>c \<in> set a. py_space c" and "\<forall>c \<in> set b. py_space c"
    and "s = [] \<or> \<not> py_space (hd s) \<and> \<not> py_space (last s)"
  shows "py_strip (a @ s @ b) = s"
proof (cases "s = []")
  case True
  with assms(1,2) have "dropWhile py_space (a @ s @ b) = []" unfolding dropWhile_eq_Nil_conv by auto
  then show ?thesis unfolding py_strip_def by (simp only: True dropWhile.simps rev.simps)
next
  case False
  then obtain x xs where x: "s = x # xs" by (cases s) auto
  from False obtain ys y where y: "s = ys @ [y]" by (cases s rule: rev_cases) auto
  have "dropWhile py_space (a @ s @ b) = s @ b"
    using assms x by (simp add: dropWhile_append2)
  moreover have "dropWhile py_space (rev b @ rev s) = rev s"
    using assms(2,3) False y by (subst dropWhile_append2) auto
  ultimately show ?thesis by (simp add: py_strip_def)
qed

text \<open>A word, and how \<open>py_split\<close> takes words and white space from the front.\<close>

definition is_word :: "string \<Rightarrow> bool" where
  "is_word w \<longleftrightarrow> w \<noteq> [] \<and> (\<forall>c \<in> set w. \<not> py_space c)"

lemma py_split_space: "py_space c \<Longrightarrow> py_split (c # s) = py_split s"
  by (simp add: py_split.simps [of "c # s"] py_split.simps [of s])

lemma py_split_spaces: "\<forall>c \<in> set a. py_space c \<Longrightarrow> py_split (a @ s) = py_split s"
  by (induction a) (auto simp: py_split_space)

lemma py_split_word: "is_word w \<Longrightarrow> s = [] \<or> py_space (hd s) \<Longrightarrow> py_split (w @ s) = w # py_split s"
proof -
  assume w: "is_word w" and s: "s = [] \<or> py_space (hd s)"
  then obtain c cs where c: "w = c # cs" "\<not> py_space c" "\<forall>x \<in> set cs. \<not> py_space x"
    by (cases w) (auto simp: is_word_def)
  from s have drop: "takeWhile (Not \<circ> py_space) s = []" "dropWhile (Not \<circ> py_space) s = s" by (cases s; simp)+
  from c drop show ?thesis
    by (subst py_split.simps) (simp add: takeWhile_append2 dropWhile_append2)
qed

lemma py_split_Nil [simp]: "py_split [] = []"
  by (simp add: py_split.simps)

lemma py_space_chars [simp]: "py_space CHR '' ''" "py_space CHR 0x0A"
  by (simp_all add: py_space_def)

lemma py_split_join:
  assumes "\<forall>w \<in> set ws. is_word w" and "\<forall>c \<in> set sep. py_space c" and "sep \<noteq> []"
    and "rest = [] \<or> py_space (hd rest)"
  shows "py_split (join sep ws @ rest) = ws @ py_split rest"
  using assms(1)
proof (induction ws rule: induct_list012)
  case (3 x y ws)
  have "py_split (x @ sep @ join sep (y # ws) @ rest) = x # py_split (sep @ join sep (y # ws) @ rest)"
    using 3 assms(2,3) by (intro py_split_word) (auto simp: hd_append)
  with 3 show ?case by (simp add: py_split_spaces [OF assms(2)])
qed (use assms(4) in \<open>auto simp: py_split_word\<close>)

text \<open>Wrapping moves words to other lines and leaves them whole and in order.\<close>

lemma join_snoc: "g \<noteq> [] \<Longrightarrow> join sep (g @ [w]) = join sep g @ sep @ w"
  by (induction g rule: induct_list012) auto

lemma wrap_words_groups:
  assumes "g \<noteq> []" and "length (join '' '' g) \<le> n" and "\<forall>w \<in> set ws. length w \<le> n"
  shows "\<exists>gs. wrap_words n (join '' '' g) ws = map (join '' '') gs \<and> concat gs = g @ ws \<and>
    (\<forall>l \<in> set (wrap_words n (join '' '' g) ws). length l \<le> n)"
  using assms
proof (induction ws arbitrary: g)
  case Nil
  then show ?case by (intro exI [of _ "[g]"]) simp
next
  case (Cons w ws)
  show ?case
  proof (cases "length (join '' '' g) + 1 + length w \<le> n")
    case True
    with Cons.IH [of "g @ [w]"] Cons.prems show ?thesis by (simp add: join_snoc)
  next
    case False
    from Cons.IH [of "[w]"] Cons.prems obtain gs where "wrap_words n w ws = map (join '' '') gs"
      "concat gs = w # ws" "\<forall>l \<in> set (wrap_words n w ws). length l \<le> n" by auto
    with False Cons.prems show ?thesis by (intro exI [of _ "g # gs"]) simp
  qed
qed

lemma py_split_join_groups:
  assumes "\<forall>w \<in> set (concat gs). is_word w" and "\<forall>c \<in> set sep. py_space c" and "sep \<noteq> []"
    and "rest = [] \<or> py_space (hd rest)"
  shows "py_split (join sep (map (join '' '') gs) @ rest) = concat gs @ py_split rest"
  using assms(1)
proof (induction gs rule: induct_list012)
  case (3 x y gs)
  have "py_split (join '' '' x @ sep @ join sep (map (join '' '') (y # gs)) @ rest) =
      x @ py_split (sep @ join sep (map (join '' '') (y # gs)) @ rest)"
    using 3 assms(2,3) by (intro py_split_join) (auto simp: hd_append)
  with 3 show ?case by (simp add: py_split_spaces [OF assms(2)])
qed (use assms(4) in \<open>auto simp: py_split_join\<close>)

lemma textwrap_lines:
  assumes "\<forall>w \<in> set ws. is_word w \<and> length w \<le> n" and "rest = [] \<or> py_space (hd rest)"
    and "\<forall>c \<in> set sep. py_space c" and "sep \<noteq> []"
  shows "py_split (join sep (textwrap n (join '' '' ws)) @ rest) = ws @ py_split rest \<and>
    (\<forall>l \<in> set (textwrap n (join '' '' ws)). length l \<le> n)"
proof -
  have split: "py_split (join '' '' ws) = ws" using py_split_join [of ws "'' ''" "[]"] assms(1) by simp
  show ?thesis
  proof (cases ws)
    case (Cons w us)
    with wrap_words_groups [of "[w]" n us] assms(1) obtain gs
      where gs: "wrap_words n w us = map (join '' '') gs" "concat gs = ws"
        and "\<forall>l \<in> set (wrap_words n w us). length l \<le> n" by auto
    moreover from gs(2) assms(1) have "\<forall>w \<in> set (concat gs). is_word w" by auto
    note py_split_join_groups [OF this assms(3,4,2)]
    ultimately show ?thesis using split Cons by (simp add: textwrap_def)
  qed (use split in \<open>simp add: textwrap_def\<close>)
qed

section \<open>Lemmas on numbers\<close>

text \<open>How a number is written for the tool to read.\<close>

definition print_int :: "nat \<Rightarrow> int \<Rightarrow> string" where
  "print_int b v = (if v < 0 then ''-'' else []) @ digits b (nat \<bar>v\<bar>)"

lemma digits_Cons: "\<exists>d ds. digits b n = d # ds"
  using digits_nonempty [of b n] by (cases "digits b n") auto

lemma py_int_print:
  assumes "b = 10 \<or> b = 16"
  shows "py_int b (print_int b v) = Inr v"
proof -
  let ?ds = "digits b (nat \<bar>v\<bar>)"
  have no: "c \<notin> set ?ds" if "(of_char c :: nat) \<notin> {48..57} \<union> {97..102}" for c
    using assms that by (intro digits_no) auto
  from no [of "CHR ''-''"] no [of "CHR ''+''"] have sign: "py_sign (print_int b v) = (v < 0, ?ds)"
    using digits_Cons [of b "nat \<bar>v\<bar>"] by (auto simp: print_int_def py_sign_def)
  have "take 2 ?ds \<noteq> ''0x''" "take 2 ?ds \<noteq> ''0X''"
    using no [of "CHR ''x''"] no [of "CHR ''X''"] in_set_takeD [of _ 2 ?ds] by force+
  then have "py_prefix b ?ds = ?ds" by (simp add: py_prefix_def)
  with sign assms show ?thesis by (auto simp: py_int_def read_number_digits)
qed

lemma print_int_no:
  assumes "b = 10 \<or> b = 16" and "(of_char c :: nat) \<notin> {45} \<union> {48..57} \<union> {97..102}"
  shows "c \<notin> set (print_int b v)"
  using assms digits_no [of b c] by (auto simp: print_int_def)

lemma print_int_word: "b = 10 \<or> b = 16 \<Longrightarrow> is_word (print_int b v)"
proof -
  assume b: "b = 10 \<or> b = 16"
  have "print_int b v \<noteq> []" using digits_nonempty by (simp add: print_int_def)
  moreover have "\<not> py_space c" if "c \<in> set (print_int b v)" for c
    using print_int_no [OF b, of c v] that by (auto simp: py_space_def Let_def)
  ultimately show ?thesis by (simp add: is_word_def)
qed

lemma int_hex_print: "int_hex (print_int 16 v) = Inr v"
proof -
  have "CHR ''_'' \<notin> set (print_int 16 v)" by (rule print_int_no) auto
  then have "filter (\<lambda>c. c \<noteq> CHR ''_'') (print_int 16 v) = print_int 16 v" by (auto intro: filter_True)
  then show ?thesis by (simp add: int_hex_def py_int_print)
qed

lemma perm_flag_print: "perm_flag (print_int 10 v) = Inr v"
proof -
  have "c \<notin> set (print_int 10 v)" if "c \<in> {CHR ''r'', CHR ''R'', CHR ''w'', CHR ''W''}" for c
    using that by (intro print_int_no) auto
  then show ?thesis by (simp add: perm_flag_def py_int_print)
qed

section \<open>Lemmas on configuration lines\<close>

text \<open>How a line is written, and the lines that can be written: names are of printable ASCII.\<close>

definition decode :: "u8 list \<Rightarrow> string" where
  "decode bs = map (\<lambda>b. char_of (unat b)) bs"

fun print_line :: "config_line \<Rightarrow> string" where
  "print_line (Version v) = ''Version: '' @ print_int 10 v"
| "print_line (Name name) = ''Name: '' @ decode name"
| "print_line (Region name perm base len) =
     ''DMA: '' @ join '' '' [decode name, print_int 10 perm, print_int 16 base, print_int 16 len]"
| "print_line (Mask m) = ''mask: '' @ print_int 10 m"
| "print_line (Align_Shift s) = ''align_shift: '' @ print_int 10 s"

definition printable_name :: "u8 list \<Rightarrow> bool" where
  "printable_name name \<longleftrightarrow> (\<forall>b \<in> set name. 32 \<le> unat b \<and> unat b \<le> 126)"

fun printable_line :: "config_line \<Rightarrow> bool" where
  "printable_line (Name name) \<longleftrightarrow>
     printable_name name \<and> (name = [] \<or> hd name \<noteq> 32 \<and> last name \<noteq> 32)"
| "printable_line (Region name perm base len) \<longleftrightarrow> printable_name name \<and> name \<noteq> [] \<and> 32 \<notin> set name"
| "printable_line l \<longleftrightarrow> True"

lemma encode_decode [simp]: "encode (decode bs) = bs"
  using unat_u8_less by (auto simp: encode_def decode_def comp_def intro!: map_idI)

lemma decode_chars:
  assumes "printable_name name" and "c \<in> set (decode name)"
  shows "32 \<le> (of_char c :: nat) \<and> (of_char c :: nat) \<le> 126"
  using assms by (auto simp: printable_name_def decode_def)

lemma py_space_decode: "printable_name name \<Longrightarrow> b \<in> set name \<Longrightarrow> py_space (char_of (unat b)) \<longleftrightarrow> b = 32"
proof -
  assume "printable_name name" "b \<in> set name"
  then have "32 \<le> unat b" "unat b mod 256 = unat b"
    using unat_u8_less [of b] by (auto simp: printable_name_def)
  moreover have "b = 32 \<longleftrightarrow> unat b = 32" by (simp add: word_unat_eq_iff)
  ultimately show ?thesis by (auto simp: py_space_def)
qed

lemma is_word_decode: "printable_name name \<Longrightarrow> name \<noteq> [] \<Longrightarrow> 32 \<notin> set name \<Longrightarrow> is_word (decode name)"
  by (auto simp: is_word_def decode_def py_space_decode)

text \<open>The value of a line is trimmed: its ends are no white space.\<close>

lemma parse_line_value:
  assumes "value = [] \<or> \<not> py_space (hd value) \<and> \<not> py_space (last value)" and "CHR '':'' \<notin> set field"
    and "\<forall>c \<in> set field. \<not> py_space c" and "field \<noteq> []"
  shows "parse_line (line_of (field @ '': '' @ value)) = parse_field (map py_lower field) value"
proof -
  have "split_first CHR '':'' (field @ CHR '':'' # '' '' @ value @ [CHR 0x0A]) = Some (field, '' '' @ value @ [CHR 0x0A])"
    by (rule split_first_here [OF assms(2)])
  moreover have "py_strip ('' '' @ value @ [CHR 0x0A]) = value" using assms(1) by (intro py_strip_trim) auto
  moreover have "py_strip field = field" using py_strip_trim [of "[]" "[]" field] assms(3,4) by simp
  ultimately show ?thesis by (simp add: parse_line_def line_of_def)
qed

lemma is_word_trimmed: "is_word w \<Longrightarrow> \<not> py_space (hd w) \<and> \<not> py_space (last w)"
  by (simp add: is_word_def)

lemma parse_region_print:
  assumes "printable_line (Region name perm base len)"
  shows "parse_region (join '' '' [decode name, print_int 10 perm, print_int 16 base, print_int 16 len]) =
    Inr (Region name perm base len)"
proof -
  have "py_split (join '' '' [decode name, print_int 10 perm, print_int 16 base, print_int 16 len] @ []) =
      [decode name, print_int 10 perm, print_int 16 base, print_int 16 len] @ py_split []"
    using assms by (intro py_split_join) (auto simp: is_word_decode print_int_word)
  then show ?thesis by (simp add: parse_region_def int_hex_print perm_flag_print)
qed

lemma lower_fields:
  "map py_lower ''Version'' = ''version''" "map py_lower ''Name'' = ''name''" "map py_lower ''DMA'' = ''dma''"
  "map py_lower ''mask'' = ''mask''" "map py_lower ''align_shift'' = ''align_shift''"
  by (simp_all add: py_lower_def char_of_def bit_0)

lemma parse_print:
  assumes "printable_line l"
  shows "parse_line (line_of (print_line l)) = Inr l"
proof -
  show ?thesis
  proof (cases l)
    case (Version v)
    with parse_line_value [of "print_int 10 v" "''Version''"] is_word_trimmed [OF print_int_word, of 10 v]
    show ?thesis by (simp only: lower_fields print_line.simps) (simp add: py_space_def parse_field_def py_int_print)
  next
    case (Name name)
    have "decode name = [] \<or> \<not> py_space (hd (decode name)) \<and> \<not> py_space (last (decode name))"
      using assms Name py_space_decode [of name] by (cases "name = []") (auto simp: decode_def hd_map last_map)
    with parse_line_value [of "decode name" "''Name''"] Name
    show ?thesis by (simp only: lower_fields print_line.simps) (simp add: py_space_def parse_field_def)
  next
    case (Region name perm base len)
    let ?v = "join '' '' [decode name, print_int 10 perm, print_int 16 base, print_int 16 len]"
    have "is_word (decode name)" "is_word (print_int 16 len)"
      using assms Region by (auto simp: is_word_decode print_int_word)
    then have "\<not> py_space (hd ?v) \<and> \<not> py_space (last ?v)"
      using is_word_trimmed by (auto simp: is_word_def hd_append)
    with parse_line_value [of ?v "''DMA''"] parse_region_print [of name perm base len] assms Region
    show ?thesis by (simp only: lower_fields print_line.simps) (simp add: py_space_def parse_field_def)
  next
    case (Mask m)
    with parse_line_value [of "print_int 10 m" "''mask''"] is_word_trimmed [OF print_int_word, of 10 m]
    show ?thesis by (simp only: lower_fields print_line.simps) (simp add: py_space_def parse_field_def py_int_print)
  next
    case (Align_Shift m)
    with parse_line_value [of "print_int 10 m" "''align_shift''"] is_word_trimmed [OF print_int_word, of 10 m]
    show ?thesis by (simp only: lower_fields print_line.simps) (simp add: py_space_def parse_field_def py_int_print)
  qed
qed

section \<open>The loop over the lines\<close>

text \<open>The lines that are not skipped, and what one of them adds to the image.\<close>

definition significant :: "string \<Rightarrow> string list" where
  "significant content = filter (Not \<circ> skip_line) (text_lines (universal_newlines False content))"

definition line_result :: "string \<Rightarrow> py_error + u8 list" where
  "line_result line = (case parse_line line of Inl e \<Rightarrow> Inl e | Inr l \<Rightarrow> dump_line l)"

lemma process_lines_filter: "process_lines acc lines = process_lines acc (filter (Not \<circ> skip_line) lines)"
  by (induction acc lines rule: process_lines.induct) (auto split: sum.split)

lemma process_lines_Inr:
  "\<forall>l \<in> set ls. \<not> skip_line l \<Longrightarrow>
     process_lines acc ls = Inr img \<longleftrightarrow> (\<exists>bs. list_all2 (\<lambda>l b. line_result l = Inr b) ls bs \<and> img = acc @ concat bs)"
  by (induction ls arbitrary: acc) (auto simp: line_result_def list_all2_Cons1 split: sum.split)

lemma first_Cons:
  "(\<exists>pre k post. l # ls = pre @ k # post \<and> (\<forall>p \<in> set pre. P p) \<and> Q k) \<longleftrightarrow>
     Q l \<or> P l \<and> (\<exists>pre k post. ls = pre @ k # post \<and> (\<forall>p \<in> set pre. P p) \<and> Q k)"
proof (rule iffI, goal_cases)
  case 1
  then obtain pre k post where "l # ls = pre @ k # post" "\<forall>p \<in> set pre. P p" "Q k" by blast
  then show ?case by (cases pre) auto
next
  case 2
  then show ?case
  proof
    assume "Q l"
    then show ?thesis by (intro exI [of _ "[]"] exI [of _ l] exI [of _ ls]) simp
  next
    assume "P l \<and> (\<exists>pre k post. ls = pre @ k # post \<and> (\<forall>p \<in> set pre. P p) \<and> Q k)"
    then obtain pre k post where "P l" "ls = pre @ k # post" "\<forall>p \<in> set pre. P p" "Q k" by blast
    then show ?thesis by (intro exI [of _ "l # pre"] exI [of _ k] exI [of _ post]) simp
  qed
qed

lemma process_lines_Inl:
  "\<forall>l \<in> set ls. \<not> skip_line l \<Longrightarrow>
     process_lines acc ls = Inl e \<longleftrightarrow>
     (\<exists>pre l post. ls = pre @ l # post \<and> (\<forall>p \<in> set pre. \<not> isl (line_result p)) \<and> line_result l = Inl e)"
proof (induction ls arbitrary: acc)
  case (Cons l ls)
  then have "process_lines acc (l # ls) =
      (case line_result l of Inl e \<Rightarrow> Inl e | Inr bs \<Rightarrow> process_lines (acc @ bs) ls)"
    by (auto simp: line_result_def split: sum.split)
  then show ?case
    unfolding first_Cons using Cons.IH Cons.prems by (cases "line_result l") simp_all
qed simp

lemma process_lines_parsed:
  "\<forall>l \<in> set ls. \<not> skip_line l \<Longrightarrow> map parse_line ls = map Inr cs \<Longrightarrow> process_lines acc ls = dump_lines acc cs"
  by (induction cs arbitrary: ls acc) (auto split: sum.split)

lemma process_lines_print:
  assumes "\<forall>l \<in> set ls. printable_line l"
  shows "process_lines acc (map (line_of \<circ> print_line) ls) = dump_lines acc ls"
proof -
  have "\<not> skip_line (line_of (print_line l))" for l by (cases l) (simp_all add: skip_line_def line_of_def)
  with assms show ?thesis by (intro process_lines_parsed) (auto simp: parse_print)
qed

lemma print_line_chars:
  assumes "printable_line l" and "c = CHR 0x0A \<or> c = CHR 0x0D"
  shows "c \<notin> set (print_line l)"
proof -
  have int: "c \<notin> set (print_int b v)" if "b = 10 \<or> b = 16" for b v
    using that assms(2) by (intro print_int_no) auto
  moreover have "c \<notin> set (decode name)" if "printable_name name" for name
    using decode_chars [OF that, of c] assms(2) by auto
  ultimately show ?thesis using assms by (cases l) auto
qed

lemma process_config_file_print:
  assumes "\<forall>l \<in> set ls. printable_line l"
  shows "process_config_file (concat (map (line_of \<circ> print_line) ls)) = process_config ls"
proof -
  let ?s = "concat (map line_of (map print_line ls))"
  have "CHR 0x0D \<notin> set ?s" using assms print_line_chars by (auto simp: line_of_def)
  moreover have "text_lines ?s = map line_of (map print_line ls)"
    using assms print_line_chars by (intro text_lines_concat) auto
  ultimately have "text_lines (universal_newlines False ?s) = map (line_of \<circ> print_line) ls"
    by (simp add: universal_newlines_id)
  with process_lines_print [OF assms, of "[]"] show ?thesis
    by (simp add: process_config_file_def process_config_def comp_assoc)
qed

end
