(* ===== verification/Prom_Tool.thy ===== *)
theory Prom_Tool
  imports Prom_Text Prom_Props
begin

text \<open>
  What the image tool guarantees as a program: the configuration is read as it was written, both
  text formats carry the image, every text has a determined outcome, and the driver loads what
  the tool prints.
\<close>

section \<open>Readers of the output\<close>

text \<open>
  The output is read by other programs: the C format by the compiler, as an initialiser of an
  array, and the COE format by the FPGA tools, which fill the PROM with the words in it, zero
  behind them. The readers below accept only well-formed lists of whole numbers.
\<close>

fun read_items :: "(string \<Rightarrow> 'a option) \<Rightarrow> string list \<Rightarrow> 'a list option" where
  "read_items f [] = None"
| "read_items f [t] = map_option (\<lambda>x. [x]) (f t)"
| "read_items f (t # u # ts) =
     (if t \<noteq> [] \<and> last t = CHR '','' then
        (case f (butlast t) of None \<Rightarrow> None | Some x \<Rightarrow> map_option ((#) x) (read_items f (u # ts)))
      else None)"

definition c_byte :: "string \<Rightarrow> u8 option" where
  "c_byte t =
     (if take 2 t = ''0x'' then
        (case read_number 16 (drop 2 t) of None \<Rightarrow> None | Some n \<Rightarrow> if n < 256 then Some (of_nat n) else None)
      else None)"

definition read_c :: "string \<Rightarrow> u8 list option" where
  "read_c s =
     (case py_split s of [] \<Rightarrow> None
      | t # ts \<Rightarrow> if t = ''{'' \<and> ts \<noteq> [] \<and> last ts = ''};'' then read_items c_byte (butlast ts) else None)"

definition read_coe :: "string \<Rightarrow> nat list option" where
  "read_coe s =
     (case py_split s of
        t # u # ts \<Rightarrow>
          if t = ''memory_initialization_radix=16;'' \<and> u = ''memory_initialization_vector='' \<and> ts \<noteq> [] \<and>
             last ts \<noteq> [] \<and> last (last ts) = CHR '';''
          then read_items (read_number 16) (butlast ts @ [butlast (last ts)]) else None
      | _ \<Rightarrow> None)"

text \<open>The bytes of a PROM that is filled with words.\<close>

definition prom_of_words :: "nat list \<Rightarrow> u8 list" where
  "prom_of_words ws = window_of (concat (map (le_bytes 4) ws))"

section \<open>Lemmas on the formats\<close>

fun comma_words :: "string list \<Rightarrow> string list" where
  "comma_words [] = []"
| "comma_words [x] = [x]"
| "comma_words (x # y # xs) = (x @ '','') # comma_words (y # xs)"

lemma comma_words_Cons: "comma_words (x # xs) \<noteq> []"
  by (cases xs) auto

lemma join_comma: "join '', '' xs = join '' '' (comma_words xs)"
proof (induction xs rule: comma_words.induct)
  case (3 x y xs)
  obtain v vs where v: "comma_words (y # xs) = v # vs" using comma_words_Cons by (metis neq_Nil_conv)
  with 3 show ?case by (simp add: v)
qed simp_all

lemma py_space_marks [simp]:
  "\<not> py_space CHR '',''" "\<not> py_space CHR '';''" "\<not> py_space CHR ''0''" "\<not> py_space CHR ''x''"
  by (simp_all add: py_space_def)

lemma comma_words_set: "set (comma_words xs) \<subseteq> set xs \<union> (\<lambda>x. x @ '','') ` set xs"
  by (induction xs rule: comma_words.induct) auto

lemma comma_words_word:
  "\<forall>x \<in> set xs. is_word x \<and> length x < n \<Longrightarrow> w \<in> set (comma_words xs) \<Longrightarrow> is_word w \<and> length w \<le> n"
proof -
  assume xs: "\<forall>x \<in> set xs. is_word x \<and> length x < n" and "w \<in> set (comma_words xs)"
  then have "w \<in> set xs \<or> (\<exists>x \<in> set xs. w = x @ '','')" using comma_words_set [of xs] by auto
  with xs show ?thesis by (auto simp: is_word_def)
qed

lemma read_items_comma:
  assumes "xs \<noteq> []" and "\<And>x. x \<in> set xs \<Longrightarrow> f (g x) = Some (h x)"
  shows "read_items f (comma_words (map g xs)) = Some (map h xs)"
  using assms
proof (induction xs rule: induct_list012)
  case (3 x y xs)
  obtain v vs where v: "comma_words (g y # map g xs) = v # vs" using comma_words_Cons by (metis neq_Nil_conv)
  from 3 v show ?case by (simp add: v)
qed simp_all

lemma hex_pad_word: "is_word (hex_pad w n)"
proof -
  have "hex_pad w n \<noteq> []" using digits_nonempty by (simp add: hex_pad_def)
  moreover have "\<not> py_space c" if "c \<in> set (hex_pad w n)" for c
    using hex_pad_no [of c w n] that by (auto simp: py_space_def Let_def)
  ultimately show ?thesis by (simp add: is_word_def)
qed

lemma c_token: "is_word (''0x'' @ hex_pad 2 (unat b)) \<and> length (''0x'' @ hex_pad 2 (unat b)) = 4 \<and>
    c_byte (''0x'' @ hex_pad 2 (unat b)) = Some b"
  for b :: u8
  using hex_pad_word [of 2 "unat b"] hex_pad_exact [of "unat b" 2] unat_u8_less [of b]
  by (auto simp: is_word_def c_byte_def read_number_hex_pad)

lemma dump_c_split:
  "py_split (dump_c bs) = ''{'' # comma_words (map (\<lambda>b. ''0x'' @ hex_pad 2 (unat b)) bs) @ [''};'']"
proof -
  let ?nl = "[CHR 0x0A] @ ''  ''" and ?ws = "comma_words (map (\<lambda>b. ''0x'' @ hex_pad 2 (unat b)) bs)"
  have ws: "\<forall>w \<in> set ?ws. is_word w \<and> length w \<le> 60"
    using comma_words_word [of "map (\<lambda>b. ''0x'' @ hex_pad 2 (unat b)) bs" 5] c_token by fastforce
  have close: "py_split ([CHR 0x0A] @ ''};'' @ [CHR 0x0A]) = [''};'']"
    by (simp add: py_split.simps py_space_def)
  have "py_split (''{'' @ ?nl @ join ?nl (textwrap 60 (join '' '' ?ws)) @ [CHR 0x0A] @ ''};'' @ [CHR 0x0A]) =
      ''{'' # py_split (?nl @ join ?nl (textwrap 60 (join '' '' ?ws)) @ [CHR 0x0A] @ ''};'' @ [CHR 0x0A])"
    by (rule py_split_word) (simp_all add: is_word_def py_space_def)
  also have "py_split (?nl @ join ?nl (textwrap 60 (join '' '' ?ws)) @ [CHR 0x0A] @ ''};'' @ [CHR 0x0A]) =
      py_split (join ?nl (textwrap 60 (join '' '' ?ws)) @ [CHR 0x0A] @ ''};'' @ [CHR 0x0A])"
    by (rule py_split_spaces) auto
  also have "\<dots> = ?ws @ [''};'']"
    unfolding close [symmetric] by (rule conjunct1 [OF textwrap_lines [OF ws]]) auto
  finally show ?thesis by (simp add: dump_c_def join_comma)
qed

lemma read_c_dump: "bs \<noteq> [] \<Longrightarrow> read_c (dump_c bs) = Some bs"
  using read_items_comma [of bs c_byte "\<lambda>b. ''0x'' @ hex_pad 2 (unat b)" "\<lambda>b. b"] c_token
  by (simp add: read_c_def dump_c_split)

lemma int_from_byte_array_le: "int_from_byte_array bs = int (le_val bs)"
  unfolding int_from_byte_array_def foldl_conv_foldr rev_rev_ident
  by (induction bs) (simp_all add: push_bit_eq_mult)

text \<open>The words of the COE file: four bytes each, the last one filled up with zeros.\<close>

definition coe_words :: "u8 list \<Rightarrow> nat list" where
  "coe_words bs = map (\<lambda>i. le_val (take 4 (drop (4 * i) bs))) [0..<(length bs + 3) div 4]"

lemma le_bytes_zero: "le_bytes n 0 = replicate n 0"
  by (induction n) simp_all

lemma le_bytes_le_val_pad: "length xs \<le> n \<Longrightarrow> le_bytes n (le_val xs) = xs @ replicate (n - length xs) 0"
proof -
  assume n: "length xs \<le> n"
  then have "le_bytes n (le_val xs) = le_bytes (length xs + (n - length xs)) (le_val xs)" by simp
  also have "\<dots> = le_bytes (length xs) (le_val xs) @ le_bytes (n - length xs) (le_val xs div 256 ^ length xs)"
    by (rule le_bytes_add)
  also have "\<dots> = xs @ replicate (n - length xs) 0"
    using le_val_bound [of xs] by (simp add: le_bytes_le_val le_bytes_zero)
  finally show ?thesis .
qed

lemma coe_words_drop: "bs \<noteq> [] \<Longrightarrow> coe_words bs = le_val (take 4 bs) # coe_words (drop 4 bs)"
proof -
  assume "bs \<noteq> []"
  then have "0 < length bs" by simp
  then have n: "(length bs + 3) div 4 = Suc ((length (drop 4 bs) + 3) div 4)" 
    by (simp only: length_drop) presburger
  show ?thesis
    unfolding coe_words_def n by (simp add: upt_conv_Cons map_Suc_upt [symmetric] add.commute del: upt_Suc)
qed

lemma length_coe_words: "length (coe_words bs) = (length bs + 3) div 4"
  by (simp add: coe_words_def)

lemma coe_words_bytes:
  "concat (map (le_bytes 4) (coe_words bs)) = bs @ replicate (4 * length (coe_words bs) - length bs) 0"
proof (induction bs rule: length_induct)
  case (1 bs)
  show ?case
  proof (cases "bs = []")
    case False
    note drop = coe_words_drop [OF False]
    have IH: "concat (map (le_bytes 4) (coe_words (drop 4 bs))) =
        drop 4 bs @ replicate (4 * length (coe_words (drop 4 bs)) - length (drop 4 bs)) 0"
      using 1 False by simp
    show ?thesis
    proof (cases "4 \<le> length bs")
      case True
      have "4 * Suc m - length bs = 4 * m - (length bs - 4)" for m using True by simp
      with IH True show ?thesis by (simp add: drop le_bytes_le_val_pad del: mult_Suc_right)
    next
      case short: False
      then have "drop 4 bs = []" "take 4 bs = bs" by simp_all
      moreover have "coe_words [] = []" by (simp add: coe_words_def)
      ultimately show ?thesis using short by (simp add: drop le_bytes_le_val_pad)
    qed
  qed (simp add: coe_words_def)
qed

lemma prom_of_coe_words: "length bs \<le> PROM_MAX_LENGTH \<Longrightarrow> prom_of_words (coe_words bs) = window_of bs"
proof -
  assume len: "length bs \<le> PROM_MAX_LENGTH"
  have "replicate (4 * length (coe_words bs) - length bs) 0 @
      replicate (PROM_MAX_LENGTH - 4 * length (coe_words bs)) 0 = replicate (PROM_MAX_LENGTH - length bs) (0 :: u8)"
    using len by (simp add: length_coe_words flip: replicate_add)
  moreover have "length bs \<le> 4 * length (coe_words bs)" by (simp add: length_coe_words)
  ultimately show ?thesis using coe_words_bytes [of bs] by (simp add: prom_of_words_def window_of_def)
qed

lemma join_last: "join sep (xs @ [x]) @ t = join sep (xs @ [x @ t])"
  by (induction xs rule: induct_list012) auto

lemma comma_words_snoc: "comma_words (xs @ [x]) = map (\<lambda>x. x @ '','') xs @ [x]"
  by (induction xs rule: induct_list012) auto

lemma read_coe_dump:
  assumes "bs \<noteq> []"
  shows "read_coe (dump_coe bs 4) = Some (coe_words bs)"
proof -
  let ?r = "''memory_initialization_radix=16;''" and ?v = "''memory_initialization_vector=''"
  have ne: "coe_words bs \<noteq> []" using assms by (simp add: coe_words_drop)
  then obtain us w where us: "coe_words bs = us @ [w]" by (metis rev_exhaust)
  let ?ts = "map (\<lambda>n. hex_pad 8 n @ '','') us @ [hex_pad 8 w @ '';'']"
  have "dump_coe bs 4 = join [CHR 0x0A] [?r, ?v, join '', '' (map (hex_pad 8) (coe_words bs)) @ '';''] @ [CHR 0x0A]"
    by (simp add: dump_coe_def coe_words_def int_from_byte_array_le comp_def add.commute)
  also have "join '', '' (map (hex_pad 8) (coe_words bs)) @ '';'' = join '' '' ?ts"
    by (simp add: us join_last join_comma comma_words_snoc comp_def)
  also have "join [CHR 0x0A] [?r, ?v, join '' '' ?ts] = join [CHR 0x0A] (map (join '' '') [[?r], [?v], ?ts])" by simp
  finally have "py_split (dump_coe bs 4) = concat [[?r], [?v], ?ts] @ py_split [CHR 0x0A]"
    using hex_pad_word by (simp only:, intro py_split_join_groups) (auto simp: is_word_def py_space_def)
  then have "py_split (dump_coe bs 4) = ?r # ?v # ?ts" by (simp add: py_split_space)
  then have "read_coe (dump_coe bs 4) = read_items (read_number 16) (comma_words (map (hex_pad 8) (coe_words bs)))"
    by (simp add: read_coe_def us comma_words_snoc comp_def)
  also have "\<dots> = Some (map (\<lambda>n. n) (coe_words bs))"
    by (rule read_items_comma [OF ne]) (simp add: read_number_hex_pad)
  finally show ?thesis by simp
qed

section \<open>Lemmas on the outcome\<close>

lemma dump_line_nonempty: "dump_line l = Inr b \<Longrightarrow> b \<noteq> []"
  by (cases l) (auto simp: dump_header_def dump_device_description_def dump_memory_description_def dump_dma_mask_def
      dump_dma_alignment_shift_def py_append_def map_sum_Inr pack_Cons_Inr simp del: pack.simps(2) split: if_splits)

lemma dump_end_Inr: "\<exists>t. dump_end b = Inr t"
  using checksum_range [of "b @ [0, 3, 0]"] checksum_range [of "b @ [0, 2]"]
  by (simp add: dump_end_def pack_uint_def)

lemma process_config_file_lines:
  "process_config_file content =
     (case process_lines [] (significant content) of Inl e \<Rightarrow> Inl e
      | Inr b \<Rightarrow> (case dump_end b of Inl e \<Rightarrow> Inl e | Inr t \<Rightarrow> Inr (b @ t)))"
  unfolding process_config_file_def significant_def by (subst process_lines_filter) (rule refl)

lemma significant_not_skipped: "\<forall>l \<in> set (significant content). \<not> skip_line l"
  by (simp add: significant_def)

lemmas significant_Inr = process_lines_Inr [OF significant_not_skipped]
lemmas significant_Inl = process_lines_Inl [OF significant_not_skipped]

lemma image_nonempty: "process_config_file content = Inr img \<Longrightarrow> img \<noteq> []"
  using checksum_range [of "_ @ [0, 3, 0]"]
  by (auto simp: process_config_file_lines dump_end_def pack_Cons_Inr map_sum_Inr simp del: pack.simps(2)
      split: sum.splits if_splits)

lemma image_checks:
  assumes "process_config_file content = Inr img" and "length img \<le> 131072"
  shows "check_checksum img \<longleftrightarrow> significant content \<noteq> []"
proof -
  from assms(1) obtain b t where b: "process_lines [] (significant content) = Inr b" and t: "dump_end b = Inr t"
    and img: "img = b @ t" by (auto simp: process_config_file_lines split: sum.splits)
  show ?thesis
  proof (cases "significant content")
    case Nil
    with b t img have "img = [0, 0]" by (simp add: dump_end_def)
    moreover have "checksum [0, 0] = 65535" by (simp add: checksum_def py_fold_def)
    ultimately show ?thesis using Nil by (simp add: check_checksum_def)
  next
    case (Cons l ls)
    from b obtain bs where "list_all2 (\<lambda>l b. line_result l = Inr b) (l # ls) bs" "b = concat bs"
      unfolding significant_Inr by (auto simp: Cons)
    then have "b \<noteq> []" by (auto simp: list_all2_Cons1 line_result_def dest: dump_line_nonempty split: sum.splits)
    from dump_end_checks [OF this t] assms(2) img have "checksum img = 0"
      using checksum_range [of img] by auto
    with Cons show ?thesis by (simp add: check_checksum_def)
  qed
qed

lemma process_config_file_parsed:
  assumes "map parse_line (significant content) = map Inr cs"
  shows "process_config_file content = process_config cs"
  using process_lines_parsed [OF significant_not_skipped assms, of "[]"]
  by (simp add: process_config_file_lines process_config_def)

lemma pack_Inl: "pack fs = Inl e \<Longrightarrow> e = StructError"
  by (induction fs rule: pack.induct) (auto simp: pack_uint_def split: if_splits sum.splits)

lemma map_sum_Inl: "map_sum id f r = Inl e \<longleftrightarrow> r = Inl e"
  by (cases r) auto

lemma dump_line_Inl: "dump_line l = Inl e \<Longrightarrow> e = StructError"
  by (cases l) (auto simp: dump_header_def dump_device_description_def dump_memory_description_def dump_dma_mask_def
      dump_dma_alignment_shift_def py_append_def map_sum_Inl simp del: pack.simps dest!: pack_Inl split: if_splits)

lemma py_int_Inl: "py_int b s = Inl e \<Longrightarrow> e = ValueError"
  by (auto simp: py_int_def split: option.splits prod.splits)

lemma parse_region_Inl: "parse_region s = Inl e \<Longrightarrow> e = ValueError"
  by (auto simp: parse_region_def int_hex_def perm_flag_def Let_def dest: py_int_Inl
      split: list.splits sum.splits if_splits)

lemma parse_line_Inl: "parse_line l = Inl e \<Longrightarrow> e = ValueError"
  by (auto simp: parse_line_def parse_field_def map_sum_Inl dest: py_int_Inl parse_region_Inl
      split: option.splits if_splits)

lemma line_result_Inl:
  "line_result l = Inl e \<Longrightarrow> e = (if isl (parse_line l) then ValueError else StructError)"
  by (auto simp: line_result_def dest: parse_line_Inl dump_line_Inl split: sum.splits)

text \<open>Evaluation of the text layer on a given line, and of the dump functions on given values.\<close>

lemmas parse_eval = parse_line_def parse_field_def parse_region_def py_strip_def py_split.simps py_space_def
  py_lower_def char_of_def bit_0 int_hex_def perm_flag_def py_int_def py_sign_def py_prefix_def read_number_def
  digit_val_def encode_def line_of_def

lemma le_bytes_numeral: "le_bytes (numeral k) v = of_nat (v mod 256) # le_bytes (pred_numeral k) (v div 256)"
proof -
  have "(of_nat v :: u8) = of_nat (v mod 256)" by (simp add: word_unat_eq_iff unat_of_nat)
  then show ?thesis by (simp only: numeral_eq_Suc le_bytes.simps)
qed

lemmas dump_eval = process_config_def dump_header_def dump_device_description_def dump_memory_description_def
  dump_dma_mask_def dump_dma_alignment_shift_def dump_end_def py_append_def pack_uint_def checksum_def py_fold_def
  le_bytes_numeral upt_rec

lemma default_prom_text_parsed:
  "map parse_line (significant default_prom_text) = map Inr default_prom_config"
proof -
  have "significant default_prom_text =
      [line_of ''Version: 1'', line_of ''Name: amc525_mbf'', line_of ''DMA: ddr0 R 8000_0000_0000 8000_0000'',
        line_of ''DMA: ddr1 R 8000_8000_0000 0800_0000'']"
    by (simp add: default_prom_text_def significant_def skip_line_def line_of_def)
  moreover have "parse_line (line_of ''Version: 1'') = Inr (default_prom_config ! 0)"
    by (simp add: parse_eval default_prom_config_def)
  moreover have "parse_line (line_of ''Name: amc525_mbf'') = Inr (default_prom_config ! 1)"
    by (simp add: parse_eval default_prom_config_def)
  moreover have "parse_line (line_of ''DMA: ddr0 R 8000_0000_0000 8000_0000'') = Inr (default_prom_config ! 2)"
    by (simp add: parse_eval default_prom_config_def)
  moreover have "parse_line (line_of ''DMA: ddr1 R 8000_8000_0000 0800_0000'') = Inr (default_prom_config ! 3)"
    by (simp add: parse_eval default_prom_config_def)
  ultimately show ?thesis by (simp add: default_prom_config_def)
qed

text \<open>The images of \<^verbatim>\<open>test_assets\<close> are those of the configurations noted beside them.\<close>

lemma test_prom4_parsed:
  "map parse_line (significant test_prom4_text) =
     map Inr [Version 1, Name [0x74, 0x65, 0x73, 0x74, 0x2d, 0x6e, 0x61, 0x6d, 0x65], Mask 64, Align_Shift 6,
       Region [0x72, 0x65, 0x67, 0x31] 4 0 0x1000]"
proof -
  have "significant test_prom4_text =
      [line_of ''Version: 1'', line_of ''Name: test-name'', line_of ''mask: 64'', line_of ''align_shift: 6'',
       line_of ''DMA: reg1 R 0 1000'']"
    by (simp add: test_prom4_text_def significant_def skip_line_def line_of_def)
  then show ?thesis by (simp add: parse_eval)
qed

lemma test_prom4_reproduced: "process_config_file test_prom4_text = Inr test_prom4"
  unfolding process_config_file_parsed [OF test_prom4_parsed] by (simp add: dump_eval test_prom4_def)

lemma test_prom2_reproduced: "process_config_file test_prom2_text = Inr test_prom2"
proof -
  have "significant test_prom2_text =
      [line_of ''Version: 1'', line_of ''DMA: ddr0 R 0807_0605_0403_0201 090a_0b0c'']"
    by (simp add: test_prom2_text_def significant_def skip_line_def line_of_def)
  then have "map parse_line (significant test_prom2_text) =
      map Inr [Version 1, Region [0x64, 0x64, 0x72, 0x30] 4 0x0807060504030201 0x090a0b0c]"
    by (simp add: parse_eval)
  from process_config_file_parsed [OF this] show ?thesis by (simp add: dump_eval test_prom2_def)
qed

lemma test_prom3_reproduced: "process_config_file test_prom3_text = Inr test_prom3"
proof -
  have "significant test_prom3_text =
      [line_of ''Version: 1'', line_of ''DMA: ddr0 R 0 0809_0a0b_0c0d_0e0f'']"
    by (simp add: test_prom3_text_def significant_def skip_line_def line_of_def)
  then have "map parse_line (significant test_prom3_text) =
      map Inr [Version 1, Region [0x64, 0x64, 0x72, 0x30] 4 0 0x08090a0b0c0d0e0f]"
    by (simp add: parse_eval)
  from process_config_file_parsed [OF this] show ?thesis by (simp add: dump_eval test_prom3_def)
qed

section \<open>Properties\<close>

text \<open>
  C36: A written configuration is read back. Write any list of configuration lines, one to a line,
  with decimal version, permission, mask and shift and hexadecimal base and length, names being
  printable ASCII (without blanks in regions, without blanks at the ends in devices). The tool
  makes of the text exactly the image, or the exception, of the lines.
\<close>

theorem config_text_roundtrip:
  assumes "\<forall>l \<in> set ls. printable_line l"
  shows "process_config_file (concat (map (line_of \<circ> print_line) ls)) = process_config ls"
  using assms by (rule process_config_file_print)

theorem config_text_roundtrip_witness:
  "concat (map (line_of \<circ> print_line) [Version 1, Mask 300]) = line_of ''Version: 1'' @ line_of ''mask: 300'' \<and>
   process_config_file (line_of ''Version: 1'' @ line_of ''mask: 300'') = Inl StructError"
proof -
  have "concat (map (line_of \<circ> print_line) [Version 1, Mask 300]) = line_of ''Version: 1'' @ line_of ''mask: 300''"
    by (simp add: print_int_def digits.simps digit_char_def)
  moreover have "process_config [Version 1, Mask 300] = Inl StructError" by (simp add: dump_eval)
  ultimately show ?thesis using config_text_roundtrip [of "[Version 1, Mask 300]"] by simp
qed

text \<open>
  C37: Both text formats carry the image. The C format is an initialiser of exactly the bytes of the
  image, in lines of at most 60 characters behind the indentation; the COE format holds the
  little-endian words of the image, and a PROM filled with them holds the image and zeros.
\<close>

theorem output_formats_roundtrip:
  assumes "bin_data \<noteq> []" and "length bin_data \<le> PROM_MAX_LENGTH"
  shows "read_c (dump_c bin_data) = Some bin_data \<and>
    (\<forall>l \<in> set (textwrap 60 (join '', '' (map (\<lambda>item. ''0x'' @ hex_pad 2 (unat item)) bin_data))). length l \<le> 60) \<and>
    (\<exists>ws. read_coe (dump_coe bin_data 4) = Some ws \<and> prom_of_words ws = window_of bin_data)"
proof -
  have "\<forall>w \<in> set (comma_words (map (\<lambda>b. ''0x'' @ hex_pad 2 (unat b)) bin_data)). is_word w \<and> length w \<le> 60"
    using comma_words_word [of "map (\<lambda>b. ''0x'' @ hex_pad 2 (unat b)) bin_data" 5] c_token by fastforce
  from textwrap_lines [OF this, of "[]" "'' ''"] show ?thesis
    using assms read_c_dump read_coe_dump prom_of_coe_words by (simp add: join_comma)
qed

theorem output_formats_roundtrip_witness:
  "read_c (dump_c [0x44, 0x49]) = Some [0x44, 0x49] \<and> (\<exists>ws. read_coe (dump_coe [0x44, 0x49] 4) = Some ws)"
  using output_formats_roundtrip [of "[0x44, 0x49]"] by auto

text \<open>
  C35: The outcome of the tool on any text. It stops with an exception and prints nothing exactly if
  some line that is not a comment or empty fails, and the first such line decides: an
  unreadable one gives \<^verbatim>\<open>ValueError\<close>, one whose values do not fit the fields of its entry gives
  \<^verbatim>\<open>struct.error\<close>. Otherwise it prints an image whose checksum is zero, except that a text without
  any such line makes it print an image and then fail its own assertion.
\<close>

theorem tool_outcome:
  assumes "\<And>img. process_config_file content = Inr img \<Longrightarrow> length img \<le> 131072"
  shows "(tool_main fmt content = (None, Some e) \<longleftrightarrow>
      (\<exists>pre l post. significant content = pre @ l # post \<and> (\<forall>p \<in> set pre. \<not> isl (line_result p)) \<and>
         line_result l = Inl e)) \<and>
    (fst (tool_main fmt content) = None \<longleftrightarrow> (\<exists>l \<in> set (significant content). isl (line_result l))) \<and>
    (line_result l = Inl e \<longrightarrow> e = (if isl (parse_line l) then ValueError else StructError)) \<and>
    (snd (tool_main fmt content) = Some AssertionError \<longleftrightarrow> significant content = [])"
proof -
  have fail: "process_config_file content = Inl e' \<longleftrightarrow> process_lines [] (significant content) = Inl e'" for e'
    using dump_end_Inr by (auto simp: process_config_file_lines split: sum.split) (metis sum.distinct(1))
  have main: "tool_main fmt content = (None, Some e') \<longleftrightarrow> process_config_file content = Inl e'" for e'
    by (auto simp: tool_main_def split: sum.split)
  have any: "(\<exists>e'. process_lines acc ls = Inl e') \<longleftrightarrow> (\<exists>l \<in> set ls. isl (line_result l))"
    if "\<forall>l \<in> set ls. \<not> skip_line l" for acc ls
    using that by (induction ls arbitrary: acc) (auto simp: line_result_def isl_def split: sum.split)
  have "fst (tool_main fmt content) = None \<longleftrightarrow> (\<exists>e'. process_config_file content = Inl e')"
    by (auto simp: tool_main_def split: sum.split)
  moreover have "snd (tool_main fmt content) = Some AssertionError \<longleftrightarrow> significant content = []"
  proof (cases "process_config_file content")
    case (Inl e')
    then obtain l where "line_result l = Inl e'" by (auto simp: fail significant_Inl)
    with line_result_Inl [of l e'] have "e' \<noteq> AssertionError" by (auto split: if_splits)
    moreover from Inl have "significant content \<noteq> []" by (auto simp: fail)
    ultimately show ?thesis using Inl by (simp add: tool_main_def)
  next
    case (Inr img)
    with image_checks [OF Inr assms [OF Inr]] show ?thesis by (simp add: tool_main_def)
  qed
  ultimately show ?thesis
    using any [OF significant_not_skipped, of "[]"] line_result_Inl by (simp add: main fail significant_Inl)
qed

theorem tool_outcome_witness:
  "snd (tool_main Bin ''# nothing'') = Some AssertionError \<and>
   tool_main Coe (line_of ''Version: 1'' @ line_of ''bogus'') = (None, Some ValueError)"
proof -
  have none: "significant ''# nothing'' = []" by (simp add: significant_def skip_line_def)
  have "process_config_file ''# nothing'' = Inr [0, 0]"
    by (simp add: process_config_file_lines none dump_end_def)
  then have "snd (tool_main Bin ''# nothing'') = Some AssertionError"
    using tool_outcome [of "''# nothing''" Bin] none by simp
  moreover have bad: "significant (line_of ''Version: 1'' @ line_of ''bogus'') = [line_of ''Version: 1'', line_of ''bogus'']"
    by (simp add: significant_def skip_line_def line_of_def)
  moreover have "line_result (line_of ''Version: 1'') = Inr [0x44, 0x49, 0x41, 0x47, 1]"
    by (simp add: line_result_def parse_eval dump_eval)
  moreover have v: "line_result (line_of ''bogus'') = Inl ValueError"
    by (simp add: line_result_def parse_eval)
  moreover have "process_config_file (line_of ''Version: 1'' @ line_of ''bogus'') = Inl ValueError"
    using significant_Inl [of "[]" "line_of ''Version: 1'' @ line_of ''bogus''" ValueError] bad v calculation(3)
    by (auto simp: process_config_file_lines intro!: exI [of _ "[line_of ''Version: 1'']"])
  ultimately show ?thesis
    using tool_outcome [of "line_of ''Version: 1'' @ line_of ''bogus''" Coe ValueError]
    by (auto intro!: exI [of _ "[line_of ''Version: 1'']"])
qed

text \<open>
  C10: From the configuration text to the driver. If a text describes an image that fits the window,
  begins with the version line and has no zero byte in a name, then the tool prints a COE file
  without complaint, and on a PROM filled with the words of that file the driver loads exactly
  the entries that the lines describe, in their order.
\<close>

theorem tool_output_loads:
  assumes "process_config_file content = Inr img" and "length img < PROM_MAX_LENGTH"
    and "map parse_line (significant content) = map Inr (Version 1 # ls)" and "\<forall>l \<in> set ls. entry_line l"
    and "length d \<le> PROM_MAX_LENGTH"
  shows "\<exists>out ws c. tool_main Coe content = (Some (Text out), None) \<and> read_coe out = Some ws \<and>
    load_prom (Ptr ()) d heap (rom_of (prom_of_words ws)) = Inr c \<and> prom_get_length c = length img \<and>
    map (prom_entry_at (prom_get_buffer c)) (prom_offsets c) = map (Some \<circ> entry_of_line) ls"
proof -
  have "significant content \<noteq> []" using assms(3) by auto
  with image_checks [OF assms(1)] assms(2) have "check_checksum img" by simp
  then have main: "tool_main Coe content = (Some (Text (dump_coe img 4)), None)"
    by (simp add: tool_main_def assms(1))
  have coe: "read_coe (dump_coe img 4) = Some (coe_words img)" "prom_of_words (coe_words img) = window_of img"
    using image_nonempty [OF assms(1)] assms(2) by (simp_all add: read_coe_dump prom_of_coe_words)
  have "process_config (Version 1 # ls) = Inr img"
    using process_config_file_parsed [OF assms(3)] assms(1) by simp
  from tool_image_roundtrip [OF this assms(4,2,5), of heap] main coe show ?thesis by fastforce
qed

theorem tool_output_loads_witness:
  "\<exists>out ws c. tool_main Coe test_prom4_text = (Some (Text out), None) \<and> read_coe out = Some ws \<and>
     load_prom (Ptr ()) [] (\<lambda>_. 0) (rom_of (prom_of_words ws)) = Inr c \<and> prom_get_length c = 46"
proof -
  have "length test_prom4 = 46" by (simp add: test_prom4_def)
  with tool_output_loads [OF test_prom4_reproduced _ test_prom4_parsed, of "[]" "\<lambda>_. 0"] show ?thesis by auto
qed

text \<open>
  The default image. From \<^verbatim>\<open>default_prom.config\<close> the tool prints an array that holds an image, and
  a driver compiled with it loads this image whenever the window does not start with the magic
  number: the device \<^verbatim>\<open>amc525_mbf\<close> with the readable regions \<^verbatim>\<open>ddr0\<close> and \<^verbatim>\<open>ddr1\<close>.
\<close>

theorem default_image_loads:
  assumes "\<not> check_magic (base 0)"
  shows "\<exists>out d c. tool_main C_Format default_prom_text = (Some (Text out), None) \<and> read_c out = Some d \<and>
    load_prom (Ptr ()) d heap base = Inr c \<and>
    map (prom_entry_at (prom_get_buffer c)) (prom_offsets c) =
      [Some (Prom_Device (encode ''amc525_mbf'')),
       Some (Prom_Dma [0, 0, 0x8000] 0x80000000 4 (encode ''ddr0'')),
       Some (Prom_Dma [0, 0x8000, 0x8000] 0x08000000 4 (encode ''ddr1''))]"
proof -
  from default_prom_loads [where base = base and heap = heap, OF assms] obtain d c where d: "process_config default_prom_config = Inr d"
    and len: "length d \<le> 59" and load: "load_prom (Ptr ()) d heap base = Inr c"
    and ent: "map (prom_entry_at (prom_get_buffer c)) (prom_offsets c) =
      [Some (Prom_Device [0x61, 0x6d, 0x63, 0x35, 0x32, 0x35, 0x5f, 0x6d, 0x62, 0x66]),
       Some (Prom_Dma [0, 0, 0x8000] 0x80000000 4 [0x64, 0x64, 0x72, 0x30]),
       Some (Prom_Dma [0, 0x8000, 0x8000] 0x08000000 4 [0x64, 0x64, 0x72, 0x31])]" by auto
  have img: "process_config_file default_prom_text = Inr d"
    using process_config_file_parsed [OF default_prom_text_parsed] d by simp
  have "significant default_prom_text \<noteq> []"
    using default_prom_text_parsed by (auto simp: default_prom_config_def)
  with image_checks [OF img] len have "check_checksum d" by simp
  then have "tool_main C_Format default_prom_text = (Some (Text (dump_c d)), None)"
    by (simp add: tool_main_def img)
  with read_c_dump [OF image_nonempty [OF img]] load ent show ?thesis by (simp add: encode_def)
qed

theorem default_image_loads_witness:
  "\<exists>out d c. tool_main C_Format default_prom_text = (Some (Text out), None) \<and> read_c out = Some d \<and>
     load_prom (Ptr ()) d (\<lambda>_. 0) (\<lambda>_. 0) = Inr c"
proof -
  have "\<not> check_magic 0" by code_simp
  with default_image_loads [of "\<lambda>_. 0" "\<lambda>_. 0"] show ?thesis by auto
qed

text \<open>
  The tool does not ask for a version line: a configuration of a name alone gives an image that
  passes its check, but has no magic number, so that the driver falls back to its default.
\<close>

lemma unversioned_image_ignored:
  "\<exists>img. tool_main Bin (line_of ''Name: x'') = (Some (Bytes img), None) \<and>
     loaded_image d (window_of img) = d @ replicate (PROM_MAX_LENGTH + 1 - length d) 0"
proof -
  have "significant (line_of ''Name: x'') = [line_of ''Name: x'']"
    by (simp add: significant_def skip_line_def line_of_def)
  then have p: "map parse_line (significant (line_of ''Name: x'')) = map Inr [Name [0x78]]" by (simp add: parse_eval)
  from process_config_file_parsed [OF p]
  obtain a b where img: "process_config_file (line_of ''Name: x'') = Inr [1, 2, 0x78, 0, 0, 2, a, b]"
    by (simp add: dump_eval)
  have "significant (line_of ''Name: x'') \<noteq> []" using p by auto
  with image_checks [OF img] have "check_checksum [1, 2, 0x78, 0, 0, 2, a, b]" by simp
  with img show ?thesis by (simp add: tool_main_def loaded_image_def window_of_def)
qed

end
