(* ===== verification/Prom_Test.thy ===== *)
theory Prom_Test
  imports Prom_Props "HOL-Library.Monad_Syntax"
begin

text \<open>
  \<^verbatim>\<open>prom_processing_test.c\<close>: the KUnit tests of the PROM component, as executable definitions. A test
  is \<open>Some\<close> of the conjunction of its expectations, since a failed expectation does not stop a
  KUnit test; it is \<open>None\<close> if it follows a pointer that is an error code, null or outside the
  buffer. The theory shows that the suite passes on the driver's code.
\<close>

section \<open>The tests\<close>

definition base_to_u64 :: "u16 \<Rightarrow> u16 \<Rightarrow> u16 \<Rightarrow> u64" where
  "base_to_u64 b0 b1 b2 = ucast b0 OR push_bit 16 (ucast b1) OR push_bit 32 (ucast b2)"

text \<open>
  The arguments of a test are what \<^verbatim>\<open>load_prom\<close> takes from its surroundings: the outcome of the
  allocation, the default image and the heap behind the buffer. The arrays have 4096 bytes.
\<close>

type_synonym kunit_test = "unit kptr \<Rightarrow> u8 list \<Rightarrow> (nat \<Rightarrow> u8) \<Rightarrow> bool option"

definition load_array :: "u8 list \<Rightarrow> unit kptr \<Rightarrow> u8 list \<Rightarrow> (nat \<Rightarrow> u8) \<Rightarrow> prom_context res" where
  "load_array img k d heap = load_prom k d heap (rom_of (window_of img))"

definition using_context :: "prom_context res \<Rightarrow> (prom_context \<Rightarrow> bool option) \<Rightarrow> bool option" where
  "using_context r body = (case r of Inl _ \<Rightarrow> None | Inr c \<Rightarrow> body c)"

definition test_load_prom_validation_ok :: kunit_test where
  "test_load_prom_validation_ok k d heap =
     (case load_array test_prom1 k d heap of Inl _ \<Rightarrow> Some False | Inr _ \<Rightarrow> Some True)"

definition test_load_prom_validation_fail :: kunit_test where
  "test_load_prom_validation_fail k d heap =
     (case load_array test_prom1_corrupted k d heap of Inl _ \<Rightarrow> Some True | Inr _ \<Rightarrow> Some False)"

definition test_load_prom_data :: kunit_test where
  "test_load_prom_data k d heap =
     using_context (load_array test_prom1 k d heap) (\<lambda>c. Some (
       take 74 (prom_get_buffer c) = take 74 test_prom1 \<and> prom_get_length c = 74 \<and>
       prom_get_nentries c = 4 \<and> prom_get_nentries_with_minor c = 4 \<and> prom_get_dma_nentries c = 3))"

definition test_prom_first_entry :: kunit_test where
  "test_prom_first_entry k d heap =
     using_context (load_array test_prom1 k d heap) (\<lambda>c.
       let e = prom_first_entry c in
       do {
         tag \<leftarrow> u8_at (prom_buff c) e;
         name \<leftarrow> field_at (prom_buff c) (e + 2) 8;
         sz \<leftarrow> u8_at (prom_buff c) (e + 1);
         Some (tag = PROM_DEVICE_TAG \<and> name = [0x74, 0x65, 0x73, 0x74, 0x5f, 0x64, 0x65, 0x76] \<and> sz = 9)
       })"

text \<open>The expectations on one DMA entry, which the tests repeat.\<close>

definition expect_dma :: "prom_context \<Rightarrow> nat \<Rightarrow> u8 list \<Rightarrow> u64 \<Rightarrow> u32 \<Rightarrow> u8 \<Rightarrow> bool option" where
  "expect_dma c e name base len perm =
     do {
       tag \<leftarrow> u8_at (prom_buff c) e;
       n \<leftarrow> field_at (prom_buff c) (e + 13) 4;
       b0 \<leftarrow> u16_at (prom_buff c) (e + 2);
       b1 \<leftarrow> u16_at (prom_buff c) (e + 4);
       b2 \<leftarrow> u16_at (prom_buff c) (e + 6);
       l \<leftarrow> u32_at (prom_buff c) (e + 8);
       p \<leftarrow> u8_at (prom_buff c) (e + 12);
       Some (tag = PROM_DMA_TAG \<and> n = name \<and> base_to_u64 b0 b1 b2 = base \<and> l = len \<and> p = perm)
     }"

definition test_prom_next_entry :: kunit_test where
  "test_prom_next_entry k d heap =
     using_context (load_array test_prom1 k d heap) (\<lambda>c.
       do {
         e1 \<leftarrow> prom_next_entry c (prom_first_entry c);
         x1 \<leftarrow> expect_dma c e1 [0x6d, 0x65, 0x6d, 0x41] 0 0x12131415 4;
         e2 \<leftarrow> prom_next_entry c e1;
         x2 \<leftarrow> expect_dma c e2 [0x6d, 0x65, 0x6d, 0x42] 0xabcd11223344 0x8912345 2;
         e3 \<leftarrow> prom_next_entry c e2;
         x3 \<leftarrow> expect_dma c e3 [0x6d, 0x65, 0x6d, 0x43] 0x42616263 0x100 6;
         e4 \<leftarrow> prom_next_entry c e3;
         tag \<leftarrow> u8_at (prom_buff c) e4;
         Some (x1 \<and> x2 \<and> x3 \<and> tag = PROM_END_TAG)
       })"

text \<open>An entry that a search returned; \<^verbatim>\<open>NULL\<close> must not be followed.\<close>

definition found_entry :: "nat option option \<Rightarrow> nat option" where
  "found_entry r = Option.bind r (\<lambda>p. p)"

definition test_prom_find_entry_available :: kunit_test where
  "test_prom_find_entry_available k d heap =
     using_context (load_array test_prom1 k d heap) (\<lambda>c.
       do {
         e2 \<leftarrow> found_entry (prom_find_entry c 2);
         x2 \<leftarrow> expect_dma c e2 [0x6d, 0x65, 0x6d, 0x42] 0xabcd11223344 0x8912345 2;
         e3 \<leftarrow> found_entry (prom_find_entry c 3);
         x3 \<leftarrow> expect_dma c e3 [0x6d, 0x65, 0x6d, 0x43] 0x42616263 0x100 6;
         Some (x2 \<and> x3)
       })"

definition test_prom_find_entry_missing :: kunit_test where
  "test_prom_find_entry_missing k d heap =
     using_context (load_array test_prom1 k d heap) (\<lambda>c. map_option (\<lambda>e. e = None) (prom_find_entry c 4))"

definition expect_dma_ext :: "prom_context \<Rightarrow> nat \<Rightarrow> u8 list \<Rightarrow> u64 \<Rightarrow> u64 \<Rightarrow> u8 \<Rightarrow> bool option" where
  "expect_dma_ext c e name base len perm =
     do {
       tag \<leftarrow> u8_at (prom_buff c) e;
       n \<leftarrow> field_at (prom_buff c) (e + 19) 4;
       b \<leftarrow> u64_at (prom_buff c) (e + 2);
       l \<leftarrow> u64_at (prom_buff c) (e + 10);
       p \<leftarrow> u8_at (prom_buff c) (e + 18);
       Some (tag = PROM_DMA_EXT_TAG \<and> n = name \<and> b = base \<and> l = len \<and> p = perm)
     }"

definition test_prom_with_dma_ext_entry :: kunit_test where
  "test_prom_with_dma_ext_entry k d heap =
     using_context (load_array test_prom2 k d heap) (\<lambda>c.
       do {
         e \<leftarrow> found_entry (prom_find_entry c 0);
         expect_dma_ext c e [0x64, 0x64, 0x72, 0x30] 0x0807060504030201 0x090a0b0c 4
       })"

definition test_prom_with_dma_ext_entry_and_bigger_length :: kunit_test where
  "test_prom_with_dma_ext_entry_and_bigger_length k d heap =
     using_context (load_array test_prom3 k d heap) (\<lambda>c.
       do {
         e \<leftarrow> found_entry (prom_find_entry c 0);
         expect_dma_ext c e [0x64, 0x64, 0x72, 0x30] 0 0x08090a0b0c0d0e0f 4
       })"

definition test_prom_with_mask_and_alignment :: kunit_test where
  "test_prom_with_mask_and_alignment k d heap =
     using_context (load_array test_prom4 k d heap) (\<lambda>c.
       do {
         e \<leftarrow> found_entry (prom_find_entry_by_tag c PROM_DMA_MASK_TAG);
         mask_tag \<leftarrow> u8_at (prom_buff c) e;
         mask_bits \<leftarrow> u8_at (prom_buff c) (e + 2);
         e \<leftarrow> found_entry (prom_find_entry_by_tag c PROM_DMA_ALIGN_TAG);
         align_tag \<leftarrow> u8_at (prom_buff c) e;
         shift \<leftarrow> u8_at (prom_buff c) (e + 2);
         e \<leftarrow> found_entry (prom_find_entry_with_minor c 0);
         tag0 \<leftarrow> u8_at (prom_buff c) e;
         e \<leftarrow> found_entry (prom_find_entry_with_minor c 1);
         tag1 \<leftarrow> u8_at (prom_buff c) e;
         Some (mask_tag = PROM_DMA_MASK_TAG \<and> mask_bits = 64 \<and> align_tag = PROM_DMA_ALIGN_TAG \<and> shift = 6 \<and>
           tag0 = PROM_DEVICE_TAG \<and> tag1 = PROM_DMA_TAG)
       })"

definition prom_processing_test_cases :: "kunit_test list" where
  "prom_processing_test_cases =
     [test_load_prom_validation_ok, test_load_prom_validation_fail, test_load_prom_data, test_prom_first_entry,
      test_prom_next_entry, test_prom_find_entry_available, test_prom_find_entry_missing,
      test_prom_with_dma_ext_entry, test_prom_with_dma_ext_entry_and_bigger_length,
      test_prom_with_mask_and_alignment]"

section \<open>Lemmas\<close>

lemma test_image_facts:
  "prom_walk test_prom2 PROM_FIRST_ENTRY_OFFSET = Some ([5], 29)" "image_ok test_prom2"
  "prom_walk test_prom3 PROM_FIRST_ENTRY_OFFSET = Some ([5], 29)" "image_ok test_prom3"
  "prom_walk test_prom4 PROM_FIRST_ENTRY_OFFSET = Some ([5, 17, 20, 23], 41)" "image_ok test_prom4"
  by code_simp+

text \<open>A context of an array, with everything the tests look at given by the array.\<close>

lemma load_array_context:
  assumes "length d \<le> PROM_MAX_LENGTH" and "take 4 img = [0x44, 0x49, 0x41, 0x47]" and "image_ok img"
    and "prom_walk img PROM_FIRST_ENTRY_OFFSET = Some (ps, e)" and "length img = e + unat (img ! (e + 1)) + 2"
  shows "\<exists>c rest. load_array img (Ptr ()) d heap = Inr c \<and> prom_valid c \<and> prom_offsets c = ps \<and>
    prom_buff c = img @ rest \<and> prom_data_len c = length img"
  using image_loads [OF assms, of heap] unfolding load_array_def
  by (metis prom_offsets_walk)

lemma test_contexts:
  assumes "length d \<le> PROM_MAX_LENGTH"
  shows "\<exists>c rest. load_array test_prom1 (Ptr ()) d heap = Inr c \<and> prom_valid c \<and> prom_offsets c = [5, 16, 34, 52] \<and>
      prom_buff c = test_prom1 @ rest \<and> prom_data_len c = 74"
    and "\<exists>c rest. load_array test_prom2 (Ptr ()) d heap = Inr c \<and> prom_valid c \<and> prom_offsets c = [5] \<and>
      prom_buff c = test_prom2 @ rest \<and> prom_data_len c = 34"
    and "\<exists>c rest. load_array test_prom3 (Ptr ()) d heap = Inr c \<and> prom_valid c \<and> prom_offsets c = [5] \<and>
      prom_buff c = test_prom3 @ rest \<and> prom_data_len c = 34"
    and "\<exists>c rest. load_array test_prom4 (Ptr ()) d heap = Inr c \<and> prom_valid c \<and> prom_offsets c = [5, 17, 20, 23] \<and>
      prom_buff c = test_prom4 @ rest \<and> prom_data_len c = 46"
  using load_array_context [OF assms test_prom1_facts(4,2,1), of heap]
    load_array_context [OF assms _ test_image_facts(2,1), of heap]
    load_array_context [OF assms _ test_image_facts(4,3), of heap]
    load_array_context [OF assms _ test_image_facts(6,5), of heap]
  by (simp_all add: test_prom1_facts, simp_all add: test_prom2_def test_prom3_def test_prom4_def)

lemmas test_eval = using_context_def found_entry_def u8_at_def u16_at_def u32_at_def u64_at_def field_at_def
  expect_dma_def expect_dma_ext_def base_to_u64_def prom_first_entry_def prom_next_entry_def prom_byte_def
  prom_find_entry_nth prom_find_entry_with_minor_nth prom_find_entry_by_tag_find minor_offsets_def entry_tag_def
  prom_entry_needs_minor_def

text \<open>The tests on the first array.\<close>

lemma test_prom1_passes:
  assumes "length d \<le> PROM_MAX_LENGTH"
  shows "test_load_prom_validation_ok (Ptr ()) d heap = Some True"
    and "test_load_prom_data (Ptr ()) d heap = Some True"
    and "test_prom_first_entry (Ptr ()) d heap = Some True"
    and "test_prom_next_entry (Ptr ()) d heap = Some True"
    and "test_prom_find_entry_available (Ptr ()) d heap = Some True"
    and "test_prom_find_entry_missing (Ptr ()) d heap = Some True"
proof -
  from test_contexts(1) [OF assms, of heap] obtain c rest where c: "load_array test_prom1 (Ptr ()) d heap = Inr c"
    "prom_valid c" "prom_offsets c = [5, 16, 34, 52]" "prom_data_len c = 74" "prom_buff c = test_prom1 @ rest"
    by blast
  note buff = c(5) [unfolded test_prom1_def]
  show "test_load_prom_validation_ok (Ptr ()) d heap = Some True"
    by (simp add: test_load_prom_validation_ok_def c(1))
  have "prom_nentries c = 4" "prom_dma_nentries c = 3" "prom_nentries_with_minor c = 4"
    using c(2,3) by (simp_all add: prom_valid_def dma_offsets_def minor_offsets_def is_dma_tag_def
        prom_entry_needs_minor_def entry_tag_def buff)
  then show "test_load_prom_data (Ptr ()) d heap = Some True"
    using test_prom1_facts(3) by (simp add: test_load_prom_data_def using_context_def c prom_get_buffer_def
        prom_get_length_def prom_get_nentries_def prom_get_dma_nentries_def prom_get_nentries_with_minor_def)
  show "test_prom_first_entry (Ptr ()) d heap = Some True"
    by (simp add: test_prom_first_entry_def test_eval c(1) buff)
  show "test_prom_next_entry (Ptr ()) d heap = Some True"
    by (simp add: test_prom_next_entry_def test_eval c(1) buff)
  show "test_prom_find_entry_available (Ptr ()) d heap = Some True"
    by (simp add: test_prom_find_entry_available_def test_eval c(1-3) buff)
  show "test_prom_find_entry_missing (Ptr ()) d heap = Some True"
    by (simp add: test_prom_find_entry_missing_def test_eval c(1-3))
qed

text \<open>The array with a changed byte is the first one updated, and the checksum shows it.\<close>

lemma test_prom1_corrupted_update: "test_prom1_corrupted = test_prom1[14 := 0x77]"
  by (simp add: test_prom1_def test_prom1_corrupted_def)

lemma corrupted_refused:
  assumes "length d \<le> PROM_MAX_LENGTH"
  shows "load_array test_prom1_corrupted (Ptr ()) d heap = Inl EIO"
proof -
  let ?w = "window_of test_prom1"
  have len: "length ?w = PROM_MAX_LENGTH" by (rule length_window_of) (simp add: test_prom1_facts)
  have win: "window_of test_prom1_corrupted = ?w[14 := 0x77]"
    by (simp add: test_prom1_corrupted_update window_of_def test_prom1_facts list_update_append)
  have magic: "take 4 ?w = [0x44, 0x49, 0x41, 0x47]" by (simp add: take_window_of test_prom1_facts)
  have img: "?w @ [0] = test_prom1 @ replicate (PROM_MAX_LENGTH - length test_prom1) 0 @ [0]"
    by (simp add: window_of_def)
  have walk: "prom_walk (?w @ [0]) PROM_FIRST_ENTRY_OFFSET = Some ([5, 16, 34, 52], 70)"
    unfolding img by (rule prom_walk_append) (simp_all add: test_prom1_facts)
  have ok: "image_ok (?w @ [0])"
    using image_ok_test_prom1 [of d] magic by (simp add: loaded_image_def)
  have "\<not> image_ok (?w[14 := 0x77] @ [0])"
    by (rule not_image_ok_update [OF len walk ok]) (simp_all add: window_of_def test_prom1_def)
  moreover have "take 4 (?w[14 := 0x77]) = [0x44, 0x49, 0x41, 0x47]" using magic by simp
  ultimately show ?thesis
    using load_prom_window [of "?w[14 := 0x77]" d heap] assms len by (simp add: load_array_def win loaded_image_def)
qed

lemma other_tests_pass:
  assumes "length d \<le> PROM_MAX_LENGTH"
  shows "test_prom_with_dma_ext_entry (Ptr ()) d heap = Some True"
    and "test_prom_with_dma_ext_entry_and_bigger_length (Ptr ()) d heap = Some True"
    and "test_prom_with_mask_and_alignment (Ptr ()) d heap = Some True"
proof -
  from test_contexts(2) [OF assms, of heap] obtain c rest where "load_array test_prom2 (Ptr ()) d heap = Inr c"
    "prom_valid c" "prom_offsets c = [5]" "prom_buff c = test_prom2 @ rest" by blast
  then show "test_prom_with_dma_ext_entry (Ptr ()) d heap = Some True"
    by (simp add: test_prom_with_dma_ext_entry_def test_eval test_prom2_def)
  from test_contexts(3) [OF assms, of heap] obtain c rest where "load_array test_prom3 (Ptr ()) d heap = Inr c"
    "prom_valid c" "prom_offsets c = [5]" "prom_buff c = test_prom3 @ rest" by blast
  then show "test_prom_with_dma_ext_entry_and_bigger_length (Ptr ()) d heap = Some True"
    by (simp add: test_prom_with_dma_ext_entry_and_bigger_length_def test_eval test_prom3_def)
  from test_contexts(4) [OF assms, of heap] obtain c rest where "load_array test_prom4 (Ptr ()) d heap = Inr c"
    "prom_valid c" "prom_offsets c = [5, 17, 20, 23]" "prom_buff c = test_prom4 @ rest" by blast
  then show "test_prom_with_mask_and_alignment (Ptr ()) d heap = Some True"
    by (simp add: test_prom_with_mask_and_alignment_def test_eval test_prom4_def)
qed

section \<open>Properties\<close>

text \<open>
  C38: The KUnit suite of the PROM passes. Whatever default image the driver was built with and
  whatever follows its buffer in memory, every test case reads inside the buffer only and all
  of its expectations hold, provided that the context can be allocated.
\<close>

theorem kunit_suite_passes:
  assumes "length d \<le> PROM_MAX_LENGTH" and "t \<in> set prom_processing_test_cases"
  shows "t (Ptr ()) d heap = Some True"
proof -
  have "test_load_prom_validation_fail (Ptr ()) d heap = Some True"
    by (simp add: test_load_prom_validation_fail_def corrupted_refused [OF assms(1)])
  with assms test_prom1_passes [OF assms(1), of heap] other_tests_pass [OF assms(1), of heap] show ?thesis
    by (auto simp: prom_processing_test_cases_def)
qed

theorem kunit_suite_passes_witness:
  "test_prom_with_mask_and_alignment \<in> set prom_processing_test_cases \<and>
   test_prom_with_mask_and_alignment (Ptr ()) [] (\<lambda>_. 0) = Some True"
proof -
  have t: "test_prom_with_mask_and_alignment \<in> set prom_processing_test_cases"
    by (simp add: prom_processing_test_cases_def)
  from kunit_suite_passes [OF _ t, of "[]" "\<lambda>_. 0"] t show ?thesis by simp
qed

text \<open>
  A finding: the tests go on after a failed expectation. When the context cannot be allocated, the
  first test reports a failure, but the third already follows the error pointer.
\<close>

lemma kunit_follows_error_pointer:
  "test_load_prom_validation_ok Null d heap = Some False \<and> test_load_prom_data Null d heap = None"
  by (simp add: test_load_prom_validation_ok_def test_load_prom_data_def load_array_def load_prom_def using_context_def)

end
