(* ===== verification/Dma_Race.thy ===== *)
theory Dma_Race
  imports Dma_Control
begin

text \<open>
  Transfers against interrupts. \<open>Dma_Control\<close> takes the wait for the end of a transfer as one call;
  here \<^verbatim>\<open>dma_operation_unlocked\<close>, the engine, the interrupt controller and \<^verbatim>\<open>amc_pci_isr\<close> run as
  separate agents, in every order in which their single accesses can follow each other. The
  theory shows that a transfer that returns has been carried out, that no wake-up is lost, and
  what killing a waiting process does to this.
\<close>

section \<open>The agents\<close>

text \<open>
  Where the process that holds the DMA mutex is in \<^verbatim>\<open>dma_operation_unlocked\<close>: after
  \<^verbatim>\<open>reinit_completion\<close>, after \<^verbatim>\<open>maybe_reset_dma\<close>, waiting for the transfer with the given number,
  and after the wait. Where the handler is in \<^verbatim>\<open>amc_pci_isr\<close>: it has seen the bit of the DMA
  engine, has read \<^verbatim>\<open>cdmasr\<close>, has written it back, has completed and not yet written \<^verbatim>\<open>iar\<close>.
\<close>

datatype op_phase = No_Op | Begun | Ready | Waiting nat | Woken nat

datatype isr_phase = Isr_Idle | Isr_Entered | Isr_Read bool | Isr_Acked | Isr_Done

text \<open>
  The engine as its manual describes it: a request in progress, the interrupt bits of its
  status register (raised at the end of a request, with or without error, cleared by writing
  them back) and its error bits. The line of the engine is level triggered: the interrupt
  controller latches it as long as it is up. \<open>sy_finished\<close> and \<open>sy_results\<close> record which requests
  the engine has ended, and what the operations returned, with \<open>True\<close> for a byte count.
\<close>

record dma_sys =
  sy_dma :: dma_control
  sy_op :: op_phase
  sy_isr :: isr_phase
  sy_busy :: "nat option"
  sy_ioc :: bool
  sy_err :: bool
  sy_latched :: bool
  sy_next :: nat
  sy_finished :: "nat list"
  sy_results :: "(nat \<times> bool) list"

definition lock_and_reinit :: "dma_control \<Rightarrow> dma_control" where
  "lock_and_reinit dma = (dma_memory_lock dma)\<lparr>dc_done := 0\<rparr>"

text \<open>
  The next states for each agent. The operation may be refused before it looks at the engine
  (alignment, direction); a reset may fail.
\<close>

definition op_steps :: "dma_sys \<Rightarrow> dma_sys list" where
  "op_steps s =
     (case sy_op s of
        No_Op \<Rightarrow>
          if dc_mutex (sy_dma s) then [] else [s\<lparr>sy_op := Begun, sy_dma := lock_and_reinit (sy_dma s)\<rparr>]
      | Begun \<Rightarrow>
          s\<lparr>sy_op := No_Op, sy_dma := dma_memory_unlock (sy_dma s)\<rparr> #
          (if sy_err s \<or> sy_busy s \<noteq> None
           then [s\<lparr>sy_op := Ready, sy_busy := None, sy_ioc := False, sy_err := False\<rparr>,
                 s\<lparr>sy_op := No_Op, sy_dma := dma_memory_unlock (sy_dma s), sy_busy := None, sy_ioc := False,
                   sy_err := False\<rparr>]
           else [s\<lparr>sy_op := Ready\<rparr>])
      | Ready \<Rightarrow> [s\<lparr>sy_op := Waiting (sy_next s), sy_busy := Some (sy_next s), sy_next := sy_next s + 1\<rparr>]
      | Waiting n \<Rightarrow>
          if 0 < dc_done (sy_dma s)
          then [s\<lparr>sy_op := Woken n, sy_dma := (sy_dma s)\<lparr>dc_done := dc_done (sy_dma s) - 1\<rparr>\<rparr>] else []
      | Woken n \<Rightarrow>
          [s\<lparr>sy_op := No_Op, sy_dma := dma_memory_unlock (sy_dma s),
             sy_results := sy_results s @ [(n, \<not> sy_err s)]\<rparr>])"

definition engine_steps :: "dma_sys \<Rightarrow> dma_sys list" where
  "engine_steps s =
     (case sy_busy s of None \<Rightarrow> []
      | Some n \<Rightarrow> map (\<lambda>err. s\<lparr>sy_busy := None, sy_ioc := True, sy_err := err, sy_finished := sy_finished s @ [n]\<rparr>)
                    [False, True]) @
     (if sy_ioc s then [s\<lparr>sy_latched := True\<rparr>] else [])"

definition isr_steps :: "dma_sys \<Rightarrow> dma_sys list" where
  "isr_steps s =
     (case sy_isr s of
        Isr_Idle \<Rightarrow> if sy_latched s then [s\<lparr>sy_isr := Isr_Entered\<rparr>] else []
      | Isr_Entered \<Rightarrow> [s\<lparr>sy_isr := Isr_Read (sy_ioc s)\<rparr>]
      | Isr_Read v \<Rightarrow> [s\<lparr>sy_isr := Isr_Acked, sy_ioc := (sy_ioc s \<and> \<not> v)\<rparr>]
      | Isr_Acked \<Rightarrow> [s\<lparr>sy_isr := Isr_Done, sy_dma := (sy_dma s)\<lparr>dc_done := dc_done (sy_dma s) + 1\<rparr>\<rparr>]
      | Isr_Done \<Rightarrow> [s\<lparr>sy_isr := Isr_Idle, sy_latched := False\<rparr>])"

text \<open>A process that waits can be killed; its operation returns at once and gives the mutex back.\<close>

definition kill_steps :: "dma_sys \<Rightarrow> dma_sys list" where
  "kill_steps s =
     (case sy_op s of
        Waiting n \<Rightarrow> [s\<lparr>sy_op := No_Op, sy_dma := dma_memory_unlock (sy_dma s)\<rparr>]
      | _ \<Rightarrow> [])"

inductive dma_step :: "dma_sys \<Rightarrow> dma_sys \<Rightarrow> bool" where
  op_step: "s' \<in> set (op_steps s) \<Longrightarrow> dma_step s s'"
| engine_step: "s' \<in> set (engine_steps s) \<Longrightarrow> dma_step s s'"
| isr_step: "s' \<in> set (isr_steps s) \<Longrightarrow> dma_step s s'"

inductive kill_step :: "dma_sys \<Rightarrow> dma_sys \<Rightarrow> bool" where
  op_killed: "s' \<in> set (kill_steps s) \<Longrightarrow> kill_step s s'"

definition dma_start :: "dma_control \<Rightarrow> dma_sys" where
  "dma_start dma =
     \<lparr>sy_dma = dma\<lparr>dc_mutex := False, dc_done := 0\<rparr>, sy_op = No_Op, sy_isr = Isr_Idle, sy_busy = None,
      sy_ioc = False, sy_err = False, sy_latched = False, sy_next = 0, sy_finished = [], sy_results = []\<rparr>"

section \<open>Agreement with the register model\<close>

text \<open>
  The status register of the engine in a state: the interrupt bits, an error bit, the idle bit. With
  this value on the bus, the tests of \<^verbatim>\<open>check_dma_status\<close> and \<^verbatim>\<open>maybe_reset_dma\<close> are the guards of the
  steps above.
\<close>

definition CDMASR_Err_Irq :: u32 where "CDMASR_Err_Irq = push_bit 14 1"
definition CDMASR_IOC_Irq :: u32 where "CDMASR_IOC_Irq = push_bit 12 1"

definition cdmasr_of :: "dma_sys \<Rightarrow> u32" where
  "cdmasr_of s =
     (if sy_ioc s then (if sy_err s then CDMASR_Err_Irq else CDMASR_IOC_Irq) else 0) OR
     (if sy_err s then CDMASR_DMAIntErr else 0) OR (if sy_busy s = None then CDMASR_Idle else 0)"

lemma cdmasr_of_bits:
  "cdmasr_of s AND dma_error_bits \<noteq> 0 \<longleftrightarrow> sy_err s" "cdmasr_of s AND CDMASR_Idle \<noteq> 0 \<longleftrightarrow> sy_busy s = None"
  by (auto simp: cdmasr_of_def dma_error_bits_def CDMASR_Err_Irq_def CDMASR_IOC_Irq_def CDMASR_DMAIntErr_def
      CDMASR_DMADecErr_def CDMASR_DMASlvErr_def CDMASR_Idle_def)

lemma status_agrees:
  assumes "hw pf tr (Cdma CDMASR) = cdmasr_of s"
  shows "fst (check_dma_status pf tr) = (if sy_err s then Inl EIO else Inr ())"
    and "maybe_reset_dma pf tr =
      (if sy_err s \<or> sy_busy s \<noteq> None then reset_dma_controller pf (tr @ [Readl (Cdma CDMASR) (cdmasr_of s)])
       else Some (Inr (), tr @ [Readl (Cdma CDMASR) (cdmasr_of s)]))"
  using assms cdmasr_of_bits [of s] by (auto simp: check_dma_status_def maybe_reset_dma_def readl_def)

section \<open>The invariant\<close>

text \<open>
  Nothing is under way: neither the engine nor the interrupt path holds a signal, except that a
  handler may still be about to leave.
\<close>

definition quiet :: "dma_sys \<Rightarrow> bool" where
  "quiet s \<longleftrightarrow> sy_busy s = None \<and> \<not> sy_ioc s \<and>
     (sy_isr s = Isr_Done \<or> sy_isr s = Isr_Idle \<and> \<not> sy_latched s)"

text \<open>The signal of a finished request is in exactly one place on its way to the process.\<close>

definition signalled :: "dma_sys \<Rightarrow> bool" where
  "signalled s \<longleftrightarrow> sy_busy s = None \<and>
     (sy_ioc s \<and> dc_done (sy_dma s) = 0 \<and>
        (sy_isr s = Isr_Idle \<or> sy_isr s = Isr_Done \<or> sy_isr s = Isr_Entered \<or> sy_isr s = Isr_Read True) \<or>
      \<not> sy_ioc s \<and> dc_done (sy_dma s) = 0 \<and> sy_isr s = Isr_Acked \<or>
      quiet s \<and> dc_done (sy_dma s) = 1)"

definition in_progress :: "dma_sys \<Rightarrow> nat \<Rightarrow> bool" where
  "in_progress s n \<longleftrightarrow> sy_busy s = Some n \<and> \<not> sy_ioc s \<and> dc_done (sy_dma s) = 0 \<and>
     (sy_isr s = Isr_Done \<or> sy_isr s = Isr_Idle \<and> \<not> sy_latched s)"

definition dma_inv :: "dma_sys \<Rightarrow> bool" where
  "dma_inv s \<longleftrightarrow>
     (case sy_op s of
        Waiting n \<Rightarrow> in_progress s n \<or> n \<in> set (sy_finished s) \<and> signalled s
      | Woken n \<Rightarrow> n \<in> set (sy_finished s) \<and> quiet s \<and> dc_done (sy_dma s) = 0
      | _ \<Rightarrow> quiet s \<and> dc_done (sy_dma s) = 0) \<and>
     (dc_mutex (sy_dma s) \<longleftrightarrow> sy_op s \<noteq> No_Op) \<and>
     (\<forall>(n, ok) \<in> set (sy_results s). n \<in> set (sy_finished s))"

lemmas dma_inv_defs = dma_inv_def quiet_def signalled_def in_progress_def

lemma lock_and_reinit_fields [simp]:
  "dc_done (lock_and_reinit dma) = 0" "dc_mutex (lock_and_reinit dma)"
  "dc_done (dma_memory_unlock dma) = dc_done dma" "\<not> dc_mutex (dma_memory_unlock dma)"
  by (simp_all add: lock_and_reinit_def dma_memory_lock_def dma_memory_unlock_def)

text \<open>What every agent keeps, every step keeps.\<close>

lemma dma_step_keeps:
  assumes "dma_step s s'" and "list_all P (op_steps s)" and "list_all P (engine_steps s)" and "list_all P (isr_steps s)"
  shows "P s'"
  using assms by (cases rule: dma_step.cases) (auto simp: list_all_iff)

lemma dma_inv_start: "dma_inv (dma_start dma)"
  by (simp add: dma_inv_defs dma_start_def)

lemma dma_inv_op: "dma_inv s \<Longrightarrow> list_all dma_inv (op_steps s)"
  by (cases "sy_op s") (auto simp: op_steps_def dma_inv_defs)

lemma dma_inv_engine: "dma_inv s \<Longrightarrow> list_all dma_inv (engine_steps s)"
  by (cases "sy_busy s"; cases "sy_op s") (auto simp: engine_steps_def dma_inv_defs)

lemma dma_inv_isr: "dma_inv s \<Longrightarrow> list_all dma_inv (isr_steps s)"
  by (cases "sy_isr s"; cases "sy_op s") (auto simp: isr_steps_def dma_inv_defs)

lemma dma_inv_step: "dma_step s s' \<Longrightarrow> dma_inv s \<Longrightarrow> dma_inv s'"
  by (rule dma_step_keeps) (auto intro: dma_inv_op dma_inv_engine dma_inv_isr)

text \<open>Requests are numbered in the order of the operations, and each returns once.\<close>

definition order_inv :: "dma_sys \<Rightarrow> bool" where
  "order_inv s \<longleftrightarrow>
     sorted_wrt (<) (map fst (sy_results s)) \<and> (\<forall>r \<in> set (sy_results s). fst r < sy_next s) \<and>
     (case sy_op s of
        Waiting n \<Rightarrow> n < sy_next s \<and> (\<forall>r \<in> set (sy_results s). fst r < n)
      | Woken n \<Rightarrow> n < sy_next s \<and> (\<forall>r \<in> set (sy_results s). fst r < n)
      | _ \<Rightarrow> True)"

lemma order_inv_step:
  assumes "dma_step s s'" and "order_inv s"
  shows "order_inv s'"
  using assms(1)
proof (rule dma_step_keeps)
  show "list_all order_inv (op_steps s)" using assms(2)
    by (cases "sy_op s") (auto simp: op_steps_def order_inv_def sorted_wrt_append less_Suc_eq)
  show "list_all order_inv (engine_steps s)" using assms(2)
    by (cases "sy_busy s") (auto simp: engine_steps_def order_inv_def split: op_phase.splits)
  show "list_all order_inv (isr_steps s)" using assms(2)
    by (cases "sy_isr s") (auto simp: isr_steps_def order_inv_def split: op_phase.splits)
qed

lemma dma_invs_reachable:
  assumes "dma_step\<^sup>*\<^sup>* (dma_start dma) s"
  shows "dma_inv s" and "order_inv s"
proof -
  from assms have "dma_inv s \<and> order_inv s"
  proof (induction rule: rtranclp_induct)
    case base
    show ?case by (simp add: dma_inv_start) (simp add: order_inv_def dma_start_def)
  qed (auto intro: dma_inv_step order_inv_step)
  then show "dma_inv s" and "order_inv s" by simp_all
qed

section \<open>The way of a signal\<close>

text \<open>Single steps as rules.\<close>

lemma op_wake:
  "sy_op s = Waiting n \<Longrightarrow> 0 < dc_done (sy_dma s) \<Longrightarrow>
     dma_step s (s\<lparr>sy_op := Woken n, sy_dma := (sy_dma s)\<lparr>dc_done := dc_done (sy_dma s) - 1\<rparr>\<rparr>)"
  by (rule op_step) (simp add: op_steps_def)

lemma op_return:
  "sy_op s = Woken n \<Longrightarrow>
     dma_step s (s\<lparr>sy_op := No_Op, sy_dma := dma_memory_unlock (sy_dma s),
       sy_results := sy_results s @ [(n, \<not> sy_err s)]\<rparr>)"
  by (rule op_step) (simp add: op_steps_def)

lemma engine_done:
  "sy_busy s = Some n \<Longrightarrow>
     dma_step s (s\<lparr>sy_busy := None, sy_ioc := True, sy_err := err, sy_finished := sy_finished s @ [n]\<rparr>)"
  by (rule engine_step) (cases err; simp add: engine_steps_def)

lemma intc_latch: "sy_ioc s \<Longrightarrow> dma_step s (s\<lparr>sy_latched := True\<rparr>)"
  by (rule engine_step) (simp add: engine_steps_def)

lemma isr_enter: "sy_isr s = Isr_Idle \<Longrightarrow> sy_latched s \<Longrightarrow> dma_step s (s\<lparr>sy_isr := Isr_Entered\<rparr>)"
  by (rule isr_step) (simp add: isr_steps_def)

lemma isr_read: "sy_isr s = Isr_Entered \<Longrightarrow> dma_step s (s\<lparr>sy_isr := Isr_Read (sy_ioc s)\<rparr>)"
  by (rule isr_step) (simp add: isr_steps_def)

lemma isr_ack: "sy_isr s = Isr_Read v \<Longrightarrow> dma_step s (s\<lparr>sy_isr := Isr_Acked, sy_ioc := (sy_ioc s \<and> \<not> v)\<rparr>)"
  by (rule isr_step) (simp add: isr_steps_def)

lemma isr_complete:
  "sy_isr s = Isr_Acked \<Longrightarrow>
     dma_step s (s\<lparr>sy_isr := Isr_Done, sy_dma := (sy_dma s)\<lparr>dc_done := dc_done (sy_dma s) + 1\<rparr>\<rparr>)"
  by (rule isr_step) (simp add: isr_steps_def)

lemma isr_leave: "sy_isr s = Isr_Done \<Longrightarrow> dma_step s (s\<lparr>sy_isr := Isr_Idle, sy_latched := False\<rparr>)"
  by (rule isr_step) (simp add: isr_steps_def)

definition can_return :: "dma_sys \<Rightarrow> nat \<Rightarrow> bool" where
  "can_return s n \<longleftrightarrow> (\<exists>s'. dma_step\<^sup>*\<^sup>* s s' \<and> n \<in> fst ` set (sy_results s'))"

lemma can_return_step: "dma_step s s' \<Longrightarrow> can_return s' n \<Longrightarrow> can_return s n"
  unfolding can_return_def by (meson converse_rtranclp_into_rtranclp)

lemma return_woken: "sy_op s = Woken n \<Longrightarrow> can_return s n"
  unfolding can_return_def by (rule exI, rule conjI, rule r_into_rtranclp, erule op_return) simp

lemma return_done: "sy_op s = Waiting n \<Longrightarrow> 0 < dc_done (sy_dma s) \<Longrightarrow> can_return s n"
  by (rule can_return_step [OF op_wake]) (auto intro: return_woken)

lemma return_acked: "sy_op s = Waiting n \<Longrightarrow> sy_isr s = Isr_Acked \<Longrightarrow> can_return s n"
  by (rule can_return_step [OF isr_complete]) (auto intro: return_done)

lemma return_read: "sy_op s = Waiting n \<Longrightarrow> sy_isr s = Isr_Read v \<Longrightarrow> can_return s n"
  by (rule can_return_step [OF isr_ack]) (auto intro: return_acked)

lemma return_entered: "sy_op s = Waiting n \<Longrightarrow> sy_isr s = Isr_Entered \<Longrightarrow> can_return s n"
  by (rule can_return_step [OF isr_read]) (auto intro: return_read)

lemma return_latched: "sy_op s = Waiting n \<Longrightarrow> sy_isr s = Isr_Idle \<Longrightarrow> sy_latched s \<Longrightarrow> can_return s n"
  by (rule can_return_step [OF isr_enter]) (auto intro: return_entered)

lemma return_idle: "sy_op s = Waiting n \<Longrightarrow> sy_isr s = Isr_Idle \<Longrightarrow> sy_ioc s \<Longrightarrow> can_return s n"
  by (rule can_return_step [OF intc_latch]) (auto intro: return_latched)

lemma return_leaving: "sy_op s = Waiting n \<Longrightarrow> sy_isr s = Isr_Done \<Longrightarrow> sy_ioc s \<Longrightarrow> can_return s n"
  by (rule can_return_step [OF isr_leave]) (auto intro: return_idle)

lemma return_busy:
  "sy_op s = Waiting n \<Longrightarrow> sy_busy s = Some m \<Longrightarrow> sy_isr s = Isr_Idle \<or> sy_isr s = Isr_Done \<Longrightarrow> can_return s n"
  by (rule can_return_step [OF engine_done]) (auto intro: return_idle return_leaving)

lemmas can_return_rules = return_done return_acked return_read return_entered return_idle return_leaving return_busy

lemma waiting_can_return:
  assumes "dma_inv s" and "sy_op s = Waiting n"
  shows "can_return s n"
proof -
  from assms consider "in_progress s n" | "signalled s" by (auto simp: dma_inv_def)
  then show ?thesis
  proof cases
    case 1
    then show ?thesis by (intro return_busy [OF assms(2)]) (auto simp: in_progress_def)
  next
    case 2
    then show ?thesis
      unfolding signalled_def using assms(2) by (elim conjE disjE) (auto intro: can_return_rules)
  qed
qed

section \<open>Properties\<close>

text \<open>
  C14: Transfers and interrupts. Let operations, the engine, the interrupt controller and the
  handler take their steps in any order, without a process being killed. Then the engine is
  busy only while the operation that started it waits, so that nobody else touches the buffer
  meanwhile; a transfer that has returned is one that the engine has ended, and the results
  come in the order of the requests, one for each; at most one completion is pending; and an
  operation that waits can always still return: its wake-up is never lost.
\<close>

theorem transfers_complete:
  assumes "dma_step\<^sup>*\<^sup>* (dma_start dma) s"
  shows "(\<forall>n. sy_busy s = Some n \<longrightarrow> sy_op s = Waiting n \<and> dc_mutex (sy_dma s)) \<and>
    fst ` set (sy_results s) \<subseteq> set (sy_finished s) \<and> sorted_wrt (<) (map fst (sy_results s)) \<and>
    dc_done (sy_dma s) \<le> 1 \<and>
    (\<forall>n. sy_op s = Waiting n \<longrightarrow> (\<exists>s'. dma_step\<^sup>*\<^sup>* s s' \<and> n \<in> fst ` set (sy_results s')))"
proof -
  note inv = dma_invs_reachable [OF assms]
  have "sy_op s = Waiting n \<and> dc_mutex (sy_dma s)" if "sy_busy s = Some n" for n
    using inv(1) that by (auto simp: dma_inv_defs split: op_phase.splits)
  moreover have "dc_done (sy_dma s) \<le> 1"
    using inv(1) by (auto simp: dma_inv_defs split: op_phase.splits)
  moreover have "fst ` set (sy_results s) \<subseteq> set (sy_finished s)" using inv(1) by (auto simp: dma_inv_def)
  ultimately show ?thesis
    using inv(2) waiting_can_return [OF inv(1)] by (auto simp: order_inv_def can_return_def)
qed

text \<open>A first transfer, up to its wait.\<close>

lemma first_wait:
  "\<exists>s. dma_step\<^sup>*\<^sup>* (dma_start dma) s \<and> sy_op s = Waiting 0 \<and> sy_busy s = Some 0 \<and> sy_isr s = Isr_Idle \<and>
     \<not> sy_ioc s \<and> \<not> sy_err s \<and> sy_next s = 1 \<and> sy_finished s = [] \<and> sy_results s = []"
proof -
  let ?s1 = "(dma_start dma)\<lparr>sy_op := Begun, sy_dma := lock_and_reinit (sy_dma (dma_start dma))\<rparr>"
  have "dma_step (dma_start dma) ?s1" by (rule op_step) (simp add: op_steps_def dma_start_def)
  moreover have "dma_step ?s1 (?s1\<lparr>sy_op := Ready\<rparr>)" by (rule op_step) (simp add: op_steps_def dma_start_def)
  moreover have "dma_step (?s1\<lparr>sy_op := Ready\<rparr>) (?s1\<lparr>sy_op := Waiting 0, sy_busy := Some 0, sy_next := 1\<rparr>)"
    by (rule op_step) (simp add: op_steps_def dma_start_def)
  ultimately have "dma_step\<^sup>*\<^sup>* (dma_start dma) (?s1\<lparr>sy_op := Waiting 0, sy_busy := Some 0, sy_next := 1\<rparr>)"
    by (meson rtranclp.rtrancl_refl rtranclp.rtrancl_into_rtrancl)
  then show ?thesis by (intro exI conjI) (assumption, simp_all add: dma_start_def)
qed

theorem transfers_complete_witness:
  "\<exists>s s'. dma_step\<^sup>*\<^sup>* (dma_start \<lparr>dc_buffer_shift = 12, dc_buffer_size = 4096, dc_buffer = [], dc_buffer_dma = 0,
      dc_mutex = False, dc_done = 0, dc_alignment = 4, dc_max_transfer = 4096\<rparr>) s \<and> sy_busy s = Some 0 \<and>
     dc_mutex (sy_dma s) \<and> dma_step\<^sup>*\<^sup>* s s' \<and> 0 \<in> fst ` set (sy_results s')"
proof -
  let ?d = "\<lparr>dc_buffer_shift = 12, dc_buffer_size = 4096, dc_buffer = [], dc_buffer_dma = 0,
      dc_mutex = False, dc_done = 0, dc_alignment = 4, dc_max_transfer = 4096\<rparr>"
  obtain s where s: "dma_step\<^sup>*\<^sup>* (dma_start ?d) s" "sy_op s = Waiting 0" "sy_busy s = Some 0"
    using first_wait [of ?d] by blast
  from transfers_complete [OF s(1)] s show ?thesis by blast
qed

section \<open>Killed operations\<close>

text \<open>
  A finding: killing a waiting process leaves its interrupt under way. If the engine ends that
  request just then, the next operation finds the engine idle, starts its own request, and is
  woken by the old interrupt: it returns success while the engine is still at work.
\<close>

lemma stale_signal:
  assumes "sy_op s = Waiting n" and "sy_isr s = Isr_Idle" and "sy_ioc s" and "\<not> sy_err s"
  shows "\<exists>s'. dma_step\<^sup>*\<^sup>* s s' \<and> (n, True) \<in> set (sy_results s') \<and> sy_finished s' = sy_finished s \<and> sy_busy s' = sy_busy s"
proof -
  let ?s1 = "s\<lparr>sy_latched := True\<rparr>"
  let ?s2 = "?s1\<lparr>sy_isr := Isr_Entered\<rparr>"
  let ?s3 = "?s2\<lparr>sy_isr := Isr_Read True\<rparr>"
  let ?s4 = "?s3\<lparr>sy_isr := Isr_Acked, sy_ioc := False\<rparr>"
  let ?s5 = "?s4\<lparr>sy_isr := Isr_Done, sy_dma := (sy_dma s)\<lparr>dc_done := dc_done (sy_dma s) + 1\<rparr>\<rparr>"
  let ?s6 = "?s5\<lparr>sy_op := Woken n, sy_dma := (sy_dma s)\<lparr>dc_done := dc_done (sy_dma s)\<rparr>\<rparr>"
  let ?s7 = "?s6\<lparr>sy_op := No_Op, sy_dma := dma_memory_unlock (sy_dma ?s6), sy_results := sy_results s @ [(n, True)]\<rparr>"
  have "dma_step s ?s1" using assms by (intro intc_latch)
  moreover have "dma_step ?s1 ?s2" using assms by (intro isr_enter) simp_all
  moreover have "dma_step ?s2 ?s3" using assms isr_read [of ?s2] by simp
  moreover have "dma_step ?s3 ?s4" using isr_ack [of ?s3 True] by simp
  moreover have "dma_step ?s4 ?s5" using isr_complete [of ?s4] by simp
  moreover have "dma_step ?s5 ?s6" using assms op_wake [of ?s5 n] by simp
  moreover have "dma_step ?s6 ?s7" using assms op_return [of ?s6 n] by simp
  ultimately have "dma_step\<^sup>*\<^sup>* s ?s7" by (meson rtranclp.rtrancl_refl rtranclp.rtrancl_into_rtrancl)
  then show ?thesis by (intro exI conjI) (assumption, simp_all)
qed

lemma killed_transfer_hazard:
  "\<exists>s. (\<lambda>s s'. dma_step s s' \<or> kill_step s s')\<^sup>*\<^sup>* (dma_start dma) s \<and>
     (1, True) \<in> set (sy_results s) \<and> 1 \<notin> set (sy_finished s) \<and> sy_busy s = Some 1"
proof -
  define R where "R = (\<lambda>s s'. dma_step s s' \<or> kill_step s s')"
  have R: "dma_step a b \<Longrightarrow> R a b" "kill_step a b \<Longrightarrow> R a b" for a b by (simp_all add: R_def)
  have sub: "dma_step\<^sup>*\<^sup>* a b \<Longrightarrow> R\<^sup>*\<^sup>* a b" for a b by (rule mono_rtranclp [rule_format]) (rule R)
  obtain s where s: "dma_step\<^sup>*\<^sup>* (dma_start dma) s" "sy_op s = Waiting 0" "sy_busy s = Some 0" "sy_isr s = Isr_Idle"
    "\<not> sy_err s" "sy_next s = 1" "sy_finished s = []" using first_wait [of dma] by blast
  let ?s1 = "s\<lparr>sy_op := No_Op, sy_dma := dma_memory_unlock (sy_dma s)\<rparr>"
  let ?s2 = "?s1\<lparr>sy_busy := None, sy_ioc := True, sy_err := False, sy_finished := [0]\<rparr>"
  let ?s3 = "?s2\<lparr>sy_op := Begun, sy_dma := lock_and_reinit (sy_dma ?s2)\<rparr>"
  let ?s4 = "?s3\<lparr>sy_op := Ready\<rparr>"
  let ?s5 = "?s4\<lparr>sy_op := Waiting 1, sy_busy := Some 1, sy_next := Suc 1\<rparr>"
  have "R s ?s1" using s by (intro R(2) op_killed) (simp add: kill_steps_def)
  moreover have "R ?s1 ?s2" using s engine_done [of ?s1 0 False] by (intro R(1)) simp
  moreover have "R ?s2 ?s3" by (intro R(1) op_step) (simp add: op_steps_def)
  moreover have "R ?s3 ?s4" by (intro R(1) op_step) (simp add: op_steps_def)
  moreover have "R ?s4 ?s5" using s by (intro R(1) op_step) (simp add: op_steps_def)
  ultimately have "R\<^sup>*\<^sup>* s ?s5" by (meson rtranclp.rtrancl_refl rtranclp.rtrancl_into_rtrancl)
  moreover obtain s' where "dma_step\<^sup>*\<^sup>* ?s5 s'" "(1, True) \<in> set (sy_results s')" "sy_finished s' = [0]" "sy_busy s' = Some 1"
    using stale_signal [of ?s5 1] s by auto
  ultimately have "R\<^sup>*\<^sup>* (dma_start dma) s'" "(1, True) \<in> set (sy_results s')" "1 \<notin> set (sy_finished s')" "sy_busy s' = Some 1"
    using sub [OF s(1)] sub [of ?s5 s'] by (auto intro: rtranclp_trans)
  then show ?thesis unfolding R_def by blast
qed

end
