(* ===== verification/Spec2Isabelle.thy ===== *)
theory Spec2Isabelle
  imports File_Ops Memory_Content Event_Race Debug Prom_Tool Prom_Test Dma_Race
begin

text \<open>
  A verification of the AMC PCIe driver, the Linux kernel driver under \<^verbatim>\<open>src/driver\<close> that gives user
  space device nodes for an FPGA card.

  \<^bold>\<open>The program.\<close> BAR2 of a card holds a Xilinx DMA engine, an interrupt controller and an
  identity PROM. When a card is found, \<^verbatim>\<open>amc_pci_probe\<close> takes a board number, enables the PCI
  device, loads and checks the PROM, sets up DMA and interrupt control, and creates one device
  node for each PROM entry that has a minor number. Opening a node looks up the entry: a device
  entry gives a register file (mapping of BAR0, an exclusive lock, events by read and poll), a
  DMA entry gives a memory file (a window on device memory that is read and written through
  one DMA buffer). Removal waits until all files are closed. The images of the PROM are written
  by \<^verbatim>\<open>tools/prom_data_creator.py\<close>, which also makes the default image that is compiled in.

  \<^bold>\<open>The theories\<close>, in the order in which they build on each other:

  \<^item> \<open>Amc_Prelude\<close>: machine integers as words, error codes and results (\<^verbatim>\<open>error.h\<close>), kernel
    pointers, bitmap and alignment operations, byte order, and the lemmas and simplification
    collections on them.
  \<^item> \<open>Utils\<close>: \<^verbatim>\<open>utils.c\<close>, the checksum in 32-bit arithmetic. Locale \<open>prom_checksum\<close>, interpreted for
    the driver's checksum and for the tool's.
  \<^item> \<open>Prom\<close>, \<open>Prom_Creator\<close>, \<open>Prom_Props\<close>: \<^verbatim>\<open>prom_processing.c\<close> and \<^verbatim>\<open>.h\<close> (window reads, loading,
    iteration, searches, the packed entries), the dump functions of the tool, and the KUnit
    images of \<^verbatim>\<open>test_assets\<close>. Every image the tool writes is loaded and decodes to what was
    configured; loading accepts exactly the images that check; searches stay in the buffer and
    end; a changed payload byte is rejected.
  \<^item> \<open>Formats\<close>: numbers as text, as the dumps and the tool write them and as Python reads them.
  \<^item> \<open>Prom_Text\<close>, \<open>Prom_Tool\<close>: the text layer of the tool, from the configuration file to the printed
    output, as Python 3 runs it on ASCII text. A written configuration is read back, the C and
    COE formats carry the image, the outcome for any text is determined, and the chain from a
    text over the COE file to the entries the driver loads is closed.
  \<^item> \<open>Prom_Test\<close>: the test cases of \<^verbatim>\<open>prom_processing_test.c\<close> as executable definitions; the suite
    passes.
  \<^item> \<open>Platform\<close>: the registers of BAR2, the trace of what the driver does on the bus, the ledger
    of kernel resources, and the two interfaces most components share: \<open>bit_slots\<close> (numbers from
    a bitmap) and \<open>resource_stage\<close> (a set-up that is balanced with its shut-down).
  \<^item> \<open>Dma_Control\<close>: \<^verbatim>\<open>dma_control.c\<close>. Reset with its polling loop, programming of the engine, whole
    transfers, set-up and shut-down. A transfer that reports success has made exactly one
    aligned request between the buffer and the address asked for; one that does not return waits
    for its request.
  \<^item> \<open>Dma_Race\<close>: \<^verbatim>\<open>dma_operation_unlocked\<close>, the engine, the interrupt controller and the handler as
    agents whose single accesses interleave. Without kills a returned transfer has been carried
    out and no wake-up is lost; a killed operation can make the next one return too early.
  \<^item> \<open>Interrupts\<close>: \<^verbatim>\<open>interrupts.c\<close>. Reader slots, event words, the handler, and the blocking read with
    what can happen while it sleeps. Locale \<open>event_mailbox\<close>: no event is lost.
  \<^item> \<open>Lifecycle\<close>: the reference count of \<^verbatim>\<open>amc_pci_core.c\<close> as a step relation of opens, closes and
    removal; the hardware is released only when no file is open and none can be opened.
  \<^item> \<open>Registers\<close>: \<^verbatim>\<open>registers.c\<close> on the shared state of a board, with its histories as a step relation.
    Locale \<open>exclusive_lock\<close>: while a file holds the lock it is the only open one.
  \<^item> \<open>Memory_Dev\<close>: \<^verbatim>\<open>memory.c\<close> in 64-bit arithmetic. No transfer leaves the window of its file; reads
    return the bytes of the window; the buffer that a write hands to the engine holds the user's
    bytes; locale \<open>chunked_file\<close>: reads in sequence return all of it.
  \<^item> \<open>Event_Race\<close>: blocking reads, polls, signals and the posting loop of \<^verbatim>\<open>event_interrupt\<close> as agents
    whose single accesses interleave, for any number of processes. Events reach those who wait for
    them, and the loop run alone is the single step of \<open>Interrupts\<close>.
  \<^item> \<open>Memory_Content\<close>: what writes do to device memory. A file is specified as a list of bytes; a
    write refines overwriting a part of it, with the effect on memory taken from the trace of the write. Locale \<open>chunked_store\<close>: data written piece by piece
    arrives completely, and is what reading the file then returns.
  \<^item> \<open>Core_Files\<close>: open, the sysfs files and device nodes of \<^verbatim>\<open>amc_pci_core.c\<close>. Open refines a
    specification on decoded entries, and the nodes carry the numbers under which open finds
    the entries they are named after.
  \<^item> \<open>Core_Board\<close>: board numbers, enabling the PCI device, set-up of a board, probe with each of its
    error exits, remove, and the module. Probe and remove are balanced; a list of the steps of a
    probe specifies when it fails, with which error, and exactly what it then leaves behind.
  \<^item> \<open>Core_Driver\<close>: histories of several boards. Numbers of live boards never overlap, and memory
    files exist only on boards with a controller.
  \<^item> \<open>Core_Handles\<close>: histories of all files of one board, with every operation and with interrupts.
    Reference count, lock count and contexts agree with the open files, so removal waits for
    exactly these, and every memory file keeps a window that its PROM entry declares.
  \<^item> \<open>File_Ops\<close>: the tables \<^verbatim>\<open>base_fops\<close>, \<^verbatim>\<open>amc_pci_reg_fops\<close> and \<^verbatim>\<open>amc_pci_dma_fops\<close>, with handlers that
    take untyped private data, and the system calls through them. Every call on an open file finds
    the context it expects; if it returns it is a step of \<open>Core_Handles\<close>, and the two ways not to
    return are determined.
  \<^item> \<open>Debug\<close>: \<^verbatim>\<open>debug.c\<close>, the memory the dumps read and the lines they print.
  \<^item> This theory: the composition from the PROM over open to device memory.

  \<^bold>\<open>How code becomes definitions.\<close> A C function is a definition of the same name; its struct is a
  record, its early returns and \<^verbatim>\<open>goto\<close> exits are branches, and a negative return code is \<open>Inl\<close> of
  an error. Objects that the code shares by pointers are passed along and returned. What comes
  from outside is a parameter: register values (as a function of the trace), the clock and the
  waiting of \<open>platform\<close>, what allocations and other kernel calls return (\<open>dma_kernel\<close>, \<open>probe_env\<close>),
  and how much \<^verbatim>\<open>copy_to_user\<close> copies. \<open>None\<close> stands for a read outside a buffer or for waiting that does
  not end, so a theorem that gives \<open>Some\<close> shows that neither happens. The bitmap operations and
  the reference count are atomic steps, as in the kernel.

  The trace records each register access and each hand-over of the DMA buffer, with what the buffer
  held (\<open>SyncForDevice\<close>); \<open>dma_requests\<close> and \<open>dma_sent\<close> read off it the transfers that were started, and
  the buffers that were handed over for them. \<open>wait_done\<close> of \<open>platform\<close> is the wait for the engine, for
  which the code sets no limit of time: it ends by completion or because the process is killed, or it
  is \<open>None\<close>. That it ends is the hypothesis \<open>waits_end\<close>, made only where a property says so; without
  it, the properties say which calls can wait for ever (\<open>wait_stuck\<close>). A device node of the model is
  a call of \<^verbatim>\<open>device_create\<close>, whose result the code does not look at: whether the kernel then has the
  node is not part of the model.

  \<^bold>\<open>Bounds and fuel.\<close> Loops are recursive functions with termination proofs. The polling loop of the
  reset ends if the clock advances (\<open>clock_advances\<close>); the blocking read takes the list of wake-ups
  that occur; \<open>read_whole\<close> takes as fuel the number of reads, and one per byte of the window is shown
  to be enough, as for the writes of \<open>write_whole\<close> one per byte of the data. Properties of windows assume that the alignment is at most 2 GB, that the window
  ends below half the address space and that one read asks for less than 2 GB (\<open>window_ok\<close>,
  \<open>count_ok\<close>), as the kernel guarantees for counts and the hardware for addresses. Dump lengths
  and offsets of the PROM are natural numbers, as they are far below the width of the C types.

  \<^bold>\<open>Not modelled.\<close> Messages printed to the kernel log other than the dumps; the tables that only the
  kernel reads (module parameters, PCI identifiers, the PCI driver, sysfs attributes), which are
  data without behaviour of their own; the command line parser of the image tool and configuration text that is not
  ASCII; registration with KUnit; build, packaging, udev and service files. Two threads that run
  between the atomic steps of the same file operation are modelled only where the code handles
  them: opens against removal, interrupts and readers against reads and polls (\<open>Event_Race\<close>), and
  transfers against the interrupt of the engine (\<open>Dma_Race\<close>, where the reset of the engine is one
  step). In these theories single accesses take effect in one order for everybody, as the barriers
  in the kernel's wait queues and atomic operations provide, and \<^verbatim>\<open>wake_up_all\<close> is one step, under the
  lock of the queue.
\<close>

section \<open>From the PROM to device memory\<close>

text \<open>
  C1: From the PROM to device memory. Take any history of opens, closes, register and memory
  operations and interrupts on a board that has been probed, and any memory file that is open
  at its end. Its window is one that an entry of the PROM declares; the entry permits reading
  unless the file was opened for writing alone, and writing unless it was opened for reading
  alone; and the board has a controller. If the window ends below half the address space, every
  read and every write of the file starts at most one transfer, and this transfer runs between
  the driver's buffer and device memory inside the declared window.
\<close>

theorem declared_windows_confine_access:
  assumes "probed_board priv0" and "file_step\<^sup>*\<^sup>* (priv0, []) (priv, files)" and "(Dma_File a, f_flags) \<in> set files"
  shows "\<exists>ent \<in> set (minor_entries (ap_prom priv0)). \<exists>perm base len dma.
    entry_window ent = Some (perm, base, len) \<and>
    (f_flags AND O_ACCMODE \<noteq> O_WRONLY \<longrightarrow> PROM_PERM_CAN_READ perm) \<and>
    (f_flags AND O_ACCMODE \<noteq> O_RDONLY \<longrightarrow> PROM_PERM_CAN_WRITE perm) \<and>
    ap_mem priv a = Some \<lparr>mc_base = base, mc_length = len\<rparr> \<and> ap_dma priv = Some dma \<and>
    (unat base + unat len < 2 ^ 63 \<longrightarrow> access_confined dma \<lparr>mc_base = base, mc_length = len\<rparr>)"
proof -
  have ok: "windows_ok priv files" using files_ok_reachable [OF assms(2,1)] by (rule files_ok_parts)
  with assms(3) obtain ctx dma where ctx: "ap_mem priv a = Some ctx" "declared (ap_prom priv) f_flags ctx"
    and dma: "ap_dma priv = Some dma" "window_ok dma \<lparr>mc_base = 0, mc_length = 0\<rparr>"
    by (fastforce simp: windows_ok_def)
  have "ap_prom priv = ap_prom priv0" using file_steps_prom [OF assms(2)] by simp
  with ctx(2) obtain ent perm where ent: "ent \<in> set (minor_entries (ap_prom priv0))"
    "entry_window ent = Some (perm, mc_base ctx, mc_length ctx)"
    "validate_file_permission f_flags (PROM_PERM_CAN_READ perm) (PROM_PERM_CAN_WRITE perm)"
    by (auto simp: declared_def)
  have "access_confined dma ctx" if "unat (mc_base ctx) + unat (mc_length ctx) < 2 ^ 63"
    using that dma(2) by (intro window_ok_confined) (simp add: window_ok_def)
  moreover have "ctx = \<lparr>mc_base = mc_base ctx, mc_length = mc_length ctx\<rparr>" by simp
  ultimately show ?thesis using ent(1,2) validate_access [OF ent(3)] ctx(1) dma(1) by metis
qed

theorem declared_windows_confine_access_witness:
  "\<exists>priv0 priv. file_step\<^sup>*\<^sup>* (priv0, []) (priv, [(Dma_File 9, O_RDWR)]) \<and>
     (\<exists>ent \<in> set (minor_entries (ap_prom priv0)). \<exists>perm base len.
        entry_window ent = Some (perm, base, len) \<and> PROM_PERM_CAN_READ perm \<and> PROM_PERM_CAN_WRITE perm)"
proof -
  obtain priv0 priv where s: "probed_board priv0" "file_step\<^sup>*\<^sup>* (priv0, []) (priv, [(Dma_File 9, O_RDWR)])"
    using demo_files by blast
  have acc: "O_RDWR AND O_ACCMODE \<noteq> O_WRONLY" "O_RDWR AND O_ACCMODE \<noteq> O_RDONLY"
    by (simp_all add: O_RDWR_def O_ACCMODE_def O_WRONLY_def O_RDONLY_def)
  from declared_windows_confine_access [OF s list.set_intros(1)] show ?thesis
    using acc s(2) by blast
qed

end
